(* ===== verification/Twine_Prelude.thy ===== *)
theory Twine_Prelude
  imports Main
begin

text \<open>
  Shared material: the fact collections of the development, counting lemmas on lists
  (the thread tables of the concurrent models are lists indexed by thread number), and
  three locales about labelled transition systems that the concurrent components
  instantiate: invariants of reachable states, bounded runs, and forward simulation.
\<close>

subsection \<open>Fact collections\<close>

named_theorems pc_defs
  \<open>classifications of program points, unfolded together in invariant proofs\<close>

named_theorems inv_defs
  \<open>definitions of the conjuncts of an invariant\<close>

subsection \<open>Machine integers\<close>

text \<open>The C++ type \<open>int\<close> (32 bits, two's complement) is read as \<open>int\<close> within these bounds.\<close>

abbreviation INT_MAX :: int where
  "INT_MAX \<equiv> 2147483647"

abbreviation INT_MIN :: int where
  "INT_MIN \<equiv> - 2147483648"

subsection \<open>Counting in a table\<close>

definition cnt :: "('a \<Rightarrow> bool) \<Rightarrow> 'a list \<Rightarrow> nat" where
  "cnt P xs = length (filter P xs)"

lemma cnt_Nil [simp]: "cnt P [] = 0"
  by (simp add: cnt_def)

lemma cnt_Cons [simp]: "cnt P (x # xs) = (if P x then Suc (cnt P xs) else cnt P xs)"
  by (simp add: cnt_def)

lemma cnt_append [simp]: "cnt P (xs @ ys) = cnt P xs + cnt P ys"
  by (simp add: cnt_def)

lemma cnt_le_length: "cnt P xs \<le> length xs"
  by (simp add: cnt_def)

lemma cnt_update:
  "i < length xs \<Longrightarrow>
   cnt P (xs[i := v]) + (if P (xs ! i) then 1 else 0) = cnt P xs + (if P v then 1 else 0)"
proof (induction xs arbitrary: i)
  case Nil
  then show ?case by simp
next
  case (Cons x xs)
  then show ?case by (cases i) (auto split: if_splits)
qed

lemma cnt_update_same: "i < length xs \<Longrightarrow> P v = P (xs ! i) \<Longrightarrow> cnt P (xs[i := v]) = cnt P xs"
  using cnt_update [of i xs P v] by (auto split: if_splits)

lemma cnt_update_in:
  "i < length xs \<Longrightarrow> \<not> P (xs ! i) \<Longrightarrow> P v \<Longrightarrow> cnt P (xs[i := v]) = Suc (cnt P xs)"
  using cnt_update [of i xs P v] by simp

lemma cnt_update_out:
  "i < length xs \<Longrightarrow> P (xs ! i) \<Longrightarrow> \<not> P v \<Longrightarrow> Suc (cnt P (xs[i := v])) = cnt P xs"
  using cnt_update [of i xs P v] by simp

lemma cnt_pos_iff: "0 < cnt P xs \<longleftrightarrow> (\<exists>i < length xs. P (xs ! i))"
  by (simp add: cnt_def filter_empty_conv set_conv_nth) blast

lemma cnt_full_iff: "cnt P xs = length xs \<longleftrightarrow> (\<forall>i < length xs. P (xs ! i))"
proof -
  have "cnt P xs = length xs \<longleftrightarrow> filter P xs = xs"
    using length_filter_less [of _ xs P] by (metis cnt_def filter_id_conv less_irrefl)
  also have "\<dots> \<longleftrightarrow> (\<forall>i < length xs. P (xs ! i))"
    by (simp add: filter_id_conv all_set_conv_all_nth)
  finally show ?thesis .
qed

lemma cnt_zero_iff: "cnt P xs = 0 \<longleftrightarrow> (\<forall>i < length xs. \<not> P (xs ! i))"
  using cnt_pos_iff [of P xs] by auto

lemma cnt_disjoint:
  "(\<And>x. P x \<Longrightarrow> \<not> Q x) \<Longrightarrow> cnt P xs + cnt Q xs \<le> length xs"
  by (induction xs) auto

lemma all_nth_update:
  "\<forall>j < length xs. P j (xs ! j) \<Longrightarrow> P i v \<Longrightarrow> \<forall>j < length xs. P j (xs[i := v] ! j)"
  by (metis nth_list_update_eq nth_list_update_neq)

lemma sum_list_update_nat:
  fixes f :: "'a \<Rightarrow> nat"
  shows "i < length xs \<Longrightarrow>
    sum_list (map f (xs[i := v])) + f (xs ! i) = sum_list (map f xs) + f v"
proof (induction xs arbitrary: i)
  case Nil
  then show ?case by simp
next
  case (Cons x xs)
  then show ?case by (cases i) auto
qed

subsection \<open>Labelled transition systems\<close>

text \<open>
  A component with concurrent threads is a step relation \<open>step s l t\<close> whose label \<open>l\<close>
  says which thread moved. The states a run can reach, and the runs themselves.
\<close>

inductive reach :: "('s \<Rightarrow> 'l \<Rightarrow> 's \<Rightarrow> bool) \<Rightarrow> 's \<Rightarrow> 's \<Rightarrow> bool"
  for step :: "'s \<Rightarrow> 'l \<Rightarrow> 's \<Rightarrow> bool" and s0 :: 's where
  reach_init: "reach step s0 s0"
| reach_step: "reach step s0 s \<Longrightarrow> step s l t \<Longrightarrow> reach step s0 t"

inductive run :: "('s \<Rightarrow> 'l \<Rightarrow> 's \<Rightarrow> bool) \<Rightarrow> 's \<Rightarrow> 'l list \<Rightarrow> 's \<Rightarrow> bool"
  for step :: "'s \<Rightarrow> 'l \<Rightarrow> 's \<Rightarrow> bool" where
  run_nil: "run step s [] s"
| run_cons: "step s l t \<Longrightarrow> run step t ls u \<Longrightarrow> run step s (l # ls) u"

inductive_cases run_nilE [elim!]: "run step s [] t"
inductive_cases run_consE [elim!]: "run step s (l # ls) u"

lemma run_append: "run step s ls t \<Longrightarrow> run step t ms u \<Longrightarrow> run step s (ls @ ms) u"
  by (induction rule: run.induct) (auto intro: run.intros)

lemma reach_run: "run step s ls t \<Longrightarrow> reach step s0 s \<Longrightarrow> reach step s0 t"
  by (induction rule: run.induct) (auto intro: reach_step)

lemma reach_trans: "reach step t u \<Longrightarrow> reach step s t \<Longrightarrow> reach step s u"
  by (induction rule: reach.induct) (auto intro: reach_step)

lemma reach_mono:
  assumes "\<And>s l t. step s l t \<Longrightarrow> step' s l t"
  shows "reach step s0 s \<Longrightarrow> reach step' s0 s"
  by (induction rule: reach.induct) (auto intro: reach.intros assms)

text \<open>An invariant: it holds at the start and every step keeps it.\<close>

locale invariant_system =
  fixes step :: "'s \<Rightarrow> 'l \<Rightarrow> 's \<Rightarrow> bool"
    and start :: 's
    and inv :: "'s \<Rightarrow> bool"
  assumes inv_start: "inv start"
    and inv_step: "step s l t \<Longrightarrow> inv s \<Longrightarrow> inv t"
begin

lemma inv_reach: "reach step start s \<Longrightarrow> inv s"
  by (induction rule: reach.induct) (auto intro: inv_start inv_step)

lemma inv_run: "run step s ls t \<Longrightarrow> inv s \<Longrightarrow> inv t"
  by (induction rule: run.induct) (auto intro: inv_step)

end

text \<open>
  A system whose work steps consume a bounded budget: no run of work steps is longer than
  the budget, and a state that is not finished can always work. Together they say that
  every way of scheduling the work steps ends in a finished state.
\<close>

locale terminating_system = invariant_system +
  fixes work :: "'l \<Rightarrow> bool"
    and budget :: "'s \<Rightarrow> nat"
    and finished :: "'s \<Rightarrow> bool"
  assumes budget_step: "inv s \<Longrightarrow> step s l t \<Longrightarrow> work l \<Longrightarrow> budget t < budget s"
    and progress: "inv s \<Longrightarrow> \<not> finished s \<Longrightarrow> \<exists>l t. work l \<and> step s l t"
begin

lemma work_run_bounded:
  "run step s ls t \<Longrightarrow> inv s \<Longrightarrow> \<forall>l \<in> set ls. work l \<Longrightarrow> length ls + budget t \<le> budget s"
proof (induction rule: run.induct)
  case (run_nil s)
  then show ?case by simp
next
  case (run_cons s l t ls u)
  then have "budget t < budget s" and "inv t"
    by (auto intro: budget_step inv_step)
  with run_cons show ?case by simp
qed

lemma finishes:
  "inv s \<Longrightarrow> \<exists>ls t. run step s ls t \<and> (\<forall>l \<in> set ls. work l) \<and> finished t"
proof (induction "budget s" arbitrary: s rule: less_induct)
  case less
  show ?case
  proof (cases "finished s")
    case True
    then show ?thesis by (intro exI [of _ "[]"] exI [of _ s]) (auto intro: run_nil)
  next
    case False
    then obtain l t where l: "work l" "step s l t"
      using progress less.prems by blast
    then obtain ls u where "run step t ls u" "\<forall>l \<in> set ls. work l" "finished u"
      using less.hyps [of t] less.prems by (blast intro: budget_step inv_step)
    with l show ?thesis
      by (intro exI [of _ "l # ls"] exI [of _ u]) (auto intro: run_cons)
  qed
qed

end

text \<open>
  Forward simulation: every concrete step is one abstract step, or none. Then every
  concrete run maps to an abstract run of the visible labels.
\<close>

locale simulation = invariant_system +
  fixes abs_step :: "'a \<Rightarrow> 'm \<Rightarrow> 'a \<Rightarrow> bool"
    and abs :: "'s \<Rightarrow> 'a"
    and vis :: "'s \<Rightarrow> 'l \<Rightarrow> 'm option"
  assumes sim_step:
    "inv s \<Longrightarrow> step s l t \<Longrightarrow>
       (case vis s l of None \<Rightarrow> abs t = abs s | Some m \<Rightarrow> abs_step (abs s) m (abs t))"
begin

lemma sim_run:
  "run step s ls t \<Longrightarrow> inv s \<Longrightarrow>
     \<exists>ms. run abs_step (abs s) ms (abs t) \<and> length ms \<le> length ls"
proof (induction rule: run.induct)
  case (run_nil s)
  then show ?case by (auto intro: run.run_nil)
next
  case (run_cons s l t ls u)
  then obtain ms where ms: "run abs_step (abs t) ms (abs u)" "length ms \<le> length ls"
    by (auto intro: inv_step)
  have "case vis s l of None \<Rightarrow> abs t = abs s | Some m \<Rightarrow> abs_step (abs s) m (abs t)"
    using run_cons by (auto intro: sim_step)
  with ms show ?case
    by (cases "vis s l") (fastforce intro: run.run_cons)+
qed

lemma sim_reach: "reach step start s \<Longrightarrow> reach abs_step (abs start) (abs s)"
proof (induction rule: reach.induct)
  case reach_init
  then show ?case by (rule reach.reach_init)
next
  case (reach_step s l t)
  have "case vis s l of None \<Rightarrow> abs t = abs s | Some m \<Rightarrow> abs_step (abs s) m (abs t)"
    using reach_step by (auto intro: sim_step inv_reach)
  with reach_step.IH show ?case
    by (cases "vis s l") (auto intro: reach.reach_step)
qed

end

end
