(* ===== verification/Barrier.thy ===== *)
theory Barrier
  imports Twine_Prelude
begin

text \<open>
  \<open>BarrierWithTrigger\<close> of \<open>src/worker_pool_implementation.h\<close>: a barrier for the worker
  threads, controlled by one calling thread (the thread that owns the pool). Every method
  is a program of single steps (one mutex, condition-variable or semaphore operation, or
  one access of a shared field, per step), so that the threads can interleave at each of
  them. A step that is blocked (a taken mutex, an empty semaphore, a condition variable
  that has not been signalled) is \<open>None\<close>.

  POSIX semantics used: a mutex has one owner and blocks other lockers; waiting on a
  condition variable releases the mutex and blocks in one step, and takes the mutex again
  after a wake-up, which may be spurious; a semaphore blocks at 0. The only thread that
  waits on the condition variable is the caller.
\<close>

subsection \<open>State\<close>

datatype tid = Caller | Worker nat

record barrier =
  owner :: "tid option"          \<comment> \<open>who holds \<open>_calling_mutex\<close>\<close>
  cv_blocked :: bool             \<comment> \<open>the caller sleeps on \<open>_calling_cond\<close>\<close>
  sems :: "nat \<Rightarrow> nat"           \<comment> \<open>the counts of \<open>_semaphores[0]\<close> and \<open>[1]\<close>\<close>
  active_sem_idx :: nat
  no_on_barrier :: int           \<comment> \<open>\<open>_no_threads_currently_on_barrier\<close>\<close>
  no_threads :: int

definition new_barrier :: barrier where
  "new_barrier = \<lparr>owner = None, cv_blocked = False, sems = (\<lambda>_. 0), active_sem_idx = 0,
     no_on_barrier = 0, no_threads = 0\<rparr>"

definition swap_semaphores :: "barrier \<Rightarrow> barrier" where
  "swap_semaphores b = b\<lparr>active_sem_idx := 1 - active_sem_idx b\<rparr>"

definition sem_signal :: "nat \<Rightarrow> barrier \<Rightarrow> barrier" where
  "sem_signal k b = b\<lparr>sems := (sems b)(k := sems b k + 1)\<rparr>"

subsection \<open>wait(), called by the worker threads\<close>

datatype wait_pc =
    WtLock            \<comment> \<open>\<open>mutex_lock\<close>\<close>
  | WtReadSem         \<comment> \<open>\<open>active_sem = _semaphores[_active_sem_idx]\<close>\<close>
  | WtInc nat         \<comment> \<open>increment the count and compare\<close>
  | WtSignal nat      \<comment> \<open>\<open>condition_signal\<close>\<close>
  | WtUnlock nat      \<comment> \<open>\<open>mutex_unlock\<close>\<close>
  | WtSemWait nat     \<comment> \<open>\<open>semaphore_wait(active_sem)\<close>\<close>
  | WtRet             \<comment> \<open>returned\<close>

fun wait_step :: "nat \<Rightarrow> wait_pc \<Rightarrow> barrier \<Rightarrow> (wait_pc \<times> barrier) option" where
  "wait_step i WtLock b =
     (if owner b = None then Some (WtReadSem, b\<lparr>owner := Some (Worker i)\<rparr>) else None)"
| "wait_step i WtReadSem b = Some (WtInc (active_sem_idx b), b)"
| "wait_step i (WtInc k) b =
     (let n = no_on_barrier b + 1; b' = b\<lparr>no_on_barrier := n\<rparr>
      in if n \<ge> no_threads b' then Some (WtSignal k, b') else Some (WtUnlock k, b'))"
| "wait_step i (WtSignal k) b = Some (WtUnlock k, b\<lparr>cv_blocked := False\<rparr>)"
| "wait_step i (WtUnlock k) b = Some (WtSemWait k, b\<lparr>owner := None\<rparr>)"
| "wait_step i (WtSemWait k) b =
     (if sems b k > 0 then Some (WtRet, b\<lparr>sems := (sems b)(k := sems b k - 1)\<rparr>) else None)"
| "wait_step i WtRet b = None"

subsection \<open>The operations of the calling thread\<close>

datatype bcall = WaitForAll | SetNoThreads int | ReleaseAll | ReleaseAndWait

text \<open>
  The program points. The flag of the release points says which of the two release
  methods runs (\<open>True\<close> for \<open>release_and_wait\<close>, which goes on to wait).
\<close>

datatype call_pc =
    CLock bcall          \<comment> \<open>\<open>mutex_lock\<close>, first statement of every method\<close>
  | CFetch               \<comment> \<open>\<open>current_threads = _no_threads_currently_on_barrier\<close>\<close>
  | CCompare int         \<comment> \<open>\<open>if (current_threads == _no_threads)\<close>\<close>
  | CWhile int           \<comment> \<open>\<open>while (current_threads < _no_threads)\<close>\<close>
  | CCondWait            \<comment> \<open>\<open>condition_wait\<close>: release the mutex and sleep\<close>
  | CWake                \<comment> \<open>\<open>condition_wait\<close>: asleep, or woken and taking the mutex\<close>
  | CReload              \<comment> \<open>\<open>current_threads = ...\<close>, after the sleep and before the loop\<close>
  | CSet int             \<comment> \<open>\<open>_no_threads = threads\<close>\<close>
  | CAssert bool         \<comment> \<open>the assertion of the release methods\<close>
  | CReset bool          \<comment> \<open>\<open>_no_threads_currently_on_barrier = 0\<close>\<close>
  | CPrev bool           \<comment> \<open>\<open>prev_sem = _semaphores[_active_sem_idx]\<close>\<close>
  | CSwap bool nat       \<comment> \<open>\<open>_swap_semaphores()\<close>\<close>
  | CFor bool nat int    \<comment> \<open>loop of \<open>semaphore_signal(prev_sem)\<close>\<close>
  | CUnlock              \<comment> \<open>\<open>mutex_unlock\<close>\<close>
  | CRet                 \<comment> \<open>returned\<close>
  | CAbort               \<comment> \<open>the assertion failed\<close>

fun call_body :: "bcall \<Rightarrow> call_pc" where
  "call_body WaitForAll = CFetch"
| "call_body (SetNoThreads k) = CSet k"
| "call_body ReleaseAll = CAssert False"
| "call_body ReleaseAndWait = CAssert True"

fun call_step :: "call_pc \<Rightarrow> barrier \<Rightarrow> (call_pc \<times> barrier) option" where
  "call_step (CLock c) b =
     (if owner b = None then Some (call_body c, b\<lparr>owner := Some Caller\<rparr>) else None)"
| "call_step CFetch b = Some (CCompare (no_on_barrier b), b)"
| "call_step (CCompare cur) b =
     (if cur = no_threads b then Some (CUnlock, b) else Some (CWhile cur, b))"
| "call_step (CWhile cur) b =
     (if cur < no_threads b then Some (CCondWait, b) else Some (CUnlock, b))"
| "call_step CCondWait b = Some (CWake, b\<lparr>owner := None, cv_blocked := True\<rparr>)"
| "call_step CWake b =
     (if \<not> cv_blocked b \<and> owner b = None then Some (CReload, b\<lparr>owner := Some Caller\<rparr>) else None)"
| "call_step CReload b = Some (CWhile (no_on_barrier b), b)"
| "call_step (CSet k) b = Some (CUnlock, b\<lparr>no_threads := k\<rparr>)"
| "call_step (CAssert w) b =
     (if no_on_barrier b = no_threads b then Some (CReset w, b) else Some (CAbort, b))"
| "call_step (CReset w) b = Some (CPrev w, b\<lparr>no_on_barrier := 0\<rparr>)"
| "call_step (CPrev w) b = Some (CSwap w (active_sem_idx b), b)"
| "call_step (CSwap w k) b = Some (CFor w k 0, swap_semaphores b)"
| "call_step (CFor w k i) b =
     (if i < no_threads b then Some (CFor w k (i + 1), sem_signal k b)
      else if w then Some (CReload, b) else Some (CUnlock, b))"
| "call_step CUnlock b = Some (CRet, b\<lparr>owner := None\<rparr>)"
| "call_step CRet b = None"
| "call_step CAbort b = None"

text \<open>A spurious wake-up, which POSIX allows at any time.\<close>

definition spurious_wakeup :: "barrier \<Rightarrow> barrier option" where
  "spurious_wakeup b = (if cv_blocked b then Some (b\<lparr>cv_blocked := False\<rparr>) else None)"

subsection \<open>Classification of the program points\<close>

text \<open>
  The barrier is shared by a table \<open>ts\<close> of threads, \<open>Some pc\<close> for a thread inside
  \<open>wait()\<close> and \<open>None\<close> for one outside, and the caller \<open>c\<close>, \<open>None\<close> outside the
  barrier's methods.
\<close>

fun crit :: "wait_pc option \<Rightarrow> bool" where
  "crit (Some WtReadSem) = True"
| "crit (Some (WtInc _)) = True"
| "crit (Some (WtSignal _)) = True"
| "crit (Some (WtUnlock _)) = True"
| "crit _ = False"

fun call_crit :: "call_pc option \<Rightarrow> bool" where
  "call_crit None = False"
| "call_crit (Some (CLock _)) = False"
| "call_crit (Some CWake) = False"
| "call_crit (Some CRet) = False"
| "call_crit (Some _) = True"

text \<open>The thread has arrived, and waits or is about to wait for semaphore \<open>k\<close>.\<close>

fun parked_on :: "nat \<Rightarrow> wait_pc option \<Rightarrow> bool" where
  "parked_on k (Some (WtSignal j)) = (j = k)"
| "parked_on k (Some (WtUnlock j)) = (j = k)"
| "parked_on k (Some (WtSemWait j)) = (j = k)"
| "parked_on k _ = False"

definition signalling :: "wait_pc option \<Rightarrow> bool" where
  "signalling t = (\<exists>k. t = Some (WtSignal k))"

text \<open>Local semaphore copies agree with the barrier while the mutex is held.\<close>

fun sem_ok :: "nat \<Rightarrow> wait_pc option \<Rightarrow> bool" where
  "sem_ok a (Some (WtInc k)) = (k = a)"
| "sem_ok a (Some (WtSignal k)) = (k = a)"
| "sem_ok a (Some (WtUnlock k)) = (k = a)"
| "sem_ok a (Some (WtSemWait k)) = (k < 2)"
| "sem_ok a _ = True"

text \<open>Between the reset of the count and the swap, the count no longer says who is parked.\<close>

fun in_reset :: "call_pc option \<Rightarrow> bool" where
  "in_reset (Some (CPrev _)) = True"
| "in_reset (Some (CSwap _ _)) = True"
| "in_reset _ = False"

text \<open>A release whose assertion has been passed and that has not yet swapped.\<close>

fun passed_assert :: "call_pc option \<Rightarrow> bool" where
  "passed_assert (Some (CReset _)) = True"
| "passed_assert (Some (CPrev _)) = True"
| "passed_assert (Some (CSwap _ _)) = True"
| "passed_assert _ = False"

text \<open>Points of the release methods up to the end of the signal loop.\<close>

fun releasing :: "call_pc option \<Rightarrow> bool" where
  "releasing (Some (CLock c)) = (c = ReleaseAll \<or> c = ReleaseAndWait)"
| "releasing (Some (CAssert _)) = True"
| "releasing (Some (CReset _)) = True"
| "releasing (Some (CPrev _)) = True"
| "releasing (Some (CSwap _ _)) = True"
| "releasing (Some (CFor _ _ _)) = True"
| "releasing _ = False"

text \<open>Posts to the previous semaphore that are still to come.\<close>

fun pending :: "int \<Rightarrow> call_pc option \<Rightarrow> int" where
  "pending n (Some (CFor _ _ i)) = n - i"
| "pending n _ = 0"

fun call_local_ok :: "barrier \<Rightarrow> call_pc option \<Rightarrow> bool" where
  "call_local_ok b (Some (CCompare cur)) = (cur = no_on_barrier b)"
| "call_local_ok b (Some (CWhile cur)) = (cur = no_on_barrier b)"
| "call_local_ok b (Some CCondWait) = (no_on_barrier b < no_threads b)"
| "call_local_ok b (Some (CReset _)) = (no_on_barrier b = no_threads b)"
| "call_local_ok b (Some (CPrev _)) = (no_on_barrier b = 0)"
| "call_local_ok b (Some (CSwap _ k)) = (no_on_barrier b = 0 \<and> k = active_sem_idx b)"
| "call_local_ok b (Some (CFor _ k i)) = (k = 1 - active_sem_idx b \<and> 0 \<le> i \<and> i \<le> no_threads b)"
| "call_local_ok b _ = True"

subsection \<open>The barrier invariant\<close>

definition mutex_inv :: "barrier \<Rightarrow> wait_pc option list \<Rightarrow> call_pc option \<Rightarrow> bool" where
  [inv_defs]: "mutex_inv b ts c \<longleftrightarrow>
     (\<forall>i. owner b = Some (Worker i) \<longleftrightarrow> i < length ts \<and> crit (ts ! i)) \<and>
     (owner b = Some Caller \<longleftrightarrow> call_crit c)"

text \<open>
  The generations: threads parked on the active semaphore are the ones the count counts
  (but for the short reset in a release), and every thread still parked on the other one
  has a post waiting for it or still to come. Nobody has posted to the active semaphore.
\<close>

definition gen_inv :: "barrier \<Rightarrow> wait_pc option list \<Rightarrow> call_pc option \<Rightarrow> bool" where
  [inv_defs]: "gen_inv b ts c \<longleftrightarrow>
     active_sem_idx b < 2 \<and>
     (\<forall>i < length ts. sem_ok (active_sem_idx b) (ts ! i)) \<and>
     int (cnt (parked_on (active_sem_idx b)) ts) =
       (if in_reset c then no_threads b else no_on_barrier b) \<and>
     int (cnt (parked_on (1 - active_sem_idx b)) ts) =
       int (sems b (1 - active_sem_idx b)) + pending (no_threads b) c \<and>
     sems b (active_sem_idx b) = 0 \<and>
     (releasing c \<longrightarrow> no_threads b = int (length ts)) \<and>
     call_local_ok b c"

text \<open>No lost wake-up: while the caller sleeps, an arrival or a signal is still to come.\<close>

definition wake_inv :: "barrier \<Rightarrow> wait_pc option list \<Rightarrow> call_pc option \<Rightarrow> bool" where
  [inv_defs]: "wake_inv b ts c \<longleftrightarrow>
     (cv_blocked b \<longrightarrow> c = Some CWake \<and>
        (no_on_barrier b < no_threads b \<or> (\<exists>i < length ts. signalling (ts ! i))))"

definition barrier_inv :: "barrier \<Rightarrow> wait_pc option list \<Rightarrow> call_pc option \<Rightarrow> bool" where
  "barrier_inv b ts c \<longleftrightarrow> mutex_inv b ts c \<and> gen_inv b ts c \<and> wake_inv b ts c"

lemma barrier_invI:
  "mutex_inv b ts c \<Longrightarrow> gen_inv b ts c \<Longrightarrow> wake_inv b ts c \<Longrightarrow> barrier_inv b ts c"
  by (simp add: barrier_inv_def)

lemma barrier_invD:
  assumes "barrier_inv b ts c"
  shows "mutex_inv b ts c" and "gen_inv b ts c" and "wake_inv b ts c"
  using assms by (simp_all add: barrier_inv_def)

lemma barrier_inv_new: "barrier_inv new_barrier [] None"
  by (simp add: barrier_inv_def inv_defs new_barrier_def)

text \<open>Threads that play no part in the barrier: outside, about to lock, or returned.\<close>

definition neutral :: "wait_pc option \<Rightarrow> bool" where
  "neutral t \<longleftrightarrow> t = None \<or> t = Some WtLock \<or> t = Some WtRet"

lemma neutralD [simp]:
  assumes "neutral t"
  shows "\<not> crit t" and "\<not> parked_on k t" and "sem_ok a t" and "\<not> signalling t"
  using assms by (auto simp: neutral_def signalling_def)

lemma neutral_intros [simp]: "neutral None" "neutral (Some WtLock)" "neutral (Some WtRet)"
  by (simp_all add: neutral_def)

lemma signalling_simps [simp]:
  "signalling (Some (WtSignal k))" "\<not> signalling None" "\<not> signalling (Some WtLock)"
  "\<not> signalling (Some WtReadSem)" "\<not> signalling (Some (WtInc k))"
  "\<not> signalling (Some (WtUnlock k))" "\<not> signalling (Some (WtSemWait k))"
  "\<not> signalling (Some WtRet)"
  by (auto simp: signalling_def)

lemma signalling_crit: "signalling t \<Longrightarrow> crit t"
  by (auto simp: signalling_def)

lemma parked_on_unique: "parked_on k t \<Longrightarrow> parked_on j t \<Longrightarrow> j = k"
  by (cases "(k, t)" rule: parked_on.cases) auto

lemma not_crit_local_ok: "\<not> call_crit c \<Longrightarrow> call_local_ok b c \<and> \<not> in_reset c \<and> pending n c = 0"
  by (cases "(b, c)" rule: call_local_ok.cases) auto

lemma swap_idx: "a < 2 \<Longrightarrow> 1 - (1 - a) = (a::nat)"
  by arith

lemma swap_idx_neq: "a < 2 \<Longrightarrow> 1 - a \<noteq> (a::nat)"
  by arith

subsection \<open>The invariant is kept by every step of the worker threads\<close>

lemma only_one_crit:
  "mutex_inv b ts c \<Longrightarrow> i < length ts \<Longrightarrow> crit (ts ! i) \<Longrightarrow>
   owner b = Some (Worker i) \<and> \<not> call_crit c \<and> (\<forall>j < length ts. crit (ts ! j) \<longrightarrow> j = i)"
  unfolding mutex_inv_def by (metis option.inject tid.distinct(1) tid.inject)

lemma mutex_keep:
  "mutex_inv b ts c \<Longrightarrow> i < length ts \<Longrightarrow> crit v = crit (ts ! i) \<Longrightarrow> owner b' = owner b \<Longrightarrow>
   mutex_inv b' (ts[i := v]) c"
  unfolding mutex_inv_def by (metis length_list_update nth_list_update)

lemma mutex_acquire:
  "mutex_inv b ts c \<Longrightarrow> i < length ts \<Longrightarrow> owner b = None \<Longrightarrow> crit v \<Longrightarrow>
   owner b' = Some (Worker i) \<Longrightarrow> mutex_inv b' (ts[i := v]) c"
  unfolding mutex_inv_def
  by (metis length_list_update nth_list_update option.distinct(1) option.inject tid.distinct(1) tid.inject)

lemma mutex_release:
  "mutex_inv b ts c \<Longrightarrow> i < length ts \<Longrightarrow> owner b = Some (Worker i) \<Longrightarrow> \<not> crit v \<Longrightarrow>
   owner b' = None \<Longrightarrow> mutex_inv b' (ts[i := v]) c"
  unfolding mutex_inv_def
  by (metis length_list_update nth_list_update option.distinct(1) option.inject tid.distinct(1) tid.inject)

lemma wait_step_mutex:
  assumes i: "i < length ts" and pc: "ts ! i = Some pc"
    and st: "wait_step i pc b = Some (pc', b')" and m: "mutex_inv b ts c"
  shows "mutex_inv b' (ts[i := Some pc']) c"
proof (cases pc)
  case WtLock
  with st show ?thesis by (intro mutex_acquire [OF m i]) (auto split: if_splits)
next
  case (WtUnlock k)
  with st only_one_crit [OF m i] pc show ?thesis by (intro mutex_release [OF m i]) auto
qed (use st pc in \<open>auto intro!: mutex_keep [OF m i] simp: Let_def split: if_splits\<close>)

lemma call_local_ok_cong:
  "no_on_barrier b' = no_on_barrier b \<Longrightarrow> no_threads b' = no_threads b \<Longrightarrow>
   active_sem_idx b' = active_sem_idx b \<Longrightarrow> call_local_ok b' c = call_local_ok b c"
  by (cases "(b, c)" rule: call_local_ok.cases) auto

lemma wait_step_wake:
  assumes "i < length ts" and "ts ! i = Some pc" and "wait_step i pc b = Some (pc', b')"
    and "wake_inv b ts c"
  shows "wake_inv b' (ts[i := Some pc']) c"
proof (cases "cv_blocked b'")
  case False
  then show ?thesis by (simp add: wake_inv_def)
next
  case True
  then have blk: "cv_blocked b" and ns: "\<not> signalling (Some pc)"
    using assms(3) by (cases pc; auto simp: Let_def split: if_splits)+
  then have c: "c = Some CWake"
    and disj: "no_on_barrier b < no_threads b \<or> (\<exists>j < length ts. signalling (ts ! j))"
    using assms(4) by (auto simp: wake_inv_def)
  have "no_on_barrier b' < no_threads b' \<or> signalling (Some pc')"
    if "no_on_barrier b < no_threads b"
    using that assms(3) by (cases pc) (auto simp: Let_def split: if_splits)
  moreover have "signalling (ts[i := Some pc'] ! j)" if "signalling (ts ! j)" for j
    using that ns assms(1,2) by (cases "j = i") auto
  ultimately show ?thesis
    using disj c assms(1) unfolding wake_inv_def by (metis length_list_update nth_list_update_eq)
qed

lemma gen_sem_ok_update:
  "\<forall>j < length ts. sem_ok a (ts ! j) \<Longrightarrow> sem_ok a v \<Longrightarrow> \<forall>j < length (ts[i := v]). sem_ok a (ts[i := v] ! j)"
  by (metis length_list_update nth_list_update_eq nth_list_update_neq)

lemma gen_keep:
  assumes "gen_inv b ts c" and i: "i < length ts"
    and "\<And>k. parked_on k v = parked_on k (ts ! i)" and "sem_ok (active_sem_idx b) v"
    and "active_sem_idx b' = active_sem_idx b" "no_on_barrier b' = no_on_barrier b"
    and "sems b' = sems b" "no_threads b' = no_threads b"
  shows "gen_inv b' (ts[i := v]) c"
  using assms gen_sem_ok_update [of ts "active_sem_idx b" v i] call_local_ok_cong [of b' b c]
    cnt_update_same [OF i, of "parked_on (active_sem_idx b)" v]
    cnt_update_same [OF i, of "parked_on (1 - active_sem_idx b)" v]
  unfolding gen_inv_def by simp

lemma wait_step_gen:
  assumes i: "i < length ts" and pc: "ts ! i = Some pc"
    and st: "wait_step i pc b = Some (pc', b')"
    and m: "mutex_inv b ts c" and g: "gen_inv b ts c"
  shows "gen_inv b' (ts[i := Some pc']) c"
proof -
  let ?a = "active_sem_idx b"
  have a: "?a < 2" and all: "\<forall>j < length ts. sem_ok ?a (ts ! j)"
    using g by (auto simp: gen_inv_def)
  then have ok: "sem_ok ?a (Some pc)" using i pc by metis
  have nc: "crit (Some pc) \<Longrightarrow> call_local_ok b' c \<and> \<not> in_reset c \<and> \<not> call_crit c"
    using only_one_crit [OF m i] pc not_crit_local_ok by auto
  have neq: "1 - ?a \<noteq> ?a" using a by arith
  note upd = cnt_update [OF i, of "parked_on ?a" "Some pc'"]
    cnt_update [OF i, of "parked_on (1 - ?a)" "Some pc'"]
  have act: "active_sem_idx b' = ?a" "no_threads b' = no_threads b"
    using st by (cases pc; auto simp: Let_def split: if_splits)+
  have ok': "sem_ok ?a (Some pc')"
    using st ok a by (cases pc) (auto simp: Let_def split: if_splits)
  note ok_upd = gen_sem_ok_update [OF all ok', of i]
  show ?thesis
  proof (cases pc)
    case (WtInc k)
    then have "no_on_barrier b' = no_on_barrier b + 1" "sems b' = sems b"
      "parked_on ?a (Some pc')" "\<not> parked_on (1 - ?a) (Some pc')"
      using st ok neq by (auto simp: Let_def split: if_splits)
    then show ?thesis using g upd ok_upd act nc WtInc pc unfolding gen_inv_def by simp
  next
    case (WtSemWait k)
    then have "sems b ?a = 0" "sems b k > 0" "k < 2"
      using g st ok by (auto simp: gen_inv_def split: if_splits)
    then have k: "k = 1 - ?a" "sems b k > 0" using a by (cases "k = ?a"; simp; arith)+
    then have "no_on_barrier b' = no_on_barrier b" "sems b' = (sems b)(k := sems b k - 1)" "pc' = WtRet"
      using st WtSemWait by auto
    then show ?thesis using g upd ok_upd act k neq WtSemWait pc call_local_ok_cong [of b' b c]
      unfolding gen_inv_def by simp
  next
    case WtRet
    then show ?thesis using st by simp
  qed (rule gen_keep [OF g i]; use st pc ok' in \<open>auto split: if_splits\<close>)+
qed

subsection \<open>Threads that enter, leave, appear and disappear\<close>

lemma neutral_update:
  assumes inv: "barrier_inv b ts c" and i: "i < length ts" and n: "neutral (ts ! i)" "neutral v"
  shows "barrier_inv b (ts[i := v]) c"
proof (rule barrier_invI)
  show "mutex_inv b (ts[i := v]) c"
    using n by (intro mutex_keep [OF barrier_invD(1) [OF inv] i]) auto
  show "gen_inv b (ts[i := v]) c"
    using n by (intro gen_keep [OF barrier_invD(2) [OF inv] i]) auto
  have "signalling (ts[i := v] ! j)" if "signalling (ts ! j)" for j
    using that n i by (cases "j = i") auto
  then show "wake_inv b (ts[i := v]) c"
    using barrier_invD(3) [OF inv] unfolding wake_inv_def by (metis length_list_update)
qed

lemma barrier_inv_append:
  assumes inv: "barrier_inv b ts c" and r: "\<not> releasing c" and v: "neutral v"
  shows "barrier_inv b (ts @ [v]) c"
proof (rule barrier_invI)
  show "mutex_inv b (ts @ [v]) c"
    using barrier_invD(1) [OF inv] v unfolding mutex_inv_def
    by (metis (no_types, lifting) length_append_singleton less_Suc_eq neutralD(1) nth_append_left nth_append_length)
  show "gen_inv b (ts @ [v]) c"
    using barrier_invD(2) [OF inv] v r unfolding gen_inv_def by (simp add: nth_append less_Suc_eq)
  show "wake_inv b (ts @ [v]) c"
    using barrier_invD(3) [OF inv] unfolding wake_inv_def
    by (metis length_append_singleton less_SucI nth_append)
qed

lemma barrier_inv_butlast:
  assumes inv: "barrier_inv b (ts @ [v]) c" and r: "\<not> releasing c" and v: "neutral v"
  shows "barrier_inv b ts c"
proof (rule barrier_invI)
  show "mutex_inv b ts c"
    using barrier_invD(1) [OF inv] v unfolding mutex_inv_def
    by (metis (no_types, lifting) length_append_singleton less_Suc_eq neutralD(1) nth_append_left nth_append_length)
  show "gen_inv b ts c"
    using barrier_invD(2) [OF inv] v r unfolding gen_inv_def by (simp add: nth_append less_Suc_eq)
  show "wake_inv b ts c"
    using barrier_invD(3) [OF inv] v unfolding wake_inv_def
    by (metis (no_types, lifting) length_append_singleton less_Suc_eq neutralD(4) nth_append_left nth_append_length)
qed

lemma wait_step_barrier_inv:
  assumes "i < length ts" and "ts ! i = Some pc" and "wait_step i pc b = Some (pc', b')"
    and "barrier_inv b ts c"
  shows "barrier_inv b' (ts[i := Some pc']) c"
  using assms by (auto intro!: barrier_invI dest: barrier_invD
      intro: wait_step_mutex wait_step_gen wait_step_wake)

subsection \<open>The invariant is kept by every step of the caller\<close>

lemma caller_keep:
  "mutex_inv b ts c \<Longrightarrow> owner b' = owner b \<Longrightarrow> call_crit c' = call_crit c \<Longrightarrow> mutex_inv b' ts c'"
  by (simp add: mutex_inv_def)

lemma caller_acquire:
  "mutex_inv b ts c \<Longrightarrow> owner b = None \<Longrightarrow> owner b' = Some Caller \<Longrightarrow> call_crit c' \<Longrightarrow>
   mutex_inv b' ts c'"
  unfolding mutex_inv_def by (metis option.distinct(1) option.inject tid.distinct(1))

lemma caller_release:
  "mutex_inv b ts c \<Longrightarrow> call_crit c \<Longrightarrow> owner b' = None \<Longrightarrow> \<not> call_crit c' \<Longrightarrow> mutex_inv b' ts c'"
  unfolding mutex_inv_def by (metis option.distinct(1) option.inject tid.distinct(1))

lemma call_step_mutex:
  assumes st: "call_step pc b = Some (pc', b')" and m: "mutex_inv b ts (Some pc)"
  shows "mutex_inv b' ts (Some pc')"
proof (cases pc)
  case (CLock c)
  with st show ?thesis
    by (intro caller_acquire [OF m]) (cases c; auto split: if_splits)+
next
  case CWake
  with st show ?thesis by (intro caller_acquire [OF m]) (auto split: if_splits)
next
  case CCondWait
  with st show ?thesis by (intro caller_release [OF m]) auto
next
  case CUnlock
  with st show ?thesis by (intro caller_release [OF m]) auto
qed (use st in \<open>auto intro!: caller_keep [OF m] simp: swap_semaphores_def sem_signal_def split: if_splits\<close>)

lemma call_step_wake:
  assumes st: "call_step pc b = Some (pc', b')" and m: "mutex_inv b ts (Some pc)"
    and g: "gen_inv b ts (Some pc)" and w: "wake_inv b ts (Some pc)"
  shows "wake_inv b' ts (Some pc')"
proof (cases "pc = CCondWait")
  case True
  then show ?thesis using st g by (auto simp: wake_inv_def gen_inv_def)
next
  case False
  then have "\<not> cv_blocked b'"
    using st w by (cases pc) (auto simp: wake_inv_def swap_semaphores_def sem_signal_def split: if_splits)
  then show ?thesis by (simp add: wake_inv_def)
qed

lemma call_step_gen:
  assumes st: "call_step pc b = Some (pc', b')" and m: "mutex_inv b ts (Some pc)"
    and g: "gen_inv b ts (Some pc)"
  shows "gen_inv b' ts (Some pc')"
proof (cases pc)
  case (CLock c)
  then show ?thesis using st g
    by (cases c) (auto simp: gen_inv_def split: if_splits)
next
  case (CSwap w k)
  let ?a = "active_sem_idx b"
  have a: "?a < 2" using g by (simp add: gen_inv_def)
  then have neq: "1 - ?a \<noteq> ?a" "1 - (1 - ?a) = ?a" "1 - ?a < 2" by arith+
  have "int (cnt (parked_on ?a) ts) = int (length ts)"
    using g CSwap by (simp add: gen_inv_def)
  then have all: "\<forall>i < length ts. parked_on ?a (ts ! i)" by (simp add: cnt_full_iff [symmetric])
  then have none: "cnt (parked_on (1 - ?a)) ts = 0"
    using neq by (auto simp: cnt_zero_iff dest: parked_on_unique)
  have "sem_ok (1 - ?a) (ts ! i)" if "i < length ts" for i
  proof -
    have "parked_on ?a (ts ! i)" using that all by simp
    moreover have "\<not> crit (ts ! i)" using only_one_crit [OF m that] CSwap by auto
    ultimately show ?thesis using a by (cases "(?a, ts ! i)" rule: parked_on.cases) auto
  qed
  with CSwap st g none all neq show ?thesis
    by (auto simp: gen_inv_def swap_semaphores_def)
next
  case (CFor w k i)
  have a: "active_sem_idx b < 2" using g by (simp add: gen_inv_def)
  then have neq: "1 - active_sem_idx b \<noteq> active_sem_idx b" by arith
  show ?thesis
  proof (cases "i < no_threads b")
    case True
    with CFor st g neq show ?thesis by (auto simp: gen_inv_def sem_signal_def)
  next
    case False
    with CFor st g show ?thesis by (auto simp: gen_inv_def split: if_splits)
  qed
next
  case CRet
  then show ?thesis using st by simp
next
  case CAbort
  then show ?thesis using st by simp
qed (use st g in \<open>auto simp: gen_inv_def split: if_splits\<close>)

lemma call_step_barrier_inv:
  assumes "call_step pc b = Some (pc', b')" and "barrier_inv b ts (Some pc)"
  shows "barrier_inv b' ts (Some pc')"
  using assms by (auto intro!: barrier_invI dest: barrier_invD
      intro: call_step_mutex call_step_gen call_step_wake)

lemma spurious_barrier_inv:
  assumes "spurious_wakeup b = Some b'" and "barrier_inv b ts c"
  shows "barrier_inv b' ts c"
  using assms call_local_ok_cong [of b' b c]
  by (auto simp: barrier_inv_def inv_defs spurious_wakeup_def split: if_splits)

text \<open>Entering a method needs, for the releases, that the barrier knows all its threads.\<close>

lemma enter_barrier_inv:
  assumes "barrier_inv b ts c" and "c = None \<or> c = Some CRet"
    and "call = ReleaseAll \<or> call = ReleaseAndWait \<Longrightarrow> no_threads b = int (length ts)"
  shows "barrier_inv b ts (Some (CLock call))"
  using assms by (auto simp: barrier_inv_def inv_defs)

lemma return_barrier_inv: "barrier_inv b ts (Some CRet) \<Longrightarrow> barrier_inv b ts None"
  by (auto simp: barrier_inv_def inv_defs)

lemma reenter_barrier_inv:
  "barrier_inv b ts (Some CRet) \<Longrightarrow> (call = ReleaseAll \<or> call = ReleaseAndWait \<Longrightarrow>
     no_threads b = int (length ts)) \<Longrightarrow> barrier_inv b ts (Some (CLock call))"
  by (rule enter_barrier_inv) auto

subsection \<open>What the invariant says\<close>

text \<open>Everybody is parked on the active semaphore when the count reaches the number of threads.\<close>

lemma all_parked:
  assumes "barrier_inv b ts c" and "\<not> in_reset c" and "no_on_barrier b = int (length ts)"
  shows "\<forall>i < length ts. parked_on (active_sem_idx b) (ts ! i)"
proof -
  have "cnt (parked_on (active_sem_idx b)) ts = length ts"
    using barrier_invD(2) [OF assms(1)] assms(2,3) by (simp add: gen_inv_def)
  then show ?thesis by (simp add: cnt_full_iff)
qed

lemma count_bounds:
  assumes "barrier_inv b ts c" and "\<not> in_reset c"
  shows "0 \<le> no_on_barrier b" and "no_on_barrier b \<le> int (length ts)"
  using barrier_invD(2) [OF assms(1)] assms(2) cnt_le_length [of "parked_on (active_sem_idx b)" ts]
  by (auto simp: gen_inv_def)

text \<open>A parked thread stays parked until the caller releases it: nobody can pass early.\<close>

lemma parked_active_blocked:
  assumes "barrier_inv b ts c" and "i < length ts" and "ts ! i = Some (WtSemWait (active_sem_idx b))"
  shows "wait_step i (WtSemWait (active_sem_idx b)) b = None"
  using barrier_invD(2) [OF assms(1)] by (simp add: gen_inv_def)

text \<open>A thread of the previous generation finds its post, once the caller has posted all of them.\<close>

lemma parked_previous_enabled:
  assumes inv: "barrier_inv b ts c" and i: "i < length ts" and ti: "ts ! i = Some (WtSemWait k)"
    and k: "k \<noteq> active_sem_idx b" and p: "pending (no_threads b) c = 0"
  shows "sems b k > 0"
proof -
  have g: "gen_inv b ts c" by (rule barrier_invD(2) [OF inv])
  then have "active_sem_idx b < 2" "k < 2" using i ti by (auto simp: gen_inv_def)
  then have k1: "k = 1 - active_sem_idx b" using k by arith
  then have "0 < cnt (parked_on k) ts" using i ti by (auto simp: cnt_pos_iff)
  then show ?thesis using g p k1 by (simp add: gen_inv_def)
qed

subsection \<open>Program points belong to methods\<close>

definition is_release :: "bcall \<Rightarrow> bool" where
  "is_release c \<longleftrightarrow> c = ReleaseAll \<or> c = ReleaseAndWait"

definition is_wait :: "bcall \<Rightarrow> bool" where
  "is_wait c \<longleftrightarrow> c = WaitForAll \<or> c = ReleaseAndWait"

fun in_code :: "bcall \<Rightarrow> call_pc \<Rightarrow> bool" where
  "in_code c (CLock d) = (d = c)"
| "in_code c CFetch = (c = WaitForAll)"
| "in_code c (CCompare _) = (c = WaitForAll)"
| "in_code c (CWhile _) = is_wait c"
| "in_code c CCondWait = is_wait c"
| "in_code c CWake = is_wait c"
| "in_code c CReload = is_wait c"
| "in_code c (CSet n) = (c = SetNoThreads n)"
| "in_code c (CAssert w) = (c = (if w then ReleaseAndWait else ReleaseAll))"
| "in_code c (CReset w) = (c = (if w then ReleaseAndWait else ReleaseAll))"
| "in_code c (CPrev w) = (c = (if w then ReleaseAndWait else ReleaseAll))"
| "in_code c (CSwap w _) = (c = (if w then ReleaseAndWait else ReleaseAll))"
| "in_code c (CFor w _ _) = (c = (if w then ReleaseAndWait else ReleaseAll))"
| "in_code c CAbort = is_release c"
| "in_code c _ = True"

lemma call_body_in_code: "in_code c (call_body c)"
  by (cases c) auto

lemma call_step_in_code:
  "call_step pc b = Some (pc', b') \<Longrightarrow> in_code c pc \<Longrightarrow> in_code c pc'"
  by (cases pc) (auto simp: is_wait_def is_release_def call_body_in_code split: if_splits)

text \<open>Only the two waiting methods can leave with the threads counted, and then they are all there.\<close>

fun leaving :: "call_pc \<Rightarrow> bool" where
  "leaving CUnlock = True"
| "leaving CRet = True"
| "leaving _ = False"

lemma wait_leaves_full:
  assumes "call_step pc b = Some (pc', b')" and "in_code c pc" and "is_wait c"
    and "leaving pc'" and "\<not> leaving pc" and "call_local_ok b (Some pc)"
  shows "no_threads b' \<le> no_on_barrier b'"
  using assms by (cases pc) (auto simp: is_wait_def split: if_splits)

text \<open>The points of a release before and after the swap.\<close>

fun before_swap :: "call_pc \<Rightarrow> bool" where
  "before_swap (CLock _) = True"
| "before_swap (CAssert _) = True"
| "before_swap (CReset _) = True"
| "before_swap (CPrev _) = True"
| "before_swap (CSwap _ _) = True"
| "before_swap CAbort = True"
| "before_swap _ = False"

lemma call_step_threads:
  "call_step pc b = Some (pc', b') \<Longrightarrow> no_threads b' = (case pc of CSet n \<Rightarrow> n | _ \<Rightarrow> no_threads b)"
  by (cases pc) (auto simp: swap_semaphores_def sem_signal_def split: if_splits)

lemma call_step_count:
  "call_step pc b = Some (pc', b') \<Longrightarrow>
   no_on_barrier b' = (case pc of CReset _ \<Rightarrow> 0 | _ \<Rightarrow> no_on_barrier b)"
  by (cases pc) (auto simp: swap_semaphores_def sem_signal_def split: if_splits)

lemma call_step_idx:
  "call_step pc b = Some (pc', b') \<Longrightarrow>
   active_sem_idx b' = (case pc of CSwap _ _ \<Rightarrow> 1 - active_sem_idx b | _ \<Rightarrow> active_sem_idx b)"
  by (cases pc) (auto simp: swap_semaphores_def sem_signal_def split: if_splits)

lemma wait_step_count:
  "wait_step i pc b = Some (pc', b') \<Longrightarrow>
   no_on_barrier b' = (case pc of WtInc _ \<Rightarrow> no_on_barrier b + 1 | _ \<Rightarrow> no_on_barrier b)"
  by (cases pc) (auto simp: Let_def split: if_splits)

lemma wait_step_frame:
  "wait_step i pc b = Some (pc', b') \<Longrightarrow>
   no_threads b' = no_threads b \<and> active_sem_idx b' = active_sem_idx b"
  by (cases pc) (auto simp: Let_def split: if_splits)

end
