(* ===== verification/Twine_Types.thy ===== *)
theory Twine_Types
  imports Twine_Prelude
begin

text \<open>
  The types of the public interface (\<open>src/include/twine/twine.h\<close>): status enumerations
  with their numbers, \<open>CpuInfo\<close>, the thread types, the \<open>errno\<close> values the code
  compares with, and the two conversions of status codes. Undefined behaviour of C++ that
  the code can run into is a value of its own.
\<close>

subsection \<open>Undefined behaviour\<close>

datatype ub = SignedOverflow | PastEndIterator | InvalidHandle | InvalidPointer | InvalidCast | Uninitialised

subsection \<open>Status enumerations\<close>

datatype worker_pool_status =
  WPS_OK | POOL_ERROR | PERMISSION_DENIED | LIMIT_EXCEEDED | INVALID_ARGUMENTS

datatype apple_status =
  ATS_OK | WG_CANCELLED | WG_FAILED | WG_SIZE_FAILED | FETCH_NAME_SIZE_FAILED
  | FETCH_NAME_FAILED | PD_FAILED | PD_SIZE_FAILED | MACOS_11_NOT_DETECTED
  | INVALID_DEVICE_NAME_PASSED | REALTIME_OK | REALTIME_FAILED | NO_WORKGROUP_PASSED
  | WORKGROUP_ALREADY_CANCELLED | WORKGROUP_JOINING_UNKNOWN_FAILURE | EMPTY

text \<open>The underlying integers of the two enumerations, the second in the macOS build.\<close>

fun worker_pool_status_value :: "worker_pool_status \<Rightarrow> int" where
  "worker_pool_status_value WPS_OK = 0"
| "worker_pool_status_value POOL_ERROR = 1"
| "worker_pool_status_value PERMISSION_DENIED = 2"
| "worker_pool_status_value LIMIT_EXCEEDED = 3"
| "worker_pool_status_value INVALID_ARGUMENTS = 4"

fun apple_status_value :: "apple_status \<Rightarrow> int" where
  "apple_status_value ATS_OK = 0"
| "apple_status_value WG_CANCELLED = 1"
| "apple_status_value WG_FAILED = 2"
| "apple_status_value WG_SIZE_FAILED = 3"
| "apple_status_value FETCH_NAME_SIZE_FAILED = 4"
| "apple_status_value FETCH_NAME_FAILED = 5"
| "apple_status_value PD_FAILED = 6"
| "apple_status_value PD_SIZE_FAILED = 7"
| "apple_status_value MACOS_11_NOT_DETECTED = 8"
| "apple_status_value INVALID_DEVICE_NAME_PASSED = 9"
| "apple_status_value REALTIME_OK = 10"
| "apple_status_value REALTIME_FAILED = 11"
| "apple_status_value NO_WORKGROUP_PASSED = 12"
| "apple_status_value WORKGROUP_ALREADY_CANCELLED = 13"
| "apple_status_value WORKGROUP_JOINING_UNKNOWN_FAILURE = 14"
| "apple_status_value EMPTY = 15"

lemma worker_pool_status_value_inject:
  "worker_pool_status_value s = worker_pool_status_value t \<longleftrightarrow> s = t"
  by (cases s; cases t) simp_all

lemma apple_status_value_inject: "apple_status_value s = apple_status_value t \<Longrightarrow> s = t"
  by (cases s; cases t; simp)

text \<open>C++ orders the values of an enumeration by their underlying integers.\<close>

instantiation worker_pool_status :: linorder
begin

definition less_eq_worker_pool_status :: "worker_pool_status \<Rightarrow> worker_pool_status \<Rightarrow> bool" where
  "s \<le> t \<longleftrightarrow> worker_pool_status_value s \<le> worker_pool_status_value t"

definition less_worker_pool_status :: "worker_pool_status \<Rightarrow> worker_pool_status \<Rightarrow> bool" where
  "s < t \<longleftrightarrow> worker_pool_status_value s < worker_pool_status_value t"

instance
  by standard
    (auto simp: less_eq_worker_pool_status_def less_worker_pool_status_def
      worker_pool_status_value_inject [symmetric])

end

instantiation apple_status :: linorder
begin

definition less_eq_apple_status :: "apple_status \<Rightarrow> apple_status \<Rightarrow> bool" where
  "s \<le> t \<longleftrightarrow> apple_status_value s \<le> apple_status_value t"

definition less_apple_status :: "apple_status \<Rightarrow> apple_status \<Rightarrow> bool" where
  "s < t \<longleftrightarrow> apple_status_value s < apple_status_value t"

instance
  by standard
    (auto simp: less_eq_apple_status_def less_apple_status_def intro: apple_status_value_inject)

end

subsection \<open>Cores and thread types\<close>

record cpu_info =
  cpu_id_of :: int     \<comment> \<open>\<open>id\<close>\<close>
  cpu_workers :: int   \<comment> \<open>\<open>workers\<close>\<close>

datatype thread_type = PTHREAD | COBALT | EVL

subsection \<open>errno\<close>

text \<open>The values of the platform's \<open>errno.h\<close> (Linux; the last is the one of macOS).\<close>

definition EPERM :: int where [simp]: "EPERM = 1"

definition EAGAIN :: int where [simp]: "EAGAIN = 11"

definition EEXIST :: int where [simp]: "EEXIST = 17"

definition EINVAL :: int where [simp]: "EINVAL = 22"

definition EALREADY :: int where [simp]: "EALREADY = 37"

definition errno_to_worker_status :: "int \<Rightarrow> worker_pool_status" where
  "errno_to_worker_status err =
     (if err = 0 then WPS_OK
      else if err = EAGAIN then LIMIT_EXCEEDED
      else if err = EPERM then PERMISSION_DENIED
      else if err = EINVAL then INVALID_ARGUMENTS
      else POOL_ERROR)"

definition to_error_string :: "worker_pool_status \<Rightarrow> string" where
  "to_error_string status =
     (case status of
        PERMISSION_DENIED \<Rightarrow> ''Permission denied''
      | LIMIT_EXCEEDED \<Rightarrow> ''Thread count limit exceeded''
      | _ \<Rightarrow> ''Error'')"

lemma errno_to_worker_status_OK [simp]: "errno_to_worker_status err = WPS_OK \<longleftrightarrow> err = 0"
  by (simp add: errno_to_worker_status_def)

end
