(* ===== verification/Thread_Helpers.thy ===== *)
theory Thread_Helpers
  imports Barrier Twine_Types
begin

text \<open>
  The interface \<open>BaseThreadHelper\<close> of \<open>src/src/thread_helpers.h\<close> and its three classes in
  \<open>src/src/thread_helpers_posix.cpp\<close>, \<open>_cobalt.cpp\<close> and \<open>_evl.cpp\<close>; the contract that their users
  rely on, as a locale; and the constructor and destructor of \<open>BarrierWithTrigger\<close>, which are
  written against the interface.

  The thread libraries are parameters: a record of functions over a world \<open>'w\<close>, one
  field for each function that the classes call. A mutex, condition variable, semaphore or thread
  is a handle (a number). A function that can block returns \<open>None\<close> while it does. A wait on a
  condition variable has two halves: going to sleep, which releases the mutex in the same
  step, and coming back with the mutex.
\<close>

subsection \<open>The thread libraries\<close>

text \<open>
  \<open>pthread_attr_t\<close>, as far as a thread's creator fills it in: the detach state, the inheritance of the
  scheduling, the policy, the priority, and the one core of the affinity mask if that is set.
\<close>

datatype detach_state = PTHREAD_CREATE_JOINABLE | PTHREAD_CREATE_DETACHED
datatype inherit_sched = PTHREAD_INHERIT_SCHED | PTHREAD_EXPLICIT_SCHED
datatype sched_policy = SCHED_OTHER | SCHED_FIFO | SCHED_RR

record thread_attr =
  detachstate :: detach_state
  inheritsched :: inherit_sched
  schedpolicy :: sched_policy
  sched_priority :: int
  cpu_affinity :: "int option"

definition default_attr :: thread_attr where
  "default_attr = \<lparr>detachstate = PTHREAD_CREATE_JOINABLE, inheritsched = PTHREAD_INHERIT_SCHED,
     schedpolicy = SCHED_OTHER, sched_priority = 0, cpu_affinity = None\<rparr>"

text \<open>The functions of \<open>pthread.h\<close>; Cobalt has the same ones with the prefix \<open>__cobalt_\<close>.\<close>

record 'w pthread_api =
  pthread_mutex_init :: "'w \<Rightarrow> int \<times> nat \<times> 'w"
  pthread_mutex_destroy :: "nat \<Rightarrow> 'w \<Rightarrow> int \<times> 'w"
  pthread_mutex_lock :: "tid \<Rightarrow> nat \<Rightarrow> 'w \<Rightarrow> (int \<times> 'w) option"
  pthread_mutex_unlock :: "tid \<Rightarrow> nat \<Rightarrow> 'w \<Rightarrow> int \<times> 'w"
  pthread_cond_init :: "'w \<Rightarrow> int \<times> nat \<times> 'w"
  pthread_cond_destroy :: "nat \<Rightarrow> 'w \<Rightarrow> int \<times> 'w"
  pthread_cond_sleep :: "tid \<Rightarrow> nat \<Rightarrow> nat \<Rightarrow> 'w \<Rightarrow> 'w"
  pthread_cond_resume :: "tid \<Rightarrow> nat \<Rightarrow> nat \<Rightarrow> 'w \<Rightarrow> (int \<times> 'w) option"
  pthread_cond_signal :: "nat \<Rightarrow> 'w \<Rightarrow> int \<times> 'w"
  pthread_create :: "thread_attr \<Rightarrow> nat \<Rightarrow> 'w \<Rightarrow> int \<times> nat \<times> 'w"
  pthread_join :: "nat \<Rightarrow> 'w \<Rightarrow> (int \<times> 'w) option"

record 'w named_sem_api =
  api_sem_unlink :: "string \<Rightarrow> 'w \<Rightarrow> int \<times> 'w"
  api_sem_open :: "string \<Rightarrow> 'w \<Rightarrow> (int + nat) \<times> 'w"   \<comment> \<open>\<open>O_CREAT\<close>, count 0; \<open>errno\<close> if it fails\<close>
  api_sem_close :: "nat \<Rightarrow> 'w \<Rightarrow> int \<times> 'w"
  api_sem_wait :: "nat \<Rightarrow> 'w \<Rightarrow> (int \<times> 'w) option"
  api_sem_post :: "nat \<Rightarrow> 'w \<Rightarrow> int \<times> 'w"

record 'w cobalt_sem_api =
  cobalt_sem_init :: "'w \<Rightarrow> int \<times> nat \<times> 'w"
  cobalt_sem_destroy :: "nat \<Rightarrow> 'w \<Rightarrow> int \<times> 'w"
  cobalt_sem_wait :: "nat \<Rightarrow> 'w \<Rightarrow> (int \<times> 'w) option"
  cobalt_sem_post :: "nat \<Rightarrow> 'w \<Rightarrow> int \<times> 'w"

text \<open>
  The \<open>evl_new_\<close> functions make an element under a name and return a descriptor or a negative
  error; the \<open>evl_open_\<close> functions do the same for an element that exists, and write the same
  structure again.
\<close>

record 'w evl_api =
  evl_new_mutex :: "string \<Rightarrow> 'w \<Rightarrow> int \<times> nat \<times> 'w"
  evl_open_mutex :: "nat \<Rightarrow> string \<Rightarrow> 'w \<Rightarrow> int \<times> nat \<times> 'w"
  evl_close_mutex :: "nat \<Rightarrow> 'w \<Rightarrow> int \<times> 'w"
  evl_lock_mutex :: "tid \<Rightarrow> nat \<Rightarrow> 'w \<Rightarrow> (int \<times> 'w) option"
  evl_unlock_mutex :: "tid \<Rightarrow> nat \<Rightarrow> 'w \<Rightarrow> int \<times> 'w"
  evl_new_event :: "string \<Rightarrow> 'w \<Rightarrow> int \<times> nat \<times> 'w"
  evl_open_event :: "nat \<Rightarrow> string \<Rightarrow> 'w \<Rightarrow> int \<times> nat \<times> 'w"
  evl_close_event :: "nat \<Rightarrow> 'w \<Rightarrow> int \<times> 'w"
  evl_wait_event_sleep :: "tid \<Rightarrow> nat \<Rightarrow> nat \<Rightarrow> 'w \<Rightarrow> 'w"
  evl_wait_event_resume :: "tid \<Rightarrow> nat \<Rightarrow> nat \<Rightarrow> 'w \<Rightarrow> (int \<times> 'w) option"
  evl_signal_event :: "nat \<Rightarrow> 'w \<Rightarrow> int \<times> 'w"
  evl_new_sem :: "string \<Rightarrow> 'w \<Rightarrow> int \<times> nat \<times> 'w"
  evl_open_sem :: "nat \<Rightarrow> string \<Rightarrow> 'w \<Rightarrow> int \<times> nat \<times> 'w"
  evl_close_sem :: "nat \<Rightarrow> 'w \<Rightarrow> int \<times> 'w"
  evl_get_sem :: "nat \<Rightarrow> 'w \<Rightarrow> (int \<times> 'w) option"
  evl_put_sem :: "nat \<Rightarrow> 'w \<Rightarrow> int \<times> 'w"

subsection \<open>The interface\<close>

text \<open>
  The virtual functions. A function that creates an object returns its result and what it
  wrote into the object, which means something only if the result is 0.
\<close>

record 'w thread_helper =
  mutex_create :: "string \<Rightarrow> 'w \<Rightarrow> int \<times> nat \<times> 'w"
  mutex_destroy :: "nat \<Rightarrow> 'w \<Rightarrow> int \<times> 'w"
  mutex_lock :: "tid \<Rightarrow> nat \<Rightarrow> 'w \<Rightarrow> (int \<times> 'w) option"
  mutex_unlock :: "tid \<Rightarrow> nat \<Rightarrow> 'w \<Rightarrow> int \<times> 'w"
  condition_var_create :: "string \<Rightarrow> 'w \<Rightarrow> int \<times> nat \<times> 'w"
  condition_var_destroy :: "nat \<Rightarrow> 'w \<Rightarrow> int \<times> 'w"
  condition_sleep :: "tid \<Rightarrow> nat \<Rightarrow> nat \<Rightarrow> 'w \<Rightarrow> 'w"                       \<comment> \<open>\<open>condition_wait\<close>, first half\<close>
  condition_resume :: "tid \<Rightarrow> nat \<Rightarrow> nat \<Rightarrow> 'w \<Rightarrow> (int \<times> 'w) option"   \<comment> \<open>\<open>condition_wait\<close>, second half\<close>
  condition_signal :: "nat \<Rightarrow> 'w \<Rightarrow> int \<times> 'w"
  thread_create :: "thread_attr \<Rightarrow> nat \<Rightarrow> 'w \<Rightarrow> int \<times> nat \<times> 'w"
  thread_join :: "nat \<Rightarrow> 'w \<Rightarrow> (int \<times> 'w) option"
  semaphore_create :: "string \<Rightarrow> 'w \<Rightarrow> int \<times> nat \<times> 'w"
  semaphore_destroy :: "nat \<Rightarrow> string \<Rightarrow> 'w \<Rightarrow> int \<times> 'w"
  semaphore_wait :: "nat \<Rightarrow> 'w \<Rightarrow> (int \<times> 'w) option"
  semaphore_signal :: "nat \<Rightarrow> 'w \<Rightarrow> int \<times> 'w"

subsection \<open>PosixThreadHelper\<close>

definition posix_semaphore_create :: "'w named_sem_api \<Rightarrow> string \<Rightarrow> 'w \<Rightarrow> int \<times> nat \<times> 'w" where
  "posix_semaphore_create S name w =
     (case api_sem_open S name (snd (api_sem_unlink S name w)) of
        (Inl err, w') \<Rightarrow> (err, 0, w')
      | (Inr h, w') \<Rightarrow> (0, h, w'))"

definition posix_semaphore_destroy :: "'w named_sem_api \<Rightarrow> nat \<Rightarrow> string \<Rightarrow> 'w \<Rightarrow> int \<times> 'w" where
  "posix_semaphore_destroy S h name w = (0, snd (api_sem_close S h (snd (api_sem_unlink S name w))))"

definition PosixThreadHelper :: "'w pthread_api \<Rightarrow> 'w named_sem_api \<Rightarrow> 'w thread_helper" where
  "PosixThreadHelper P S =
     \<lparr>mutex_create = (\<lambda>name. pthread_mutex_init P),
      mutex_destroy = pthread_mutex_destroy P,
      mutex_lock = pthread_mutex_lock P,
      mutex_unlock = pthread_mutex_unlock P,
      condition_var_create = (\<lambda>name. pthread_cond_init P),
      condition_var_destroy = pthread_cond_destroy P,
      condition_sleep = pthread_cond_sleep P,
      condition_resume = pthread_cond_resume P,
      condition_signal = pthread_cond_signal P,
      thread_create = pthread_create P,
      thread_join = pthread_join P,
      semaphore_create = posix_semaphore_create S,
      semaphore_destroy = posix_semaphore_destroy S,
      semaphore_wait = api_sem_wait S,
      semaphore_signal = api_sem_post S\<rparr>"

subsection \<open>CobaltThreadHelper\<close>

definition CobaltThreadHelper :: "'w pthread_api \<Rightarrow> 'w cobalt_sem_api \<Rightarrow> 'w thread_helper" where
  "CobaltThreadHelper P S =
     \<lparr>mutex_create = (\<lambda>name. pthread_mutex_init P),
      mutex_destroy = pthread_mutex_destroy P,
      mutex_lock = pthread_mutex_lock P,
      mutex_unlock = pthread_mutex_unlock P,
      condition_var_create = (\<lambda>name. pthread_cond_init P),
      condition_var_destroy = pthread_cond_destroy P,
      condition_sleep = pthread_cond_sleep P,
      condition_resume = pthread_cond_resume P,
      condition_signal = pthread_cond_signal P,
      thread_create = pthread_create P,
      thread_join = pthread_join P,
      semaphore_create = (\<lambda>semaphore_name. cobalt_sem_init S),
      semaphore_destroy = (\<lambda>h semaphore_name. cobalt_sem_destroy S h),
      semaphore_wait = cobalt_sem_wait S,
      semaphore_signal = cobalt_sem_post S\<rparr>"

subsection \<open>EvlThreadHelper\<close>

text \<open>The name that the format \<open>"%s-%d"\<close> makes of the name and the printed \<open>gettid()\<close>.\<close>

definition evl_name :: "string \<Rightarrow> string \<Rightarrow> string" where
  "evl_name name gettid = name @ ''-'' @ gettid"

definition evl_mutex_create :: "'w evl_api \<Rightarrow> string \<Rightarrow> string \<Rightarrow> 'w \<Rightarrow> int \<times> nat \<times> 'w" where
  "evl_mutex_create E gettid name w =
     (case evl_new_mutex E (evl_name name gettid) w of
        (fd, h, w1) \<Rightarrow>
          if fd < 0 then (fd, h, w1)
          else (case evl_open_mutex E h (evl_name name gettid) w1 of
                  (fd, h', w2) \<Rightarrow> if fd < 0 then (fd, h', w2) else (0, h', w2)))"

definition evl_condition_var_create :: "'w evl_api \<Rightarrow> string \<Rightarrow> string \<Rightarrow> 'w \<Rightarrow> int \<times> nat \<times> 'w" where
  "evl_condition_var_create E gettid name w =
     (case evl_new_event E (evl_name name gettid) w of
        (fd, h, w1) \<Rightarrow>
          if fd < 0 then (fd, h, w1)
          else (case evl_open_event E h (evl_name name gettid) w1 of
                  (fd, h', w2) \<Rightarrow> if fd < 0 then (fd, h', w2) else (0, h', w2)))"

definition evl_semaphore_create :: "'w evl_api \<Rightarrow> string \<Rightarrow> string \<Rightarrow> 'w \<Rightarrow> int \<times> nat \<times> 'w" where
  "evl_semaphore_create E gettid name w =
     (case evl_new_sem E (evl_name name gettid) w of
        (fd, h, w1) \<Rightarrow>
          if fd < 0 then (fd, h, w1)
          else (case evl_open_sem E h (evl_name name gettid) w1 of
                  (fd, h', w2) \<Rightarrow> if fd < 0 then (fd, h', w2) else (0, h', w2)))"

text \<open>Threads are made and joined with the functions of \<open>pthread.h\<close>.\<close>

definition EvlThreadHelper :: "'w evl_api \<Rightarrow> 'w pthread_api \<Rightarrow> string \<Rightarrow> 'w thread_helper" where
  "EvlThreadHelper E P gettid =
     \<lparr>mutex_create = evl_mutex_create E gettid,
      mutex_destroy = evl_close_mutex E,
      mutex_lock = evl_lock_mutex E,
      mutex_unlock = evl_unlock_mutex E,
      condition_var_create = evl_condition_var_create E gettid,
      condition_var_destroy = evl_close_event E,
      condition_sleep = evl_wait_event_sleep E,
      condition_resume = evl_wait_event_resume E,
      condition_signal = evl_signal_event E,
      thread_create = pthread_create P,
      thread_join = pthread_join P,
      semaphore_create = evl_semaphore_create E gettid,
      semaphore_destroy = (\<lambda>h name. evl_close_sem E h),
      semaphore_wait = evl_get_sem E,
      semaphore_signal = evl_put_sem E\<rparr>"

subsection \<open>What a world of objects looks like from outside\<close>

record sync =
  m_live :: "nat \<Rightarrow> bool"
  m_owner :: "nat \<Rightarrow> tid option"
  c_live :: "nat \<Rightarrow> bool"
  c_asleep :: "nat \<Rightarrow> tid \<Rightarrow> bool"
  s_live :: "nat \<Rightarrow> bool"
  s_count :: "nat \<Rightarrow> nat"

text \<open>A thread as the system sees it; there is none after the join.\<close>

datatype thread_state = NoThread | Running | Ended

text \<open>Every object that exists still exists, in the same state.\<close>

definition keeps :: "sync \<Rightarrow> sync \<Rightarrow> bool" where
  "keeps v v' \<longleftrightarrow>
     (\<forall>m. m_live v m \<longrightarrow> m_live v' m \<and> m_owner v' m = m_owner v m) \<and>
     (\<forall>c. c_live v c \<longrightarrow> c_live v' c \<and> c_asleep v' c = c_asleep v c) \<and>
     (\<forall>h. s_live v h \<longrightarrow> s_live v' h \<and> s_count v' h = s_count v h)"

lemma keeps_refl [simp]: "keeps v v"
  by (simp add: keeps_def)

lemma keeps_trans: "keeps u v \<Longrightarrow> keeps v w \<Longrightarrow> keeps u w"
  by (simp add: keeps_def)

definition set_owner :: "nat \<Rightarrow> tid option \<Rightarrow> sync \<Rightarrow> sync" where
  "set_owner m t v = v\<lparr>m_owner := (m_owner v)(m := t)\<rparr>"

definition set_asleep :: "nat \<Rightarrow> tid \<Rightarrow> bool \<Rightarrow> sync \<Rightarrow> sync" where
  "set_asleep c t b v = v\<lparr>c_asleep := (c_asleep v)(c := (c_asleep v c)(t := b))\<rparr>"

definition set_count :: "nat \<Rightarrow> nat \<Rightarrow> sync \<Rightarrow> sync" where
  "set_count h n v = v\<lparr>s_count := (s_count v)(h := n)\<rparr>"

lemma set_simps [simp]:
  "m_live (set_owner m t v) = m_live v" "m_owner (set_owner m t v) = (m_owner v)(m := t)"
  "c_live (set_owner m t v) = c_live v" "c_asleep (set_owner m t v) = c_asleep v"
  "s_live (set_owner m t v) = s_live v" "s_count (set_owner m t v) = s_count v"
  "m_live (set_asleep c u b v) = m_live v" "m_owner (set_asleep c u b v) = m_owner v"
  "c_live (set_asleep c u b v) = c_live v"
  "c_asleep (set_asleep c u b v) = (c_asleep v)(c := (c_asleep v c)(u := b))"
  "s_live (set_asleep c u b v) = s_live v" "s_count (set_asleep c u b v) = s_count v"
  "m_live (set_count h n v) = m_live v" "m_owner (set_count h n v) = m_owner v"
  "c_live (set_count h n v) = c_live v" "c_asleep (set_count h n v) = c_asleep v"
  "s_live (set_count h n v) = s_live v" "s_count (set_count h n v) = (s_count v)(h := n)"
  by (simp_all add: set_owner_def set_asleep_def set_count_def)

end
