(* ===== verification/Helper_Contract.thy ===== *)
theory Helper_Contract
  imports Thread_Helpers
begin

text \<open>
  What the users of \<open>BaseThreadHelper\<close> rely on, as a locale over a helper and a view of its
  world: mutual exclusion, condition variables without lost wake-ups, counting semaphores,
  and new objects that are not shared with anybody. Then the constructor and the
  destructor of \<open>BarrierWithTrigger\<close>, which use a helper through the interface.
\<close>

subsection \<open>Counting semaphores\<close>

fun iterate_opt :: "nat \<Rightarrow> ('s \<Rightarrow> 's option) \<Rightarrow> 's \<Rightarrow> 's option" where
  "iterate_opt 0 f s = Some s"
| "iterate_opt (Suc n) f s = (case f s of None \<Rightarrow> None | Some t \<Rightarrow> iterate_opt n f t)"

locale counting_semaphores =
  fixes signal :: "nat \<Rightarrow> 'w \<Rightarrow> 'w"
    and wait :: "nat \<Rightarrow> 'w \<Rightarrow> 'w option"
    and count :: "'w \<Rightarrow> nat \<Rightarrow> nat"
    and live :: "'w \<Rightarrow> nat \<Rightarrow> bool"
  assumes signal_count: "live w h \<Longrightarrow> count (signal h w) g = (if g = h then count w g + 1 else count w g)"
    and signal_live: "live w h \<Longrightarrow> live (signal h w) = live w"
    and wait_blocks: "live w h \<Longrightarrow> wait h w = None \<longleftrightarrow> count w h = 0"
    and wait_count: "live w h \<Longrightarrow> wait h w = Some w' \<Longrightarrow>
      live w' = live w \<and> count w' g = (if g = h then count w g - 1 else count w g)"
begin

lemma signals_count:
  "live w h \<Longrightarrow> live ((signal h ^^ n) w) = live w \<and>
   count ((signal h ^^ n) w) g = (if g = h then count w g + n else count w g)"
  by (induction n) (auto simp: signal_count signal_live)

lemma waits_possible: "live w h \<Longrightarrow> iterate_opt m (wait h) w \<noteq> None \<longleftrightarrow> m \<le> count w h"
proof (induction m arbitrary: w)
  case (Suc m)
  show ?case
  proof (cases "wait h w")
    case None
    then have "count w h = 0" using wait_blocks [OF Suc.prems] by simp
    then show ?thesis using None by simp
  next
    case (Some w')
    then have "count w h \<noteq> 0" using wait_blocks [OF Suc.prems] by simp
    moreover have "live w' h" "count w' h = count w h - 1"
      using wait_count [OF Suc.prems Some] Suc.prems by auto
    ultimately show ?thesis using Suc.IH [of w'] Some by auto
  qed
qed simp

text \<open>Exactly as many threads pass as there were signals, beyond the count at the start.\<close>

lemma passes_eq_signals:
  assumes "live w h"
  shows "iterate_opt m (wait h) ((signal h ^^ n) w) \<noteq> None \<longleftrightarrow> m \<le> count w h + n"
proof -
  have "live ((signal h ^^ n) w) h" "count ((signal h ^^ n) w) h = count w h + n"
    using signals_count [OF assms] assms by auto
  then show ?thesis using waits_possible [of "(signal h ^^ n) w" h m] by simp
qed

end

subsection \<open>The contract of a thread helper\<close>

text \<open>
  A signal of a condition variable is only used with one sleeper, and then wakes it; \<open>wake\<close>
  is the spurious wake-up, a step of the system.
\<close>

locale helper_contract =
  fixes H :: "'w thread_helper"
    and view :: "'w \<Rightarrow> sync"
    and wake :: "nat \<Rightarrow> tid \<Rightarrow> 'w \<Rightarrow> 'w"
  assumes mutex_create_keeps: "mutex_create H name w = (res, m, w') \<Longrightarrow> keeps (view w) (view w')"
    and mutex_create_fresh: "mutex_create H name w = (0, m, w') \<Longrightarrow>
      \<not> m_live (view w) m \<and> m_live (view w') m \<and> m_owner (view w') m = None"
    and mutex_destroy_keeps: "m_live (view w) m \<Longrightarrow> mutex_destroy H m w = (res, w') \<Longrightarrow>
      keeps ((view w)\<lparr>m_live := (m_live (view w))(m := False)\<rparr>) (view w')"
    and lock_blocks: "m_live (view w) m \<Longrightarrow> m_owner (view w) m \<noteq> None \<Longrightarrow> mutex_lock H t m w = None"
    and lock_takes: "m_live (view w) m \<Longrightarrow> m_owner (view w) m = None \<Longrightarrow>
      \<exists>w'. mutex_lock H t m w = Some (0, w') \<and> view w' = set_owner m (Some t) (view w)"
    and unlock_frees: "m_live (view w) m \<Longrightarrow> m_owner (view w) m = Some t \<Longrightarrow>
      \<exists>w'. mutex_unlock H t m w = (0, w') \<and> view w' = set_owner m None (view w)"
    and cond_create_keeps: "condition_var_create H name w = (res, c, w') \<Longrightarrow> keeps (view w) (view w')"
    and cond_create_fresh: "condition_var_create H name w = (0, c, w') \<Longrightarrow>
      \<not> c_live (view w) c \<and> c_live (view w') c \<and> (\<forall>t. \<not> c_asleep (view w') c t)"
    and cond_destroy_keeps: "c_live (view w) c \<Longrightarrow> condition_var_destroy H c w = (res, w') \<Longrightarrow>
      keeps ((view w)\<lparr>c_live := (c_live (view w))(c := False)\<rparr>) (view w')"
    and sleeps: "m_live (view w) m \<Longrightarrow> c_live (view w) c \<Longrightarrow> m_owner (view w) m = Some t \<Longrightarrow>
      view (condition_sleep H t c m w) = set_asleep c t True (set_owner m None (view w))"
    and resume_blocks: "m_live (view w) m \<Longrightarrow> c_live (view w) c \<Longrightarrow>
      c_asleep (view w) c t \<or> m_owner (view w) m \<noteq> None \<Longrightarrow> condition_resume H t c m w = None"
    and resumes: "m_live (view w) m \<Longrightarrow> c_live (view w) c \<Longrightarrow>
      \<not> c_asleep (view w) c t \<Longrightarrow> m_owner (view w) m = None \<Longrightarrow>
      \<exists>w'. condition_resume H t c m w = Some (0, w') \<and> view w' = set_owner m (Some t) (view w)"
    and signal_wakes: "c_live (view w) c \<Longrightarrow> (\<And>u. c_asleep (view w) c u \<Longrightarrow> u = t) \<Longrightarrow>
      \<exists>w'. condition_signal H c w = (0, w') \<and> view w' = set_asleep c t False (view w)"
    and wake_wakes: "c_live (view w) c \<Longrightarrow> view (wake c t w) = set_asleep c t False (view w)"
    and sem_create_keeps: "semaphore_create H name w = (res, h, w') \<Longrightarrow> keeps (view w) (view w')"
    and sem_create_fresh: "semaphore_create H name w = (0, h, w') \<Longrightarrow>
      \<not> s_live (view w) h \<and> s_live (view w') h \<and> s_count (view w') h = 0"
    and sem_destroy_keeps: "s_live (view w) h \<Longrightarrow> semaphore_destroy H h name w = (res, w') \<Longrightarrow>
      keeps ((view w)\<lparr>s_live := (s_live (view w))(h := False)\<rparr>) (view w')"
    and sem_wait_blocks: "s_live (view w) h \<Longrightarrow> s_count (view w) h = 0 \<Longrightarrow> semaphore_wait H h w = None"
    and sem_wait_takes: "s_live (view w) h \<Longrightarrow> 0 < s_count (view w) h \<Longrightarrow>
      \<exists>w'. semaphore_wait H h w = Some (0, w') \<and> view w' = set_count h (s_count (view w) h - 1) (view w)"
    and sem_signal_adds: "s_live (view w) h \<Longrightarrow>
      \<exists>w'. semaphore_signal H h w = (0, w') \<and> view w' = set_count h (s_count (view w) h + 1) (view w)"
begin

lemma sem_wait_cases:
  assumes "s_live (view w) h"
  shows "semaphore_wait H h w = None \<and> s_count (view w) h = 0 \<or>
    0 < s_count (view w) h \<and>
    (\<exists>w'. semaphore_wait H h w = Some (0, w') \<and> view w' = set_count h (s_count (view w) h - 1) (view w))"
  using sem_wait_blocks [OF assms] sem_wait_takes [OF assms] by (cases "s_count (view w) h = 0") auto

end

sublocale helper_contract \<subseteq> helper_sems: counting_semaphores
  "\<lambda>h w. snd (semaphore_signal H h w)" "\<lambda>h w. map_option snd (semaphore_wait H h w)"
  "\<lambda>w. s_count (view w)" "\<lambda>w. s_live (view w)"
proof unfold_locales
  fix w h g
  assume "s_live (view w) h"
  from sem_signal_adds [OF this]
  show "s_count (view (snd (semaphore_signal H h w))) g = (if g = h then s_count (view w) g + 1 else s_count (view w) g)"
    and "s_live (view (snd (semaphore_signal H h w))) = s_live (view w)" by auto
next
  fix w h
  assume "s_live (view w) h"
  from sem_wait_cases [OF this]
  show "map_option snd (semaphore_wait H h w) = None \<longleftrightarrow> s_count (view w) h = 0" by auto
next
  fix w h w' g
  assume "s_live (view w) h" and "map_option snd (semaphore_wait H h w) = Some w'"
  with sem_wait_cases [of w h]
  show "s_live (view w') = s_live (view w) \<and>
      s_count (view w') g = (if g = h then s_count (view w) g - 1 else s_count (view w) g)" by auto
qed

subsection \<open>BarrierWithTrigger, the object\<close>

record barrier_object =
  semaphores :: "nat \<times> nat"
  calling_mutex :: nat
  calling_cond :: nat
  obj_active_idx :: nat        \<comment> \<open>\<open>_active_sem_idx\<close>\<close>
  obj_on_barrier :: int        \<comment> \<open>\<open>_no_threads_currently_on_barrier\<close>\<close>
  obj_no_threads :: int        \<comment> \<open>\<open>_no_threads\<close>\<close>

text \<open>
  The constructor. A failure to create a semaphore ends it with \<open>std::runtime_error\<close>, here the
  number whose \<open>strerror\<close> it carries; the results of the last two calls are not looked at.
\<close>

definition barrier_ctor :: "'w thread_helper \<Rightarrow> 'w \<Rightarrow> (int + barrier_object) \<times> 'w" where
  "barrier_ctor H w =
     (case semaphore_create H ''/twine-barrier-sem-0'' w of
        (res, sem0, w0) \<Rightarrow>
          if res \<noteq> 0 then (Inl res, w0)
          else (case semaphore_create H ''/twine-barrier-sem-1'' w0 of
                  (res, sem1, w1) \<Rightarrow>
                    if res \<noteq> 0 then (Inl res, w1)
                    else (case mutex_create H ''/twine-barrier-mutex'' w1 of
                            (_, m, w2) \<Rightarrow>
                              (case condition_var_create H ''/twine-barrier-condvar'' w2 of
                                 (_, c, w3) \<Rightarrow>
                                   (Inr \<lparr>semaphores = (sem0, sem1), calling_mutex = m, calling_cond = c,
                                         obj_active_idx = 0, obj_on_barrier = 0, obj_no_threads = 0\<rparr>, w3)))))"

definition barrier_dtor :: "'w thread_helper \<Rightarrow> barrier_object \<Rightarrow> 'w \<Rightarrow> 'w" where
  "barrier_dtor H B w =
     (let w1 = snd (mutex_destroy H (calling_mutex B) w);
          w2 = snd (condition_var_destroy H (calling_cond B) w1);
          w3 = snd (semaphore_destroy H (fst (semaphores B)) ''/twine-barrier-sem-0'' w2)
      in snd (semaphore_destroy H (snd (semaphores B)) ''/twine-barrier-sem-1'' w3))"

text \<open>The two results that the constructor does not look at.\<close>

definition unread_results :: "'w thread_helper \<Rightarrow> 'w \<Rightarrow> int \<times> int" where
  "unread_results H w =
     (case semaphore_create H ''/twine-barrier-sem-0'' w of (_, _, w0) \<Rightarrow>
     (case semaphore_create H ''/twine-barrier-sem-1'' w0 of (_, _, w1) \<Rightarrow>
     (case mutex_create H ''/twine-barrier-mutex'' w1 of (res, _, w2) \<Rightarrow>
        (res, fst (condition_var_create H ''/twine-barrier-condvar'' w2)))))"

text \<open>A barrier that the constructor has made: its objects are new, distinct and idle.\<close>

definition fresh_barrier :: "sync \<Rightarrow> sync \<Rightarrow> barrier_object \<Rightarrow> bool" where
  "fresh_barrier v v' B \<longleftrightarrow>
     fst (semaphores B) \<noteq> snd (semaphores B) \<and>
     \<not> s_live v (fst (semaphores B)) \<and> \<not> s_live v (snd (semaphores B)) \<and>
     s_live v' (fst (semaphores B)) \<and> s_live v' (snd (semaphores B)) \<and>
     s_count v' (fst (semaphores B)) = 0 \<and> s_count v' (snd (semaphores B)) = 0 \<and>
     \<not> m_live v (calling_mutex B) \<and> m_live v' (calling_mutex B) \<and> m_owner v' (calling_mutex B) = None \<and>
     \<not> c_live v (calling_cond B) \<and> c_live v' (calling_cond B) \<and> (\<forall>t. \<not> c_asleep v' (calling_cond B) t) \<and>
     obj_active_idx B = 0 \<and> obj_on_barrier B = 0 \<and> obj_no_threads B = 0"

text \<open>A barrier whose objects are not among those that exist.\<close>

definition apart :: "sync \<Rightarrow> barrier_object \<Rightarrow> bool" where
  "apart v B \<longleftrightarrow> \<not> s_live v (fst (semaphores B)) \<and> \<not> s_live v (snd (semaphores B)) \<and>
     \<not> m_live v (calling_mutex B) \<and> \<not> c_live v (calling_cond B)"

lemma fresh_apart: "fresh_barrier v v' B \<Longrightarrow> apart v B"
  by (simp add: fresh_barrier_def apart_def)

text \<open>A barrier whose objects exist.\<close>

definition owns_objects :: "sync \<Rightarrow> barrier_object \<Rightarrow> bool" where
  "owns_objects v B \<longleftrightarrow> m_live v (calling_mutex B) \<and> c_live v (calling_cond B) \<and>
     s_live v (fst (semaphores B)) \<and> s_live v (snd (semaphores B)) \<and> fst (semaphores B) \<noteq> snd (semaphores B)"

lemma owns_objectsD:
  assumes "owns_objects v B"
  shows "m_live v (calling_mutex B)" "c_live v (calling_cond B)" "s_live v (fst (semaphores B))"
    "s_live v (snd (semaphores B))" "fst (semaphores B) \<noteq> snd (semaphores B)"
  using assms by (simp_all add: owns_objects_def)

lemma fresh_owns: "fresh_barrier v v' B \<Longrightarrow> owns_objects v' B"
  by (simp add: fresh_barrier_def owns_objects_def)

lemma apart_sets:
  "apart v0 B \<Longrightarrow> keeps v0 v \<Longrightarrow> keeps v0 (set_owner (calling_mutex B) t v)"
  "apart v0 B \<Longrightarrow> keeps v0 v \<Longrightarrow> keeps v0 (set_asleep (calling_cond B) u b v)"
  "apart v0 B \<Longrightarrow> keeps v0 v \<Longrightarrow> h = fst (semaphores B) \<or> h = snd (semaphores B) \<Longrightarrow> keeps v0 (set_count h n v)"
  by (auto simp: apart_def keeps_def)

context helper_contract begin

lemma barrier_ctor_keeps: "barrier_ctor H w = (r, w') \<Longrightarrow> keeps (view w) (view w')"
  by (auto simp: barrier_ctor_def split: prod.splits if_splits
      dest!: sem_create_keeps mutex_create_keeps cond_create_keeps intro: keeps_trans)

lemma barrier_ctor_fresh_objects:
  assumes c: "barrier_ctor H w = (Inr B, w')" and g: "unread_results H w = (0, 0)"
  shows "fresh_barrier (view w) (view w') B"
proof -
  obtain sem0 w0 where s0: "semaphore_create H ''/twine-barrier-sem-0'' w = (0, sem0, w0)"
    using c by (auto simp: barrier_ctor_def split: prod.splits if_splits)
  obtain sem1 w1 where s1: "semaphore_create H ''/twine-barrier-sem-1'' w0 = (0, sem1, w1)"
    using c s0 by (auto simp: barrier_ctor_def split: prod.splits if_splits)
  obtain m w2 where m: "mutex_create H ''/twine-barrier-mutex'' w1 = (0, m, w2)"
    using g s0 s1 by (auto simp: unread_results_def split: prod.splits)
  obtain cv w3 where cv: "condition_var_create H ''/twine-barrier-condvar'' w2 = (0, cv, w3)"
    using g s0 s1 m
    by (cases "condition_var_create H ''/twine-barrier-condvar'' w2") (auto simp: unread_results_def)
  have B: "B = \<lparr>semaphores = (sem0, sem1), calling_mutex = m, calling_cond = cv,
      obj_active_idx = 0, obj_on_barrier = 0, obj_no_threads = 0\<rparr>" and w: "w' = w3"
    using c s0 s1 m cv by (simp_all add: barrier_ctor_def)
  note k = sem_create_keeps [OF s0] sem_create_keeps [OF s1] mutex_create_keeps [OF m] cond_create_keeps [OF cv]
  note f = sem_create_fresh [OF s0] sem_create_fresh [OF s1] mutex_create_fresh [OF m] cond_create_fresh [OF cv]
  have "\<not> m_live (view w) m" "\<not> c_live (view w) cv" "\<not> s_live (view w) sem1" "sem0 \<noteq> sem1"
    using k f unfolding keeps_def by blast+
  moreover have "s_live (view w3) sem0 \<and> s_count (view w3) sem0 = 0"
    using k f unfolding keeps_def by metis
  moreover have "s_live (view w3) sem1 \<and> s_count (view w3) sem1 = 0"
    using k f unfolding keeps_def by metis
  moreover have "m_live (view w3) m \<and> m_owner (view w3) m = None"
    using k f unfolding keeps_def by metis
  ultimately show ?thesis using f by (simp add: fresh_barrier_def B w)
qed

lemma barrier_dtor_keeps:
  assumes o: "owns_objects (view w) B" and k: "apart v0 B" "keeps v0 (view w)"
  shows "keeps v0 (view (barrier_dtor H B w))"
proof -
  obtain r1 w1 where d1: "mutex_destroy H (calling_mutex B) w = (r1, w1)" by fastforce
  obtain r2 w2 where d2: "condition_var_destroy H (calling_cond B) w1 = (r2, w2)" by fastforce
  obtain r3 w3 where d3: "semaphore_destroy H (fst (semaphores B)) ''/twine-barrier-sem-0'' w2 = (r3, w3)" by fastforce
  obtain r4 w4 where d4: "semaphore_destroy H (snd (semaphores B)) ''/twine-barrier-sem-1'' w3 = (r4, w4)" by fastforce
  note live = owns_objectsD [OF o]
  note k1 = mutex_destroy_keeps [OF live(1) d1, unfolded keeps_def]
  have l1: "c_live (view w1) (calling_cond B)" using k1 live(2) by simp
  note k2 = cond_destroy_keeps [OF l1 d2, unfolded keeps_def]
  have l2: "s_live (view w2) (fst (semaphores B))" using k1 k2 live(3) by simp
  note k3 = sem_destroy_keeps [OF l2 d3, unfolded keeps_def]
  have l3: "s_live (view w3) (snd (semaphores B))" using k1 k2 k3 live(4,5) by simp
  note k4 = sem_destroy_keeps [OF l3 d4, unfolded keeps_def]
  have "keeps v0 (view w1)" using k1 k unfolding keeps_def apart_def by (auto split: if_splits)
  then have "keeps v0 (view w2)" using k2 k(1) unfolding keeps_def apart_def by (auto split: if_splits)
  then have "keeps v0 (view w3)" using k3 k(1) unfolding keeps_def apart_def by (auto split: if_splits)
  then have "keeps v0 (view w4)" using k4 k(1) unfolding keeps_def apart_def by (auto split: if_splits)
  then show ?thesis using d1 d2 d3 d4 by (simp add: barrier_dtor_def)
qed

text \<open>A barrier that has been made and destroyed leaves everything else as it was.\<close>

lemma barrier_lifetime_keeps:
  assumes c: "barrier_ctor H w = (Inr B, w')" and g: "unread_results H w = (0, 0)"
  shows "keeps (view w) (view (barrier_dtor H B w'))"
proof -
  note f = barrier_ctor_fresh_objects [OF assms]
  show ?thesis by (rule barrier_dtor_keeps [OF fresh_owns [OF f] fresh_apart [OF f] barrier_ctor_keeps [OF c]])
qed

end

subsection \<open>Threads\<close>

text \<open>
  What the users of threads rely on: a new thread has a handle that is not 0 and that no other
  thread has, a join waits for the end of the thread and removes it, and no other function of the
  helper makes, ends or removes a thread. \<open>finish\<close> is the return of the thread's function.
\<close>

locale thread_contract = helper_contract +
  fixes tstate :: "'a \<Rightarrow> nat \<Rightarrow> thread_state"
    and finish :: "nat \<Rightarrow> 'a \<Rightarrow> 'a"
  assumes thread_starts: "thread_create H attr data w = (0, h, w') \<Longrightarrow>
      h \<noteq> 0 \<and> tstate w h = NoThread \<and> tstate w' = (tstate w)(h := Running) \<and> view w' = view w"
    and thread_refused: "thread_create H attr data w = (res, h, w') \<Longrightarrow> res \<noteq> 0 \<Longrightarrow>
      tstate w' = tstate w \<and> view w' = view w"
    and join_waits: "tstate w h = Running \<Longrightarrow> thread_join H h w = None"
    and join_removes: "tstate w h = Ended \<Longrightarrow>
      \<exists>w'. thread_join H h w = Some (0, w') \<and> tstate w' = (tstate w)(h := NoThread) \<and> view w' = view w"
    and finishes: "tstate w h = Running \<Longrightarrow>
      tstate (finish h w) = (tstate w)(h := Ended) \<and> view (finish h w) = view w"
    and lock_threads: "mutex_lock H t m w = Some (res, w') \<Longrightarrow> tstate w' = tstate w"
    and unlock_threads: "tstate (snd (mutex_unlock H t m w)) = tstate w"
    and sleep_threads: "tstate (condition_sleep H t c m w) = tstate w"
    and resume_threads: "condition_resume H t c m w = Some (res, w') \<Longrightarrow> tstate w' = tstate w"
    and signal_threads: "tstate (snd (condition_signal H c w)) = tstate w"
    and wake_threads: "tstate (wake c t w) = tstate w"
    and sem_wait_threads: "semaphore_wait H h w = Some (res, w') \<Longrightarrow> tstate w' = tstate w"
    and sem_signal_threads: "tstate (snd (semaphore_signal H h w)) = tstate w"
    and create_threads: "mutex_create H name w = (res, x, w') \<or> condition_var_create H name w = (res, x, w')
      \<or> semaphore_create H name w = (res, x, w') \<Longrightarrow> tstate w' = tstate w"
    and destroy_threads: "mutex_destroy H x w = (res, w') \<or> condition_var_destroy H x w = (res, w')
      \<or> semaphore_destroy H x name w = (res, w') \<Longrightarrow> tstate w' = tstate w"
begin

lemma barrier_ctor_threads: "barrier_ctor H w = (r, w') \<Longrightarrow> tstate w' = tstate w"
  using create_threads by (auto simp: barrier_ctor_def split: prod.splits if_splits) metis+

lemma barrier_dtor_threads: "tstate (barrier_dtor H B w) = tstate w"
  using destroy_threads unfolding barrier_dtor_def Let_def by (metis prod.collapse)

end

end
