(* ===== verification/Helper_Barrier.thy ===== *)
theory Helper_Barrier
  imports Helper_Contract
begin

text \<open>
  The methods of \<open>BarrierWithTrigger\<close> as they are written: calls of the thread helper and
  accesses of the object's own fields. The theory \<open>Barrier\<close> has the same methods over a state in which
  the mutex, the condition variable and the semaphores are fields; here that state is
  derived from the object and the world of the helper (\<open>barrier_of\<close>), and every step of the
  code is shown to be a step of the barrier, for every helper that meets the contract.
\<close>

subsection \<open>The code over the interface\<close>

definition sem_at :: "barrier_object \<Rightarrow> nat \<Rightarrow> nat" where
  "sem_at B k = (if k = 0 then fst (semaphores B) else snd (semaphores B))"

fun wait_code ::
  "'w thread_helper \<Rightarrow> nat \<Rightarrow> wait_pc \<Rightarrow> barrier_object \<Rightarrow> 'w \<Rightarrow> (wait_pc \<times> barrier_object \<times> 'w) option" where
  "wait_code H i WtLock B w =
     (case mutex_lock H (Worker i) (calling_mutex B) w of None \<Rightarrow> None | Some (_, w') \<Rightarrow> Some (WtReadSem, B, w'))"
| "wait_code H i WtReadSem B w = Some (WtInc (obj_active_idx B), B, w)"
| "wait_code H i (WtInc k) B w =
     (let n = obj_on_barrier B + 1; B' = B\<lparr>obj_on_barrier := n\<rparr>
      in if n \<ge> obj_no_threads B' then Some (WtSignal k, B', w) else Some (WtUnlock k, B', w))"
| "wait_code H i (WtSignal k) B w = Some (WtUnlock k, B, snd (condition_signal H (calling_cond B) w))"
| "wait_code H i (WtUnlock k) B w = Some (WtSemWait k, B, snd (mutex_unlock H (Worker i) (calling_mutex B) w))"
| "wait_code H i (WtSemWait k) B w =
     (case semaphore_wait H (sem_at B k) w of None \<Rightarrow> None | Some (_, w') \<Rightarrow> Some (WtRet, B, w'))"
| "wait_code H i WtRet B w = None"

fun call_code ::
  "'w thread_helper \<Rightarrow> call_pc \<Rightarrow> barrier_object \<Rightarrow> 'w \<Rightarrow> (call_pc \<times> barrier_object \<times> 'w) option" where
  "call_code H (CLock c) B w =
     (case mutex_lock H Caller (calling_mutex B) w of None \<Rightarrow> None | Some (_, w') \<Rightarrow> Some (call_body c, B, w'))"
| "call_code H CFetch B w = Some (CCompare (obj_on_barrier B), B, w)"
| "call_code H (CCompare cur) B w =
     (if cur = obj_no_threads B then Some (CUnlock, B, w) else Some (CWhile cur, B, w))"
| "call_code H (CWhile cur) B w =
     (if cur < obj_no_threads B then Some (CCondWait, B, w) else Some (CUnlock, B, w))"
| "call_code H CCondWait B w = Some (CWake, B, condition_sleep H Caller (calling_cond B) (calling_mutex B) w)"
| "call_code H CWake B w =
     (case condition_resume H Caller (calling_cond B) (calling_mutex B) w of
        None \<Rightarrow> None | Some (_, w') \<Rightarrow> Some (CReload, B, w'))"
| "call_code H CReload B w = Some (CWhile (obj_on_barrier B), B, w)"
| "call_code H (CSet k) B w = Some (CUnlock, B\<lparr>obj_no_threads := k\<rparr>, w)"
| "call_code H (CAssert r) B w =
     (if obj_on_barrier B = obj_no_threads B then Some (CReset r, B, w) else Some (CAbort, B, w))"
| "call_code H (CReset r) B w = Some (CPrev r, B\<lparr>obj_on_barrier := 0\<rparr>, w)"
| "call_code H (CPrev r) B w = Some (CSwap r (obj_active_idx B), B, w)"
| "call_code H (CSwap r k) B w = Some (CFor r k 0, B\<lparr>obj_active_idx := 1 - obj_active_idx B\<rparr>, w)"
| "call_code H (CFor r k i) B w =
     (if i < obj_no_threads B then Some (CFor r k (i + 1), B, snd (semaphore_signal H (sem_at B k) w))
      else if r then Some (CReload, B, w) else Some (CUnlock, B, w))"
| "call_code H CUnlock B w = Some (CRet, B, snd (mutex_unlock H Caller (calling_mutex B) w))"
| "call_code H CRet B w = None"
| "call_code H CAbort B w = None"

subsection \<open>The state of the barrier behind an object\<close>

definition barrier_of :: "sync \<Rightarrow> barrier_object \<Rightarrow> barrier" where
  "barrier_of v B =
     \<lparr>owner = m_owner v (calling_mutex B), cv_blocked = c_asleep v (calling_cond B) Caller,
      sems = (\<lambda>k. if k < 2 then s_count v (sem_at B k) else 0), active_sem_idx = obj_active_idx B,
      no_on_barrier = obj_on_barrier B, no_threads = obj_no_threads B\<rparr>"

definition objs_ok :: "sync \<Rightarrow> barrier_object \<Rightarrow> bool" where
  "objs_ok v B \<longleftrightarrow>
     fst (semaphores B) \<noteq> snd (semaphores B) \<and> s_live v (fst (semaphores B)) \<and> s_live v (snd (semaphores B)) \<and>
     m_live v (calling_mutex B) \<and> c_live v (calling_cond B) \<and>
     (\<forall>t. c_asleep v (calling_cond B) t \<longrightarrow> t = Caller)"

lemma fresh_barrier_ok:
  assumes "fresh_barrier v v' B"
  shows "objs_ok v' B" and "barrier_of v' B = new_barrier"
  using assms by (auto simp: fresh_barrier_def objs_ok_def barrier_of_def new_barrier_def sem_at_def)

lemma sem_at_live: "objs_ok v B \<Longrightarrow> s_live v (sem_at B k)"
  by (simp add: objs_ok_def sem_at_def)

lemma sem_at_inject: "objs_ok v B \<Longrightarrow> j < 2 \<Longrightarrow> k < 2 \<Longrightarrow> sem_at B j = sem_at B k \<longleftrightarrow> j = k"
  by (auto simp: objs_ok_def sem_at_def)

lemma barrier_of_simps [simp]:
  "owner (barrier_of v B) = m_owner v (calling_mutex B)"
  "cv_blocked (barrier_of v B) = c_asleep v (calling_cond B) Caller"
  "k < 2 \<Longrightarrow> sems (barrier_of v B) k = s_count v (sem_at B k)"
  "active_sem_idx (barrier_of v B) = obj_active_idx B"
  "no_on_barrier (barrier_of v B) = obj_on_barrier B"
  "no_threads (barrier_of v B) = obj_no_threads B"
  by (simp_all add: barrier_of_def)

text \<open>Every change of the object or of the world, seen in the barrier's state.\<close>

lemma barrier_of_fields:
  "barrier_of v (B\<lparr>obj_on_barrier := n\<rparr>) = (barrier_of v B)\<lparr>no_on_barrier := n\<rparr>"
  "barrier_of v (B\<lparr>obj_no_threads := m\<rparr>) = (barrier_of v B)\<lparr>no_threads := m\<rparr>"
  "barrier_of v (B\<lparr>obj_active_idx := a\<rparr>) = (barrier_of v B)\<lparr>active_sem_idx := a\<rparr>"
  by (simp_all add: barrier_of_def sem_at_def fun_eq_iff)

lemma barrier_of_owner: "barrier_of (set_owner (calling_mutex B) t v) B = (barrier_of v B)\<lparr>owner := t\<rparr>"
  by (simp add: barrier_of_def fun_eq_iff)

lemma barrier_of_asleep: "barrier_of (set_asleep (calling_cond B) Caller b v) B = (barrier_of v B)\<lparr>cv_blocked := b\<rparr>"
  by (simp add: barrier_of_def fun_eq_iff)

lemma barrier_of_count:
  "objs_ok v B \<Longrightarrow> k < 2 \<Longrightarrow>
   barrier_of (set_count (sem_at B k) n v) B = (barrier_of v B)\<lparr>sems := (sems (barrier_of v B))(k := n)\<rparr>"
  by (auto simp: barrier_of_def fun_eq_iff sem_at_inject)

lemma objs_ok_fields [simp]:
  "objs_ok v (B\<lparr>obj_on_barrier := n\<rparr>) = objs_ok v B" "objs_ok v (B\<lparr>obj_no_threads := m\<rparr>) = objs_ok v B"
  "objs_ok v (B\<lparr>obj_active_idx := a\<rparr>) = objs_ok v B" "objs_ok (set_owner mu t v) B = objs_ok v B"
  "objs_ok (set_count h c v) B = objs_ok v B"
  "objs_ok v B \<Longrightarrow> objs_ok (set_asleep (calling_cond B) Caller b v) B"
  by (auto simp: objs_ok_def)

subsection \<open>One step of the code is one step of the barrier\<close>

fun index_ok :: "wait_pc \<Rightarrow> bool" where
  "index_ok (WtSemWait k) = (k < 2)"
| "index_ok _ = True"

fun call_index_ok :: "call_pc \<Rightarrow> bool" where
  "call_index_ok (CFor r k i) = (k < 2)"
| "call_index_ok _ = True"

context helper_contract begin

lemma wait_code_sim:
  assumes ok: "objs_ok (view w) B" and pc: "index_ok pc"
    and own: "crit (Some pc) \<Longrightarrow> m_owner (view w) (calling_mutex B) = Some (Worker i)"
  shows "case wait_code H i pc B w of
      None \<Rightarrow> wait_step i pc (barrier_of (view w) B) = None
    | Some (pc', B', w') \<Rightarrow>
        wait_step i pc (barrier_of (view w) B) = Some (pc', barrier_of (view w') B') \<and> objs_ok (view w') B'"
proof (cases pc)
  case WtLock
  then show ?thesis
    using lock_takes [of w "calling_mutex B" "Worker i"] lock_blocks [of w "calling_mutex B" "Worker i"] ok
    by (cases "m_owner (view w) (calling_mutex B)") (auto simp: objs_ok_def barrier_of_owner)
next
  case (WtSignal k)
  have "\<exists>w'. condition_signal H (calling_cond B) w = (0, w') \<and> view w' = set_asleep (calling_cond B) Caller False (view w)"
    by (rule signal_wakes) (use ok in \<open>auto simp: objs_ok_def\<close>)
  then show ?thesis using WtSignal ok by (auto simp: barrier_of_asleep)
next
  case (WtUnlock k)
  then show ?thesis
    using unlock_frees [of w "calling_mutex B" "Worker i"] own ok by (auto simp: objs_ok_def barrier_of_owner)
next
  case (WtSemWait k)
  have k: "k < 2" using pc WtSemWait by simp
  show ?thesis
    using sem_wait_cases [OF sem_at_live [OF ok, of k]] WtSemWait k ok by (auto simp: barrier_of_count)
qed (use ok in \<open>auto simp: Let_def barrier_of_fields\<close>)

lemma call_code_sim:
  assumes ok: "objs_ok (view w) B" and pc: "call_index_ok pc"
    and own: "call_crit (Some pc) \<Longrightarrow> m_owner (view w) (calling_mutex B) = Some Caller"
  shows "case call_code H pc B w of
      None \<Rightarrow> call_step pc (barrier_of (view w) B) = None
    | Some (pc', B', w') \<Rightarrow>
        call_step pc (barrier_of (view w) B) = Some (pc', barrier_of (view w') B') \<and> objs_ok (view w') B'"
proof (cases pc)
  case (CLock c)
  then show ?thesis
    using lock_takes [of w "calling_mutex B" Caller] lock_blocks [of w "calling_mutex B" Caller] ok
    by (cases "m_owner (view w) (calling_mutex B)") (auto simp: objs_ok_def barrier_of_owner)
next
  case CCondWait
  then show ?thesis
    using sleeps [of w "calling_mutex B" "calling_cond B" Caller] own ok
    by (auto simp: objs_ok_def barrier_of_asleep barrier_of_owner)
next
  case CWake
  have l: "m_live (view w) (calling_mutex B)" "c_live (view w) (calling_cond B)" using ok by (auto simp: objs_ok_def)
  show ?thesis
    using CWake resume_blocks [OF l, of Caller] resumes [OF l, of Caller] ok
    by (cases "c_asleep (view w) (calling_cond B) Caller \<or> m_owner (view w) (calling_mutex B) \<noteq> None")
      (auto simp: barrier_of_owner)
next
  case (CFor r k i)
  have k: "k < 2" using pc CFor by simp
  show ?thesis
    using sem_signal_adds [OF sem_at_live [OF ok, of k]] CFor k ok by (auto simp: barrier_of_count sem_signal_def)
next
  case CUnlock
  then show ?thesis
    using unlock_frees [of w "calling_mutex B" Caller] own ok by (auto simp: objs_ok_def barrier_of_owner)
qed (use ok in \<open>auto simp: barrier_of_fields swap_semaphores_def\<close>)

end

end
