(* ===== verification/Helper_Objects.thy ===== *)
theory Helper_Objects
  imports Helper_Barrier Twine_Types
begin

text \<open>
  The C++ objects between a user of a thread helper and the thread library: \<open>PosixMutex\<close>,
  \<open>CobaltSemaphore\<close> and the others of \<open>src/src/thread_helpers.h\<close>, which are made with \<open>new\<close>, are
  passed as pointers to their base classes \<open>BaseMutex\<close>, \<open>BaseCondVar\<close>, \<open>BaseSemaphore\<close>, and are
  cast back by the functions of the helper (\<open>to_posix_mutex\<close>, \<open>to_cobalt_sem\<close>, \<open>to_evl_sem\<close>). The objects
  live on a heap; a cast to another class than that of the object, a use of a deleted object or
  of one that was never created is undefined.

  The functions of a helper on pointers are again a helper, over a world with a heap, and it is
  shown to meet the contract of helpers if the one below does.
\<close>

subsection \<open>Objects and casts\<close>

text \<open>
  An object of the library has the field that the class declares, a handle in the model:
  \<open>None\<close> before it was created and after its creation failed.
\<close>

datatype base_object =
  PosixMutex "nat option" | PosixCondVar "nat option" | PosixSemaphore "nat option"
| CobaltSemaphore "nat option"
| EvlMutex "nat option" | EvlCondVar "nat option" | EvlSemaphore "nat option"
| HelperObject thread_type

text \<open>A cast: what the field of the object holds, if the object has the class.\<close>

type_synonym obj_cast = "base_object \<Rightarrow> nat option option"

fun to_posix_mutex :: obj_cast where
  "to_posix_mutex (PosixMutex x) = Some x"
| "to_posix_mutex _ = None"

fun to_posix_cond :: obj_cast where
  "to_posix_cond (PosixCondVar x) = Some x"
| "to_posix_cond _ = None"

fun to_posix_sem :: obj_cast where
  "to_posix_sem (PosixSemaphore x) = Some x"
| "to_posix_sem _ = None"

fun to_cobalt_sem :: obj_cast where
  "to_cobalt_sem (CobaltSemaphore x) = Some x"
| "to_cobalt_sem _ = None"

fun to_evl_mutex :: obj_cast where
  "to_evl_mutex (EvlMutex x) = Some x"
| "to_evl_mutex _ = None"

fun to_evl_cond :: obj_cast where
  "to_evl_cond (EvlCondVar x) = Some x"
| "to_evl_cond _ = None"

fun to_evl_sem :: obj_cast where
  "to_evl_sem (EvlSemaphore x) = Some x"
| "to_evl_sem _ = None"

text \<open>The casts in the functions of the three classes of helpers.\<close>

fun mutex_cast :: "thread_type \<Rightarrow> obj_cast" where
  "mutex_cast PTHREAD = to_posix_mutex"
| "mutex_cast COBALT = to_posix_mutex"
| "mutex_cast EVL = to_evl_mutex"

fun cond_cast :: "thread_type \<Rightarrow> obj_cast" where
  "cond_cast PTHREAD = to_posix_cond"
| "cond_cast COBALT = to_posix_cond"
| "cond_cast EVL = to_evl_cond"

fun sem_cast :: "thread_type \<Rightarrow> obj_cast" where
  "sem_cast PTHREAD = to_posix_sem"
| "sem_cast COBALT = to_cobalt_sem"
| "sem_cast EVL = to_evl_sem"

text \<open>The classes that the constructor of the barrier makes with \<open>new\<close> for its thread type.\<close>

fun new_mutex_class :: "thread_type \<Rightarrow> nat option \<Rightarrow> base_object" where
  "new_mutex_class PTHREAD = PosixMutex"
| "new_mutex_class COBALT = PosixMutex"
| "new_mutex_class EVL = EvlMutex"

fun new_cond_class :: "thread_type \<Rightarrow> nat option \<Rightarrow> base_object" where
  "new_cond_class PTHREAD = PosixCondVar"
| "new_cond_class COBALT = PosixCondVar"
| "new_cond_class EVL = EvlCondVar"

fun new_sem_class :: "thread_type \<Rightarrow> nat option \<Rightarrow> base_object" where
  "new_sem_class PTHREAD = PosixSemaphore"
| "new_sem_class COBALT = CobaltSemaphore"
| "new_sem_class EVL = EvlSemaphore"

text \<open>The class made and the class cast to agree, and the casts of one helper exclude each other.\<close>

lemma classes [simp]:
  "mutex_cast type (new_mutex_class type x) = Some x" "cond_cast type (new_mutex_class type x) = None"
  "sem_cast type (new_mutex_class type x) = None"
  "mutex_cast type (new_cond_class type x) = None" "cond_cast type (new_cond_class type x) = Some x"
  "sem_cast type (new_cond_class type x) = None"
  "mutex_cast type (new_sem_class type x) = None" "cond_cast type (new_sem_class type x) = None"
  "sem_cast type (new_sem_class type x) = Some x"
  "mutex_cast type (HelperObject t) = None" "cond_cast type (HelperObject t) = None"
  "sem_cast type (HelperObject t) = None"
  by (cases type; simp)+

lemma casts_exclusive:
  "mutex_cast type ob \<noteq> None \<Longrightarrow> cond_cast type ob = None \<and> sem_cast type ob = None"
  "cond_cast type ob \<noteq> None \<Longrightarrow> mutex_cast type ob = None \<and> sem_cast type ob = None"
  "sem_cast type ob \<noteq> None \<Longrightarrow> mutex_cast type ob = None \<and> cond_cast type ob = None"
  by (cases type; cases ob; simp)+

subsection \<open>The heap\<close>

text \<open>
  An address is an index; a deleted object leaves \<open>None\<close>. \<open>fault\<close> is the first undefined
  behaviour of the execution, after which nothing more is known of it.
\<close>

type_synonym cells = "base_object option list"

record 'w machine =
  heap :: cells
  below :: 'w
  fault :: "ub option"

definition fails :: "ub \<Rightarrow> 'w machine \<Rightarrow> 'w machine" where
  "fails u m = (if fault m = None then m\<lparr>fault := Some u\<rparr> else m)"

definition field_at :: "obj_cast \<Rightarrow> cells \<Rightarrow> nat \<Rightarrow> ub + nat" where
  "field_at cast cs p =
     (if p < length cs
      then (case cs ! p of
              None \<Rightarrow> Inl InvalidPointer
            | Some ob \<Rightarrow>
                (case cast ob of
                   None \<Rightarrow> Inl InvalidCast
                 | Some None \<Rightarrow> Inl Uninitialised
                 | Some (Some x) \<Rightarrow> Inr x))
      else Inl InvalidPointer)"

definition new_object :: "base_object \<Rightarrow> 'w machine \<Rightarrow> nat \<times> 'w machine" where
  "new_object ob m = (length (heap m), m\<lparr>heap := heap m @ [Some ob]\<rparr>)"

definition delete_object :: "nat \<Rightarrow> 'w machine \<Rightarrow> 'w machine" where
  "delete_object p m =
     (if p < length (heap m) \<and> heap m ! p \<noteq> None then m\<lparr>heap := (heap m)[p := None]\<rparr> else fails InvalidPointer m)"

subsection \<open>The functions of a helper on pointers\<close>

text \<open>
  Creation through a pointer: the object must have the class; the library writes its field, if it
  succeeds.
\<close>

definition create_at ::
    "obj_cast \<Rightarrow> (nat option \<Rightarrow> base_object) \<Rightarrow> ('w \<Rightarrow> int \<times> nat \<times> 'w) \<Rightarrow> nat \<Rightarrow> 'w machine \<Rightarrow> int \<times> 'w machine" where
  "create_at cast mk f p m =
     (case (if p < length (heap m) then heap m ! p else None) of
        None \<Rightarrow> (0, fails InvalidPointer m)
      | Some ob \<Rightarrow>
          if cast ob = None then (0, fails InvalidCast m)
          else (case f (below m) of
                  (res, x, w) \<Rightarrow>
                    (res, m\<lparr>heap := (heap m)[p := Some (mk (if res = 0 then Some x else None))], below := w\<rparr>)))"

text \<open>A call with an object that was created, one that may block, and one that destroys it.\<close>

definition call_at :: "obj_cast \<Rightarrow> (nat \<Rightarrow> 'w \<Rightarrow> int \<times> 'w) \<Rightarrow> nat \<Rightarrow> 'w machine \<Rightarrow> int \<times> 'w machine" where
  "call_at cast f p m =
     (case field_at cast (heap m) p of
        Inl u \<Rightarrow> (0, fails u m)
      | Inr x \<Rightarrow> (case f x (below m) of (res, w) \<Rightarrow> (res, m\<lparr>below := w\<rparr>)))"

definition block_at ::
    "obj_cast \<Rightarrow> (nat \<Rightarrow> 'w \<Rightarrow> (int \<times> 'w) option) \<Rightarrow> nat \<Rightarrow> 'w machine \<Rightarrow> (int \<times> 'w machine) option" where
  "block_at cast f p m =
     (case field_at cast (heap m) p of
        Inl u \<Rightarrow> Some (0, fails u m)
      | Inr x \<Rightarrow> map_option (\<lambda>(res, w). (res, m\<lparr>below := w\<rparr>)) (f x (below m)))"

text \<open>
  \<open>condition_wait\<close> casts both of its pointers.
\<close>

definition sleep_at ::
    "obj_cast \<Rightarrow> obj_cast \<Rightarrow> (nat \<Rightarrow> nat \<Rightarrow> 'w \<Rightarrow> 'w) \<Rightarrow> nat \<Rightarrow> nat \<Rightarrow> 'w machine \<Rightarrow> 'w machine" where
  "sleep_at ccast mcast f c p m =
     (case (field_at ccast (heap m) c, field_at mcast (heap m) p) of
        (Inr x, Inr y) \<Rightarrow> m\<lparr>below := f x y (below m)\<rparr>
      | (Inl u, _) \<Rightarrow> fails u m
      | (_, Inl u) \<Rightarrow> fails u m)"

definition resume_at ::
    "obj_cast \<Rightarrow> obj_cast \<Rightarrow> (nat \<Rightarrow> nat \<Rightarrow> 'w \<Rightarrow> (int \<times> 'w) option) \<Rightarrow> nat \<Rightarrow> nat \<Rightarrow> 'w machine \<Rightarrow>
     (int \<times> 'w machine) option" where
  "resume_at ccast mcast f c p m =
     (case (field_at ccast (heap m) c, field_at mcast (heap m) p) of
        (Inr x, Inr y) \<Rightarrow> map_option (\<lambda>(res, w). (res, m\<lparr>below := w\<rparr>)) (f x y (below m))
      | (Inl u, _) \<Rightarrow> Some (0, fails u m)
      | (_, Inl u) \<Rightarrow> Some (0, fails u m))"

text \<open>
  \<open>new\<close> and then the creating function; the destroying function and then \<open>delete\<close>, unless the pointer
  was invalid. These two pairs are what the users of the helper do, see \<open>Object_Lifetime\<close> for
  the order in which the barrier does it.
\<close>

definition make_object ::
    "obj_cast \<Rightarrow> (nat option \<Rightarrow> base_object) \<Rightarrow> ('w \<Rightarrow> int \<times> nat \<times> 'w) \<Rightarrow> 'w machine \<Rightarrow> int \<times> nat \<times> 'w machine" where
  "make_object cast mk f m =
     (let (p, m1) = new_object (mk None) m; (res, m2) = create_at cast mk f p m1 in (res, p, m2))"

definition unmake_object :: "obj_cast \<Rightarrow> (nat \<Rightarrow> 'w \<Rightarrow> int \<times> 'w) \<Rightarrow> nat \<Rightarrow> 'w machine \<Rightarrow> int \<times> 'w machine" where
  "unmake_object cast f p m =
     (case field_at cast (heap m) p of
        Inl u \<Rightarrow> (0, fails u m)
      | Inr x \<Rightarrow> (let (res, m1) = call_at cast f p m in (res, delete_object p m1)))"

definition thread_below :: "('w \<Rightarrow> int \<times> nat \<times> 'w) \<Rightarrow> 'w machine \<Rightarrow> int \<times> nat \<times> 'w machine" where
  "thread_below f m = (case f (below m) of (res, h, w) \<Rightarrow> (res, h, m\<lparr>below := w\<rparr>))"

definition object_helper :: "thread_type \<Rightarrow> 'w thread_helper \<Rightarrow> 'w machine thread_helper" where
  "object_helper type H =
     \<lparr>mutex_create = (\<lambda>name. make_object (mutex_cast type) (new_mutex_class type) (mutex_create H name)),
      mutex_destroy = unmake_object (mutex_cast type) (mutex_destroy H),
      mutex_lock = (\<lambda>t. block_at (mutex_cast type) (mutex_lock H t)),
      mutex_unlock = (\<lambda>t. call_at (mutex_cast type) (mutex_unlock H t)),
      condition_var_create = (\<lambda>name. make_object (cond_cast type) (new_cond_class type) (condition_var_create H name)),
      condition_var_destroy = unmake_object (cond_cast type) (condition_var_destroy H),
      condition_sleep = (\<lambda>t. sleep_at (cond_cast type) (mutex_cast type) (condition_sleep H t)),
      condition_resume = (\<lambda>t. resume_at (cond_cast type) (mutex_cast type) (condition_resume H t)),
      condition_signal = call_at (cond_cast type) (condition_signal H),
      thread_create = (\<lambda>attr data. thread_below (thread_create H attr data)),
      thread_join = (\<lambda>h m. map_option (\<lambda>(res, w). (res, m\<lparr>below := w\<rparr>)) (thread_join H h (below m))),
      semaphore_create = (\<lambda>name. make_object (sem_cast type) (new_sem_class type) (semaphore_create H name)),
      semaphore_destroy = (\<lambda>p name. unmake_object (sem_cast type) (\<lambda>x. semaphore_destroy H x name) p),
      semaphore_wait = block_at (sem_cast type) (semaphore_wait H),
      semaphore_signal = call_at (sem_cast type) (semaphore_signal H)\<rparr>"

text \<open>The spurious wake-up of a thread that sleeps, and the end of a thread, in the world below.\<close>

definition object_wake :: "thread_type \<Rightarrow> (nat \<Rightarrow> tid \<Rightarrow> 'w \<Rightarrow> 'w) \<Rightarrow> nat \<Rightarrow> tid \<Rightarrow> 'w machine \<Rightarrow> 'w machine" where
  "object_wake type wake p t m =
     (case field_at (cond_cast type) (heap m) p of Inl _ \<Rightarrow> m | Inr x \<Rightarrow> m\<lparr>below := wake x t (below m)\<rparr>)"

definition object_finish :: "(nat \<Rightarrow> 'w \<Rightarrow> 'w) \<Rightarrow> nat \<Rightarrow> 'w machine \<Rightarrow> 'w machine" where
  "object_finish finish h m = m\<lparr>below := finish h (below m)\<rparr>"

subsection \<open>The objects as their users see them\<close>

text \<open>
  A property \<open>f\<close> of handles, seen through the pointers of a cast: \<open>d\<close> for a pointer that leads to no
  living object of the library. Of several objects with the same handle only the last counts: the
  others hold a handle that the library has given out again.
\<close>

definition through :: "obj_cast \<Rightarrow> cells \<Rightarrow> (nat \<Rightarrow> bool) \<Rightarrow> 'a \<Rightarrow> (nat \<Rightarrow> 'a) \<Rightarrow> nat \<Rightarrow> 'a" where
  "through cast cs live d f p =
     (case field_at cast cs p of
        Inl _ \<Rightarrow> d
      | Inr x \<Rightarrow> (if live x \<and> (\<forall>q. p < q \<longrightarrow> field_at cast cs q \<noteq> Inr x) then f x else d))"

abbreviation leads :: "obj_cast \<Rightarrow> cells \<Rightarrow> (nat \<Rightarrow> bool) \<Rightarrow> nat \<Rightarrow> bool" where
  "leads cast cs live \<equiv> through cast cs live False (\<lambda>_. True)"

definition object_view :: "thread_type \<Rightarrow> ('w \<Rightarrow> sync) \<Rightarrow> 'w machine \<Rightarrow> sync" where
  "object_view type view m =
     (let v = view (below m); cs = heap m
      in \<lparr>m_live = leads (mutex_cast type) cs (m_live v),
          m_owner = through (mutex_cast type) cs (m_live v) None (m_owner v),
          c_live = leads (cond_cast type) cs (c_live v),
          c_asleep = through (cond_cast type) cs (c_live v) (\<lambda>_. False) (c_asleep v),
          s_live = leads (sem_cast type) cs (s_live v),
          s_count = through (sem_cast type) cs (s_live v) 0 (s_count v)\<rparr>)"

lemma object_view_simps [simp]:
  "m_live (object_view type view m) = leads (mutex_cast type) (heap m) (m_live (view (below m)))"
  "m_owner (object_view type view m) = through (mutex_cast type) (heap m) (m_live (view (below m))) None (m_owner (view (below m)))"
  "c_live (object_view type view m) = leads (cond_cast type) (heap m) (c_live (view (below m)))"
  "c_asleep (object_view type view m) =
     through (cond_cast type) (heap m) (c_live (view (below m))) (\<lambda>_. False) (c_asleep (view (below m)))"
  "s_live (object_view type view m) = leads (sem_cast type) (heap m) (s_live (view (below m)))"
  "s_count (object_view type view m) = through (sem_cast type) (heap m) (s_live (view (below m))) 0 (s_count (view (below m)))"
  by (simp_all add: object_view_def Let_def)

lemma leadsE:
  assumes "leads cast cs live p"
  obtains x where "field_at cast cs p = Inr x" "live x" "\<And>q. p < q \<Longrightarrow> field_at cast cs q \<noteq> Inr x"
  using assms by (auto simp: through_def split: sum.splits if_splits)

lemma through_leads: "leads cast cs live p \<Longrightarrow> field_at cast cs p = Inr x \<Longrightarrow> through cast cs live d f p = f x"
  by (auto simp: through_def split: if_splits)

lemma through_update:
  assumes "field_at cast cs p = Inr x" and "live x" and "\<And>q. p < q \<Longrightarrow> field_at cast cs q \<noteq> Inr x"
  shows "through cast cs live d (f(x := v)) = (through cast cs live d f)(p := v)"
proof
  fix q
  show "through cast cs live d (f(x := v)) q = ((through cast cs live d f)(p := v)) q"
  proof (cases "field_at cast cs q = Inr x")
    case True
    then have "q \<le> p" using assms(3) not_le by blast
    then show ?thesis using True assms by (auto simp: through_def)
  next
    case False
    then show ?thesis using assms(1) by (auto simp: through_def split: sum.split)
  qed
qed

lemma field_at_append:
  "field_at cast (cs @ [Some ob]) q =
     (if q = length cs
      then (case cast ob of None \<Rightarrow> Inl InvalidCast | Some None \<Rightarrow> Inl Uninitialised | Some (Some x) \<Rightarrow> Inr x)
      else field_at cast cs q)"
  by (auto simp: field_at_def nth_append)

lemma field_at_delete: "field_at cast (cs[p := None]) q = (if q = p then Inl InvalidPointer else field_at cast cs q)"
  by (auto simp: field_at_def)

lemma field_atD: "field_at cast cs p = Inr x \<Longrightarrow> p < length cs \<and> (\<exists>ob. cs ! p = Some ob \<and> cast ob = Some (Some x))"
  by (auto simp: field_at_def split: if_splits option.splits)

lemma through_cong:
  assumes "\<And>q x. field_at cast cs q = Inr x \<longleftrightarrow> field_at cast cs' q = Inr x"
  shows "through cast cs live d f = through cast cs' live d f"
proof
  fix p
  show "through cast cs live d f p = through cast cs' live d f p"
  proof (cases "field_at cast cs p")
    case (Inl u)
    then have "field_at cast cs' p \<noteq> Inr x" for x using assms [of p x] by simp
    then obtain u' where "field_at cast cs' p = Inl u'" by (metis sum.exhaust)
    then show ?thesis using Inl by (simp add: through_def)
  next
    case (Inr x)
    then have i: "field_at cast cs' p = Inr x" using assms by blast
    show ?thesis unfolding through_def Inr i by (simp add: assms)
  qed
qed

lemma through_append_other:
  assumes "cast ob = None \<or> cast ob = Some None"
  shows "through cast (cs @ [Some ob]) live d f = through cast cs live d f"
  by (rule through_cong) (use assms in \<open>auto simp: field_at_append\<close>, auto simp: field_at_def)

lemma through_append_new:
  assumes "cast ob = Some (Some x)" and "\<not> live x" and "\<And>y. live y \<Longrightarrow> live' y \<and> f' y = f y" and l: "leads cast cs live p"
  shows "leads cast (cs @ [Some ob]) live' p" and "through cast (cs @ [Some ob]) live' d f' p = through cast cs live d f p"
proof -
  obtain y where y: "field_at cast cs p = Inr y" "live y" "\<And>q. p < q \<Longrightarrow> field_at cast cs q \<noteq> Inr y"
    using leadsE [OF l] by metis
  note t = through_leads [OF l y(1)]
  have "y \<noteq> x" using y(2) assms(2) by blast
  moreover have "p \<noteq> length cs" using field_atD [OF y(1)] by simp
  ultimately show "leads cast (cs @ [Some ob]) live' p" and "through cast (cs @ [Some ob]) live' d f' p = through cast cs live d f p"
    unfolding t using y assms(1,3) by (auto simp: through_def field_at_append)
qed

lemma through_new:
  assumes "cast ob = Some (Some x)" and "live x"
  shows "through cast (cs @ [Some ob]) live d f (length cs) = f x"
proof -
  have "field_at cast cs q \<noteq> Inr x" if "length cs < q" for q using that by (simp add: field_at_def)
  then show ?thesis using assms by (auto simp: through_def field_at_append)
qed

lemma not_leads_new: "\<not> leads cast cs live (length cs)"
  by (simp add: through_def field_at_def)

lemma through_delete_other:
  assumes "p < length cs" and "cs ! p = Some ob" and "cast ob = None"
  shows "through cast (cs[p := None]) live d f = through cast cs live d f"
  by (rule through_cong) (use assms in \<open>auto simp: field_at_delete\<close>, auto simp: field_at_def)

lemma through_delete:
  assumes p: "leads cast cs live p" and q: "leads cast cs live q" "q \<noteq> p"
    and k: "\<And>y. live y \<Longrightarrow> y \<noteq> x \<Longrightarrow> live' y \<and> f' y = f y" and x: "field_at cast cs p = Inr x"
  shows "leads cast (cs[p := None]) live' q" and "through cast (cs[p := None]) live' d f' q = through cast cs live d f q"
proof -
  obtain y where y: "field_at cast cs q = Inr y" "live y" "\<And>r. q < r \<Longrightarrow> field_at cast cs r \<noteq> Inr y"
    using leadsE [OF q(1)] by metis
  note t = through_leads [OF q(1) y(1)]
  have "y \<noteq> x" using y(1,3) x p q(2) leadsE [OF p] by (metis linorder_neqE_nat sum.inject(2))
  then show "leads cast (cs[p := None]) live' q" and "through cast (cs[p := None]) live' d f' q = through cast cs live d f q"
    unfolding t using y k q(2) by (auto simp: through_def field_at_delete)
qed

text \<open>What the functions do to the heap when their pointers are good.\<close>

lemma new_object_simps [simp]: "new_object ob m = (length (heap m), m\<lparr>heap := heap m @ [Some ob]\<rparr>)"
  by (simp add: new_object_def)

lemma create_at_new:
  assumes "cast (mk None) = Some None"
  shows "create_at cast mk f (length cs) (m\<lparr>heap := cs @ [Some (mk None)]\<rparr>) =
    (case f (below m) of (res, x, w) \<Rightarrow>
       (res, m\<lparr>heap := cs @ [Some (mk (if res = 0 then Some x else None))], below := w\<rparr>))"
  using assms by (simp add: create_at_def split: prod.split)

lemma make_eq:
  assumes "cast (mk None) = Some None"
  shows "make_object cast mk f m =
    (case f (below m) of (res, x, w) \<Rightarrow>
       (res, length (heap m), m\<lparr>heap := heap m @ [Some (mk (if res = 0 then Some x else None))], below := w\<rparr>))"
  using create_at_new [of cast mk f "heap m" m, OF assms] by (simp add: make_object_def split: prod.split)

lemma at_good:
  assumes "field_at cast (heap m) p = Inr x"
  shows "call_at cast f p m = (case f x (below m) of (res, w) \<Rightarrow> (res, m\<lparr>below := w\<rparr>))"
    and "block_at cast g p m = map_option (\<lambda>(res, w). (res, m\<lparr>below := w\<rparr>)) (g x (below m))"
    and "unmake_object cast f p m = (case f x (below m) of (res, w) \<Rightarrow> (res, m\<lparr>heap := (heap m)[p := None], below := w\<rparr>))"
  using assms field_atD [OF assms]
  by (auto simp: call_at_def block_at_def unmake_object_def delete_object_def split: prod.split)

lemma wait_at_good:
  assumes "field_at ccast (heap m) c = Inr x" and "field_at mcast (heap m) p = Inr y"
  shows "sleep_at ccast mcast f c p m = m\<lparr>below := f x y (below m)\<rparr>"
    and "resume_at ccast mcast g c p m = map_option (\<lambda>(res, w). (res, m\<lparr>below := w\<rparr>)) (g x y (below m))"
  using assms by (simp_all add: sleep_at_def resume_at_def)

text \<open>Every function of a helper, on good pointers.\<close>

lemma object_ops [simp]:
  "mutex_create (object_helper type H) name = make_object (mutex_cast type) (new_mutex_class type) (mutex_create H name)"
  "mutex_destroy (object_helper type H) = unmake_object (mutex_cast type) (mutex_destroy H)"
  "mutex_lock (object_helper type H) t = block_at (mutex_cast type) (mutex_lock H t)"
  "mutex_unlock (object_helper type H) t = call_at (mutex_cast type) (mutex_unlock H t)"
  "condition_var_create (object_helper type H) name = make_object (cond_cast type) (new_cond_class type) (condition_var_create H name)"
  "condition_var_destroy (object_helper type H) = unmake_object (cond_cast type) (condition_var_destroy H)"
  "condition_sleep (object_helper type H) t = sleep_at (cond_cast type) (mutex_cast type) (condition_sleep H t)"
  "condition_resume (object_helper type H) t = resume_at (cond_cast type) (mutex_cast type) (condition_resume H t)"
  "condition_signal (object_helper type H) = call_at (cond_cast type) (condition_signal H)"
  "thread_create (object_helper type H) attr data = thread_below (thread_create H attr data)"
  "thread_join (object_helper type H) h m = map_option (\<lambda>(res, w). (res, m\<lparr>below := w\<rparr>)) (thread_join H h (below m))"
  "semaphore_create (object_helper type H) name = make_object (sem_cast type) (new_sem_class type) (semaphore_create H name)"
  "semaphore_destroy (object_helper type H) p name = unmake_object (sem_cast type) (\<lambda>x. semaphore_destroy H x name) p"
  "semaphore_wait (object_helper type H) = block_at (sem_cast type) (semaphore_wait H)"
  "semaphore_signal (object_helper type H) = call_at (sem_cast type) (semaphore_signal H)"
  by (simp_all add: object_helper_def)

lemma sync_eqI:
  "m_live v = m_live v' \<Longrightarrow> m_owner v = m_owner v' \<Longrightarrow> c_live v = c_live v' \<Longrightarrow> c_asleep v = c_asleep v' \<Longrightarrow>
   s_live v = s_live v' \<Longrightarrow> s_count v = s_count v' \<Longrightarrow> v = (v' :: sync)"
  by simp

text \<open>A change of one object below is the change of one object above.\<close>

lemma owner_above:
  assumes "leads (mutex_cast type) (heap m) (m_live (view (below m))) p" and "field_at (mutex_cast type) (heap m) p = Inr x"
    and "view w = set_owner x t (view (below m))"
  shows "object_view type view (m\<lparr>below := w\<rparr>) = set_owner p t (object_view type view m)"
proof -
  have "through (mutex_cast type) (heap m) (m_live (view (below m))) None ((m_owner (view (below m)))(x := t)) =
      (through (mutex_cast type) (heap m) (m_live (view (below m))) None (m_owner (view (below m))))(p := t)"
    by (rule through_update) (use leadsE [OF assms(1)] assms(2) in \<open>metis sum.inject(2)\<close>)+
  then show ?thesis using assms(3) by (intro sync_eqI) simp_all
qed

lemma sleep_above:
  assumes "leads (mutex_cast type) (heap m) (m_live (view (below m))) p" "leads (cond_cast type) (heap m) (c_live (view (below m))) c"
    and "field_at (mutex_cast type) (heap m) p = Inr x" "field_at (cond_cast type) (heap m) c = Inr y"
    and "view w = set_asleep y t b (set_owner x u (view (below m)))"
  shows "object_view type view (m\<lparr>below := w\<rparr>) = set_asleep c t b (set_owner p u (object_view type view m))"
proof -
  let ?f = "c_asleep (view (below m))" and ?l = "c_live (view (below m))"
  have "through (mutex_cast type) (heap m) (m_live (view (below m))) None ((m_owner (view (below m)))(x := u)) =
      (through (mutex_cast type) (heap m) (m_live (view (below m))) None (m_owner (view (below m))))(p := u)"
    by (rule through_update) (use leadsE [OF assms(1)] assms(3) in \<open>metis sum.inject(2)\<close>)+
  moreover have "through (cond_cast type) (heap m) ?l (\<lambda>_. False) (?f(y := (?f y)(t := b))) =
      (through (cond_cast type) (heap m) ?l (\<lambda>_. False) ?f)(c := (?f y)(t := b))"
    by (rule through_update) (use leadsE [OF assms(2)] assms(4) in \<open>metis sum.inject(2)\<close>)+
  ultimately show ?thesis using assms(5) by (intro sync_eqI) (simp_all add: through_leads [OF assms(2,4)])
qed

lemma asleep_above:
  assumes "leads (cond_cast type) (heap m) (c_live (view (below m))) c" and "field_at (cond_cast type) (heap m) c = Inr y"
    and "view w = set_asleep y t b (view (below m))"
  shows "object_view type view (m\<lparr>below := w\<rparr>) = set_asleep c t b (object_view type view m)"
proof -
  let ?f = "c_asleep (view (below m))" and ?l = "c_live (view (below m))"
  have "through (cond_cast type) (heap m) ?l (\<lambda>_. False) (?f(y := (?f y)(t := b))) =
      (through (cond_cast type) (heap m) ?l (\<lambda>_. False) ?f)(c := (?f y)(t := b))"
    by (rule through_update) (use leadsE [OF assms(1)] assms(2) in \<open>metis sum.inject(2)\<close>)+
  then show ?thesis using assms(3) by (intro sync_eqI) (simp_all add: through_leads [OF assms(1,2)])
qed

lemma count_above:
  assumes "leads (sem_cast type) (heap m) (s_live (view (below m))) p" and "field_at (sem_cast type) (heap m) p = Inr x"
    and "view w = set_count x n (view (below m))"
  shows "object_view type view (m\<lparr>below := w\<rparr>) = set_count p n (object_view type view m)"
proof -
  have "through (sem_cast type) (heap m) (s_live (view (below m))) 0 ((s_count (view (below m)))(x := n)) =
      (through (sem_cast type) (heap m) (s_live (view (below m))) 0 (s_count (view (below m))))(p := n)"
    by (rule through_update) (use leadsE [OF assms(1)] assms(2) in \<open>metis sum.inject(2)\<close>)+
  then show ?thesis using assms(3) by (intro sync_eqI) simp_all
qed

subsection \<open>The contract, one level up\<close>

lemma through_frame:
  assumes "\<And>y. live y \<Longrightarrow> live' y \<and> f' y = f y" and "leads cast cs live p"
  shows "leads cast cs live' p" and "through cast cs live' d f' p = through cast cs live d f p"
  using assms by (auto simp: through_def split: sum.splits if_splits)

lemma through_append:
  assumes "\<And>x. cast ob = Some (Some x) \<Longrightarrow> \<not> live x" and f: "\<And>y. live y \<Longrightarrow> live' y \<and> f' y = f y"
    and l: "leads cast cs live p"
  shows "leads cast (cs @ [Some ob]) live' p \<and> through cast (cs @ [Some ob]) live' d f' p = through cast cs live d f p"
proof (cases "\<exists>x. cast ob = Some (Some x)")
  case True
  then obtain x where x: "cast ob = Some (Some x)" by blast
  have n: "\<not> live x" using assms(1) [OF x] .
  show ?thesis
  proof
    show "leads cast (cs @ [Some ob]) live' p"
      by (rule through_append_new(1) [where f = f and f' = f', OF x n _ l]) (rule f)
    show "through cast (cs @ [Some ob]) live' d f' p = through cast cs live d f p"
      by (rule through_append_new(2) [where f = f and f' = f', OF x n _ l]) (rule f)
  qed
next
  case False
  then have "cast ob = None \<or> cast ob = Some None" by (cases "cast ob"; cases "the (cast ob)") auto
  note o = through_append_other [where cast = cast and ob = ob, OF this]
  show ?thesis unfolding o
  proof
    show "leads cast cs live' p" by (rule through_frame(1) [where f = f and f' = f', OF _ l]) (rule f)
    show "through cast cs live' d f' p = through cast cs live d f p"
      by (rule through_frame(2) [where f = f and f' = f', OF _ l]) (rule f)
  qed
qed

lemma keeps_append:
  assumes k: "keeps (view (below m)) (view w)"
    and n: "\<And>x. mutex_cast type ob = Some (Some x) \<Longrightarrow> \<not> m_live (view (below m)) x"
      "\<And>x. cond_cast type ob = Some (Some x) \<Longrightarrow> \<not> c_live (view (below m)) x"
      "\<And>x. sem_cast type ob = Some (Some x) \<Longrightarrow> \<not> s_live (view (below m)) x"
  shows "keeps (object_view type view m) (object_view type view (m\<lparr>heap := heap m @ [Some ob], below := w\<rparr>))"
proof -
  have f: "\<And>y. m_live (view (below m)) y \<Longrightarrow> m_live (view w) y \<and> m_owner (view w) y = m_owner (view (below m)) y"
    "\<And>y. c_live (view (below m)) y \<Longrightarrow> c_live (view w) y \<and> c_asleep (view w) y = c_asleep (view (below m)) y"
    "\<And>y. s_live (view (below m)) y \<Longrightarrow> s_live (view w) y \<and> s_count (view w) y = s_count (view (below m)) y"
    using k by (auto simp: keeps_def)
  note a = through_append [OF n(1) f(1)] through_append [OF n(2) f(2)] through_append [OF n(3) f(3)]
  show ?thesis unfolding keeps_def by (simp add: a)
qed

text \<open>
  Deleting one object keeps the others: \<open>one\<close> is the cast of its kind, and \<open>dead\<close> says
  that it is no longer alive.
\<close>

lemma through_delete_frame:
  assumes p: "field_at one cs p = Inr x" and e: "\<And>ob. one ob \<noteq> None \<Longrightarrow> cast ob = None"
    and f: "\<And>y. live y \<Longrightarrow> live' y \<and> f' y = f y" and l: "leads cast cs live q"
  shows "leads cast (cs[p := None]) live' q \<and> through cast (cs[p := None]) live' d f' q = through cast cs live d f q"
proof -
  obtain ob where "p < length cs" "cs ! p = Some ob" "cast ob = None" using field_atD [OF p] e by fastforce
  note o = through_delete_other [where cast = cast and ob = ob, OF this]
  show ?thesis unfolding o
  proof
    show "leads cast cs live' q" by (rule through_frame(1) [where f = f and f' = f', OF _ l]) (rule f)
    show "through cast cs live' d f' q = through cast cs live d f q"
      by (rule through_frame(2) [where f = f and f' = f', OF _ l]) (rule f)
  qed
qed

lemma through_delete_own:
  assumes p: "leads cast cs live p" "field_at cast cs p = Inr x" and q: "leads cast cs live q" "q \<noteq> p"
    and f: "\<And>y. live y \<Longrightarrow> y \<noteq> x \<Longrightarrow> live' y \<and> f' y = f y"
  shows "leads cast (cs[p := None]) live' q \<and> through cast (cs[p := None]) live' d f' q = through cast cs live d f q"
proof
  show "leads cast (cs[p := None]) live' q"
    by (rule through_delete(1) [where f = f and f' = f', OF p(1) q _ p(2)]) (rule f)
  show "through cast (cs[p := None]) live' d f' q = through cast cs live d f q"
    by (rule through_delete(2) [where f = f and f' = f', OF p(1) q _ p(2)]) (rule f)
qed

lemma mutex_delete_keeps:
  assumes p: "leads (mutex_cast type) (heap m) (m_live (view (below m))) p" "field_at (mutex_cast type) (heap m) p = Inr x"
    and k: "keeps ((view (below m))\<lparr>m_live := (m_live (view (below m)))(x := False)\<rparr>) (view w)"
  shows "keeps ((object_view type view m)\<lparr>m_live := (m_live (object_view type view m))(p := False)\<rparr>)
    (object_view type view (m\<lparr>heap := (heap m)[p := None], below := w\<rparr>))"
proof -
  have f: "\<And>y. m_live (view (below m)) y \<Longrightarrow> y \<noteq> x \<Longrightarrow> m_live (view w) y \<and> m_owner (view w) y = m_owner (view (below m)) y"
    "\<And>y. c_live (view (below m)) y \<Longrightarrow> c_live (view w) y \<and> c_asleep (view w) y = c_asleep (view (below m)) y"
    "\<And>y. s_live (view (below m)) y \<Longrightarrow> s_live (view w) y \<and> s_count (view w) y = s_count (view (below m)) y"
    using k by (auto simp: keeps_def)
  note a = through_delete_own [OF p _ _ f(1)]
    through_delete_frame [OF p(2) casts_exclusive(1) [THEN conjunct1] f(2)]
    through_delete_frame [OF p(2) casts_exclusive(1) [THEN conjunct2] f(3)]
  show ?thesis unfolding keeps_def using a by simp
qed

lemma cond_delete_keeps:
  assumes p: "leads (cond_cast type) (heap m) (c_live (view (below m))) p" "field_at (cond_cast type) (heap m) p = Inr x"
    and k: "keeps ((view (below m))\<lparr>c_live := (c_live (view (below m)))(x := False)\<rparr>) (view w)"
  shows "keeps ((object_view type view m)\<lparr>c_live := (c_live (object_view type view m))(p := False)\<rparr>)
    (object_view type view (m\<lparr>heap := (heap m)[p := None], below := w\<rparr>))"
proof -
  have f: "\<And>y. m_live (view (below m)) y \<Longrightarrow> m_live (view w) y \<and> m_owner (view w) y = m_owner (view (below m)) y"
    "\<And>y. c_live (view (below m)) y \<Longrightarrow> y \<noteq> x \<Longrightarrow> c_live (view w) y \<and> c_asleep (view w) y = c_asleep (view (below m)) y"
    "\<And>y. s_live (view (below m)) y \<Longrightarrow> s_live (view w) y \<and> s_count (view w) y = s_count (view (below m)) y"
    using k by (auto simp: keeps_def)
  note a = through_delete_frame [OF p(2) casts_exclusive(2) [THEN conjunct1] f(1)]
    through_delete_own [OF p _ _ f(2)]
    through_delete_frame [OF p(2) casts_exclusive(2) [THEN conjunct2] f(3)]
  show ?thesis unfolding keeps_def using a by simp
qed

lemma sem_delete_keeps:
  assumes p: "leads (sem_cast type) (heap m) (s_live (view (below m))) p" "field_at (sem_cast type) (heap m) p = Inr x"
    and k: "keeps ((view (below m))\<lparr>s_live := (s_live (view (below m)))(x := False)\<rparr>) (view w)"
  shows "keeps ((object_view type view m)\<lparr>s_live := (s_live (object_view type view m))(p := False)\<rparr>)
    (object_view type view (m\<lparr>heap := (heap m)[p := None], below := w\<rparr>))"
proof -
  have f: "\<And>y. m_live (view (below m)) y \<Longrightarrow> m_live (view w) y \<and> m_owner (view w) y = m_owner (view (below m)) y"
    "\<And>y. c_live (view (below m)) y \<Longrightarrow> c_live (view w) y \<and> c_asleep (view w) y = c_asleep (view (below m)) y"
    "\<And>y. s_live (view (below m)) y \<Longrightarrow> y \<noteq> x \<Longrightarrow> s_live (view w) y \<and> s_count (view w) y = s_count (view (below m)) y"
    using k by (auto simp: keeps_def)
  note a = through_delete_frame [OF p(2) casts_exclusive(3) [THEN conjunct1] f(1)]
    through_delete_frame [OF p(2) casts_exclusive(3) [THEN conjunct2] f(2)]
    through_delete_own [OF p _ _ f(3)]
  show ?thesis unfolding keeps_def using a by simp
qed

lemma mutex_make_above:
  assumes c: "make_object (mutex_cast type) (new_mutex_class type) f m = (res, p, m')"
  obtains x w where "f (below m) = (res, x, w)" "p = length (heap m)"
    "m' = m\<lparr>heap := heap m @ [Some (new_mutex_class type (if res = 0 then Some x else None))], below := w\<rparr>"
  using c make_eq [of "mutex_cast type" "new_mutex_class type" f m] that by (auto split: prod.splits)

lemma cond_make_above:
  assumes c: "make_object (cond_cast type) (new_cond_class type) f m = (res, p, m')"
  obtains x w where "f (below m) = (res, x, w)" "p = length (heap m)"
    "m' = m\<lparr>heap := heap m @ [Some (new_cond_class type (if res = 0 then Some x else None))], below := w\<rparr>"
  using c make_eq [of "cond_cast type" "new_cond_class type" f m] that by (auto split: prod.splits)

lemma sem_make_above:
  assumes c: "make_object (sem_cast type) (new_sem_class type) f m = (res, p, m')"
  obtains x w where "f (below m) = (res, x, w)" "p = length (heap m)"
    "m' = m\<lparr>heap := heap m @ [Some (new_sem_class type (if res = 0 then Some x else None))], below := w\<rparr>"
  using c make_eq [of "sem_cast type" "new_sem_class type" f m] that by (auto split: prod.splits)

text \<open>A living object above is one below.\<close>

lemma object_liveE:
  "m_live (object_view type view m) p \<Longrightarrow> (\<And>x. field_at (mutex_cast type) (heap m) p = Inr x \<Longrightarrow> m_live (view (below m)) x \<Longrightarrow>
     m_owner (object_view type view m) p = m_owner (view (below m)) x \<Longrightarrow> thesis) \<Longrightarrow> thesis"
  "c_live (object_view type view m) c \<Longrightarrow> (\<And>x. field_at (cond_cast type) (heap m) c = Inr x \<Longrightarrow> c_live (view (below m)) x \<Longrightarrow>
     c_asleep (object_view type view m) c = c_asleep (view (below m)) x \<Longrightarrow> thesis) \<Longrightarrow> thesis"
  "s_live (object_view type view m) s \<Longrightarrow> (\<And>x. field_at (sem_cast type) (heap m) s = Inr x \<Longrightarrow> s_live (view (below m)) x \<Longrightarrow>
     s_count (object_view type view m) s = s_count (view (below m)) x \<Longrightarrow> thesis) \<Longrightarrow> thesis"
  unfolding object_view_simps by (metis leadsE through_leads)+

context helper_contract begin

abbreviation above :: "thread_type \<Rightarrow> 'w machine \<Rightarrow> sync" where
  "above type \<equiv> object_view type view"

lemma object_mutex:
  "mutex_create (object_helper type H) name m = (res, p, m') \<Longrightarrow> keeps (above type m) (above type m')"
  "mutex_create (object_helper type H) name m = (0, p, m') \<Longrightarrow>
     \<not> m_live (above type m) p \<and> m_live (above type m') p \<and> m_owner (above type m') p = None"
proof -
  assume "mutex_create (object_helper type H) name m = (res, p, m')"
  then obtain x w where c: "mutex_create H name (below m) = (res, x, w)" and
    m': "m' = m\<lparr>heap := heap m @ [Some (new_mutex_class type (if res = 0 then Some x else None))], below := w\<rparr>"
    unfolding object_ops by (rule mutex_make_above)
  have n: "res = 0 \<Longrightarrow> \<not> m_live (view (below m)) x" using mutex_create_fresh c by blast
  show "keeps (above type m) (above type m')" unfolding m'
    by (rule keeps_append [OF mutex_create_keeps [OF c]]) (use n in \<open>auto split: if_splits\<close>)
next
  assume "mutex_create (object_helper type H) name m = (0, p, m')"
  then obtain x w where c: "mutex_create H name (below m) = (0, x, w)" and p: "p = length (heap m)" and
    m': "m' = m\<lparr>heap := heap m @ [Some (new_mutex_class type (Some x))], below := w\<rparr>"
    unfolding object_ops by (rule mutex_make_above) auto
  note f = mutex_create_fresh [OF c]
  note t = through_new [where cast = "mutex_cast type" and ob = "new_mutex_class type (Some x)" and live = "m_live (view w)"]
  show "\<not> m_live (above type m) p \<and> m_live (above type m') p \<and> m_owner (above type m') p = None"
    using f not_leads_new unfolding m' p by (simp add: t)
qed

lemma object_cond:
  "condition_var_create (object_helper type H) name m = (res, p, m') \<Longrightarrow> keeps (above type m) (above type m')"
  "condition_var_create (object_helper type H) name m = (0, p, m') \<Longrightarrow>
     \<not> c_live (above type m) p \<and> c_live (above type m') p \<and> (\<forall>t. \<not> c_asleep (above type m') p t)"
proof -
  assume "condition_var_create (object_helper type H) name m = (res, p, m')"
  then obtain x w where c: "condition_var_create H name (below m) = (res, x, w)" and
    m': "m' = m\<lparr>heap := heap m @ [Some (new_cond_class type (if res = 0 then Some x else None))], below := w\<rparr>"
    unfolding object_ops by (rule cond_make_above)
  have n: "res = 0 \<Longrightarrow> \<not> c_live (view (below m)) x" using cond_create_fresh c by blast
  show "keeps (above type m) (above type m')" unfolding m'
    by (rule keeps_append [OF cond_create_keeps [OF c]]) (use n in \<open>auto split: if_splits\<close>)
next
  assume "condition_var_create (object_helper type H) name m = (0, p, m')"
  then obtain x w where c: "condition_var_create H name (below m) = (0, x, w)" and p: "p = length (heap m)" and
    m': "m' = m\<lparr>heap := heap m @ [Some (new_cond_class type (Some x))], below := w\<rparr>"
    unfolding object_ops by (rule cond_make_above) auto
  note f = cond_create_fresh [OF c]
  note t = through_new [where cast = "cond_cast type" and ob = "new_cond_class type (Some x)" and live = "c_live (view w)"]
  show "\<not> c_live (above type m) p \<and> c_live (above type m') p \<and> (\<forall>t. \<not> c_asleep (above type m') p t)"
    using f not_leads_new unfolding m' p by (simp add: t)
qed

lemma object_sem:
  "semaphore_create (object_helper type H) name m = (res, p, m') \<Longrightarrow> keeps (above type m) (above type m')"
  "semaphore_create (object_helper type H) name m = (0, p, m') \<Longrightarrow>
     \<not> s_live (above type m) p \<and> s_live (above type m') p \<and> s_count (above type m') p = 0"
proof -
  assume "semaphore_create (object_helper type H) name m = (res, p, m')"
  then obtain x w where c: "semaphore_create H name (below m) = (res, x, w)" and
    m': "m' = m\<lparr>heap := heap m @ [Some (new_sem_class type (if res = 0 then Some x else None))], below := w\<rparr>"
    unfolding object_ops by (rule sem_make_above)
  have n: "res = 0 \<Longrightarrow> \<not> s_live (view (below m)) x" using sem_create_fresh c by blast
  show "keeps (above type m) (above type m')" unfolding m'
    by (rule keeps_append [OF sem_create_keeps [OF c]]) (use n in \<open>auto split: if_splits\<close>)
next
  assume "semaphore_create (object_helper type H) name m = (0, p, m')"
  then obtain x w where c: "semaphore_create H name (below m) = (0, x, w)" and p: "p = length (heap m)" and
    m': "m' = m\<lparr>heap := heap m @ [Some (new_sem_class type (Some x))], below := w\<rparr>"
    unfolding object_ops by (rule sem_make_above) auto
  note f = sem_create_fresh [OF c]
  note t = through_new [where cast = "sem_cast type" and ob = "new_sem_class type (Some x)" and live = "s_live (view w)"]
  show "\<not> s_live (above type m) p \<and> s_live (above type m') p \<and> s_count (above type m') p = 0"
    using f not_leads_new unfolding m' p by (simp add: t)
qed

lemma object_destroy:
  "m_live (above type m) p \<Longrightarrow> mutex_destroy (object_helper type H) p m = (res, m') \<Longrightarrow>
     keeps ((above type m)\<lparr>m_live := (m_live (above type m))(p := False)\<rparr>) (above type m')"
  "c_live (above type m) p \<Longrightarrow> condition_var_destroy (object_helper type H) p m = (res, m') \<Longrightarrow>
     keeps ((above type m)\<lparr>c_live := (c_live (above type m))(p := False)\<rparr>) (above type m')"
  "s_live (above type m) p \<Longrightarrow> semaphore_destroy (object_helper type H) p name m = (res, m') \<Longrightarrow>
     keeps ((above type m)\<lparr>s_live := (s_live (above type m))(p := False)\<rparr>) (above type m')"
proof -
  assume p: "m_live (above type m) p" and d: "mutex_destroy (object_helper type H) p m = (res, m')"
  from object_liveE(1) [OF p] obtain x where x: "field_at (mutex_cast type) (heap m) p = Inr x" "m_live (view (below m)) x" by metis
  obtain w where w: "mutex_destroy H x (below m) = (res, w)" "m' = m\<lparr>heap := (heap m)[p := None], below := w\<rparr>"
    using d at_good(3) [OF x(1)] by (auto split: prod.splits)
  show "keeps ((above type m)\<lparr>m_live := (m_live (above type m))(p := False)\<rparr>) (above type m')" unfolding w(2)
    by (rule mutex_delete_keeps [OF p [unfolded object_view_simps] x(1) mutex_destroy_keeps [OF x(2) w(1)]])
next
  assume p: "c_live (above type m) p" and d: "condition_var_destroy (object_helper type H) p m = (res, m')"
  from object_liveE(2) [OF p] obtain x where x: "field_at (cond_cast type) (heap m) p = Inr x" "c_live (view (below m)) x" by metis
  obtain w where w: "condition_var_destroy H x (below m) = (res, w)" "m' = m\<lparr>heap := (heap m)[p := None], below := w\<rparr>"
    using d at_good(3) [OF x(1)] by (auto split: prod.splits)
  show "keeps ((above type m)\<lparr>c_live := (c_live (above type m))(p := False)\<rparr>) (above type m')" unfolding w(2)
    by (rule cond_delete_keeps [OF p [unfolded object_view_simps] x(1) cond_destroy_keeps [OF x(2) w(1)]])
next
  assume p: "s_live (above type m) p" and d: "semaphore_destroy (object_helper type H) p name m = (res, m')"
  from object_liveE(3) [OF p] obtain x where x: "field_at (sem_cast type) (heap m) p = Inr x" "s_live (view (below m)) x" by metis
  obtain w where w: "semaphore_destroy H x name (below m) = (res, w)" "m' = m\<lparr>heap := (heap m)[p := None], below := w\<rparr>"
    using d at_good(3) [OF x(1)] by (auto split: prod.splits)
  show "keeps ((above type m)\<lparr>s_live := (s_live (above type m))(p := False)\<rparr>) (above type m')" unfolding w(2)
    by (rule sem_delete_keeps [OF p [unfolded object_view_simps] x(1) sem_destroy_keeps [OF x(2) w(1)]])
qed

lemma object_lock:
  assumes l: "m_live (above type m) p"
  shows "m_owner (above type m) p \<noteq> None \<Longrightarrow> mutex_lock (object_helper type H) t p m = None"
    and "m_owner (above type m) p = None \<Longrightarrow>
      \<exists>m'. mutex_lock (object_helper type H) t p m = Some (0, m') \<and> above type m' = set_owner p (Some t) (above type m)"
    and "m_owner (above type m) p = Some t \<Longrightarrow>
      \<exists>m'. mutex_unlock (object_helper type H) t p m = (0, m') \<and> above type m' = set_owner p None (above type m)"
proof -
  obtain x where x: "field_at (mutex_cast type) (heap m) p = Inr x" "m_live (view (below m)) x"
      "m_owner (above type m) p = m_owner (view (below m)) x" using object_liveE(1) [OF l] by metis
  note up = owner_above [where view = view, OF l [unfolded object_view_simps] x(1)]
  show "mutex_lock (object_helper type H) t p m = None" if "m_owner (above type m) p \<noteq> None"
    using that lock_blocks [OF x(2)] x at_good(2) [OF x(1)] by simp
  show "\<exists>m'. mutex_lock (object_helper type H) t p m = Some (0, m') \<and> above type m' = set_owner p (Some t) (above type m)"
    if "m_owner (above type m) p = None"
  proof -
    have "m_owner (view (below m)) x = None" using that x(3) by simp
    from lock_takes [OF x(2) this, of t]
    obtain w where w: "mutex_lock H t x (below m) = Some (0, w)" "view w = set_owner x (Some t) (view (below m))" by blast
    show ?thesis using up [OF w(2)] w(1) at_good(2) [OF x(1)] by (intro exI [of _ "m\<lparr>below := w\<rparr>"]) simp
  qed
  show "\<exists>m'. mutex_unlock (object_helper type H) t p m = (0, m') \<and> above type m' = set_owner p None (above type m)"
    if "m_owner (above type m) p = Some t"
  proof -
    have "m_owner (view (below m)) x = Some t" using that x(3) by simp
    from unlock_frees [OF x(2) this]
    obtain w where w: "mutex_unlock H t x (below m) = (0, w)" "view w = set_owner x None (view (below m))" by blast
    show ?thesis using up [OF w(2)] w(1) at_good(1) [OF x(1)] by (intro exI [of _ "m\<lparr>below := w\<rparr>"]) simp
  qed
qed

lemma object_wait:
  assumes l: "m_live (above type m) p" "c_live (above type m) c"
  shows "m_owner (above type m) p = Some t \<Longrightarrow>
      above type (condition_sleep (object_helper type H) t c p m) = set_asleep c t True (set_owner p None (above type m))"
    and "c_asleep (above type m) c t \<or> m_owner (above type m) p \<noteq> None \<Longrightarrow>
      condition_resume (object_helper type H) t c p m = None"
    and "\<not> c_asleep (above type m) c t \<Longrightarrow> m_owner (above type m) p = None \<Longrightarrow>
      \<exists>m'. condition_resume (object_helper type H) t c p m = Some (0, m') \<and> above type m' = set_owner p (Some t) (above type m)"
proof -
  obtain x where x: "field_at (mutex_cast type) (heap m) p = Inr x" "m_live (view (below m)) x"
      "m_owner (above type m) p = m_owner (view (below m)) x" using object_liveE(1) [OF l(1)] by metis
  obtain y where y: "field_at (cond_cast type) (heap m) c = Inr y" "c_live (view (below m)) y"
      "c_asleep (above type m) c = c_asleep (view (below m)) y" using object_liveE(2) [OF l(2)] by metis
  note good = wait_at_good [OF y(1) x(1)]
  note up = owner_above [where view = view, OF l(1) [unfolded object_view_simps] x(1)]
    asleep_above [where view = view, OF l(2) [unfolded object_view_simps] y(1)]
  show "above type (condition_sleep (object_helper type H) t c p m) = set_asleep c t True (set_owner p None (above type m))"
    if "m_owner (above type m) p = Some t"
  proof -
    have "m_owner (view (below m)) x = Some t" using that x(3) by simp
    from sleep_above [OF l [unfolded object_view_simps] x(1) y(1) sleeps [OF x(2) y(2) this]]
    have "above type (m\<lparr>below := condition_sleep H t y x (below m)\<rparr>) = set_asleep c t True (set_owner p None (above type m))" .
    then show ?thesis by (simp add: good)
  qed
  show "condition_resume (object_helper type H) t c p m = None" if "c_asleep (above type m) c t \<or> m_owner (above type m) p \<noteq> None"
    using that resume_blocks [OF x(2) y(2)] x(3) y(3) good(2) by simp
  show "\<exists>m'. condition_resume (object_helper type H) t c p m = Some (0, m') \<and> above type m' = set_owner p (Some t) (above type m)"
    if "\<not> c_asleep (above type m) c t" "m_owner (above type m) p = None"
  proof -
    have "\<not> c_asleep (view (below m)) y t" "m_owner (view (below m)) x = None" using that x(3) y(3) by simp_all
    from resumes [OF x(2) y(2) this]
    obtain w where w: "condition_resume H t y x (below m) = Some (0, w)" "view w = set_owner x (Some t) (view (below m))" by blast
    show ?thesis using up(1) [OF w(2)] w(1) good(2) by (intro exI [of _ "m\<lparr>below := w\<rparr>"]) simp
  qed
qed

lemma object_signal:
  assumes l: "c_live (above type m) c"
  shows "(\<And>u. c_asleep (above type m) c u \<Longrightarrow> u = t) \<Longrightarrow>
      \<exists>m'. condition_signal (object_helper type H) c m = (0, m') \<and> above type m' = set_asleep c t False (above type m)"
    and "above type (object_wake type wake c t m) = set_asleep c t False (above type m)"
proof -
  obtain y where y: "field_at (cond_cast type) (heap m) c = Inr y" "c_live (view (below m)) y"
      "c_asleep (above type m) c = c_asleep (view (below m)) y" using object_liveE(2) [OF l] by metis
  note up = asleep_above [where view = view, OF l [unfolded object_view_simps] y(1)]
  show "\<exists>m'. condition_signal (object_helper type H) c m = (0, m') \<and> above type m' = set_asleep c t False (above type m)"
    if "\<And>u. c_asleep (above type m) c u \<Longrightarrow> u = t"
  proof -
    have "u = t" if "c_asleep (view (below m)) y u" for u
      by (rule \<open>\<And>u. c_asleep (above type m) c u \<Longrightarrow> u = t\<close>) (simp only: y(3) that)
    from signal_wakes [OF y(2) this]
    obtain w where w: "condition_signal H y (below m) = (0, w)" "view w = set_asleep y t False (view (below m))" by blast
    show ?thesis using up [OF w(2)] w(1) at_good(1) [OF y(1)] by (intro exI [of _ "m\<lparr>below := w\<rparr>"]) simp
  qed
  show "above type (object_wake type wake c t m) = set_asleep c t False (above type m)"
    using up [OF wake_wakes [OF y(2)]] y(1) by (simp add: object_wake_def)
qed

lemma object_post:
  assumes l: "s_live (above type m) p"
  shows "s_count (above type m) p = 0 \<Longrightarrow> semaphore_wait (object_helper type H) p m = None"
    and "0 < s_count (above type m) p \<Longrightarrow> \<exists>m'. semaphore_wait (object_helper type H) p m = Some (0, m')
        \<and> above type m' = set_count p (s_count (above type m) p - 1) (above type m)"
    and "\<exists>m'. semaphore_signal (object_helper type H) p m = (0, m')
        \<and> above type m' = set_count p (s_count (above type m) p + 1) (above type m)"
proof -
  obtain x where x: "field_at (sem_cast type) (heap m) p = Inr x" "s_live (view (below m)) x"
      "s_count (above type m) p = s_count (view (below m)) x" using object_liveE(3) [OF l] by metis
  note up = count_above [where view = view, OF l [unfolded object_view_simps] x(1)]
  show "semaphore_wait (object_helper type H) p m = None" if "s_count (above type m) p = 0"
    using that sem_wait_blocks [OF x(2)] x(3) at_good(2) [OF x(1)] by simp
  show "\<exists>m'. semaphore_wait (object_helper type H) p m = Some (0, m')
      \<and> above type m' = set_count p (s_count (above type m) p - 1) (above type m)" if "0 < s_count (above type m) p"
  proof -
    have "0 < s_count (view (below m)) x" using that x(3) by simp
    from sem_wait_takes [OF x(2) this]
    obtain w where w: "semaphore_wait H x (below m) = Some (0, w)"
      "view w = set_count x (s_count (view (below m)) x - 1) (view (below m))" by blast
    show ?thesis using up [OF w(2)] w(1) at_good(2) [OF x(1)] unfolding x(3) by (intro exI [of _ "m\<lparr>below := w\<rparr>"]) simp
  qed
  obtain w where w: "semaphore_signal H x (below m) = (0, w)" "view w = set_count x (s_count (view (below m)) x + 1) (view (below m))"
    using sem_signal_adds [OF x(2)] by metis
  show "\<exists>m'. semaphore_signal (object_helper type H) p m = (0, m')
      \<and> above type m' = set_count p (s_count (above type m) p + 1) (above type m)"
    using up [OF w(2)] w(1) at_good(1) [OF x(1)] unfolding x(3) by (intro exI [of _ "m\<lparr>below := w\<rparr>"]) simp
qed

lemma object_helper_contract: "helper_contract (object_helper type H) (object_view type view) (object_wake type wake)"
  by unfold_locales
    (fact object_mutex object_cond object_sem object_destroy object_lock object_wait object_signal object_post)+

end

text \<open>Threads have no object on the heap; the calls for them go straight to the library.\<close>

lemma fails_below [simp]: "below (fails u m) = below m" "heap (fails u m) = heap m"
  by (simp_all add: fails_def)

lemma below_at:
  "(\<And>x. g (snd (f x (below m))) = g (below m)) \<Longrightarrow> g (below (snd (call_at cast f p m))) = g (below m)"
  "(\<And>x r w. b x (below m) = Some (r, w) \<Longrightarrow> g w = g (below m)) \<Longrightarrow> block_at cast b p m = Some (res, m') \<Longrightarrow> g (below m') = g (below m)"
  "(\<And>x. g (snd (f x (below m))) = g (below m)) \<Longrightarrow> g (below (snd (unmake_object cast f p m))) = g (below m)"
  by (auto simp: call_at_def block_at_def unmake_object_def delete_object_def Let_def split: sum.splits prod.splits if_splits)
    (metis snd_conv)+

lemma below_wait:
  "(\<And>x y. g (s x y (below m)) = g (below m)) \<Longrightarrow> g (below (sleep_at cc mc s c p m)) = g (below m)"
  "(\<And>x y r w. b x y (below m) = Some (r, w) \<Longrightarrow> g w = g (below m)) \<Longrightarrow> resume_at cc mc b c p m = Some (res, m') \<Longrightarrow>
     g (below m') = g (below m)"
  by (auto simp: sleep_at_def resume_at_def split: sum.splits)

context thread_contract begin

lemma object_helper_threads:
  "thread_contract (object_helper type H) (object_view type view) (object_wake type wake) (\<lambda>m. tstate (below m)) (object_finish finish)"
proof (intro thread_contract.intro thread_contract_axioms.intro, goal_cases)
  case 1
  show ?case by (rule object_helper_contract)
next
  case (2 attr data m h m')
  then obtain w where "thread_create H attr data (below m) = (0, h, w)" "m' = m\<lparr>below := w\<rparr>"
    by (auto simp: thread_below_def split: prod.splits)
  then show ?case using thread_starts by (auto intro!: sync_eqI)
next
  case (3 attr data m res h m')
  then obtain w where "thread_create H attr data (below m) = (res, h, w)" "m' = m\<lparr>below := w\<rparr>"
    by (auto simp: thread_below_def split: prod.splits)
  then show ?case using thread_refused 3(2) by (auto intro!: sync_eqI)
next
  case (4 m h)
  then show ?case using join_waits by simp
next
  case (5 m h)
  then obtain w where w: "thread_join H h (below m) = Some (0, w)" "tstate w = (tstate (below m))(h := NoThread)" "view w = view (below m)"
    using join_removes by blast
  show ?case by (rule exI [of _ "m\<lparr>below := w\<rparr>"]) (use w in \<open>auto intro!: sync_eqI\<close>)
next
  case (6 m h)
  then show ?case using finishes [of "below m" h] by (auto simp: object_finish_def intro!: sync_eqI)
next
  case 7
  then show ?case unfolding object_ops by (rule below_at(2) [where g = tstate, rotated]) (erule lock_threads)
next
  case 8
  show ?case unfolding object_ops by (rule below_at(1)) (rule unlock_threads)
next
  case 9
  show ?case unfolding object_ops by (rule below_wait(1)) (rule sleep_threads)
next
  case 10
  then show ?case unfolding object_ops by (rule below_wait(2) [where g = tstate, rotated]) (erule resume_threads)
next
  case 11
  show ?case unfolding object_ops by (rule below_at(1)) (rule signal_threads)
next
  case 12
  show ?case using wake_threads by (simp add: object_wake_def split: sum.split)
next
  case 13
  then show ?case unfolding object_ops by (rule below_at(2) [where g = tstate, rotated]) (erule sem_wait_threads)
next
  case 14
  show ?case unfolding object_ops by (rule below_at(1)) (rule sem_signal_threads)
next
  case (15 name m res x m')
  then show ?case unfolding object_ops
  proof (elim disjE)
    assume "make_object (mutex_cast type) (new_mutex_class type) (mutex_create H name) m = (res, x, m')"
    then show ?case by (rule mutex_make_above) (simp add: create_threads [OF disjI1])
  next
    assume "make_object (cond_cast type) (new_cond_class type) (condition_var_create H name) m = (res, x, m')"
    then show ?case by (rule cond_make_above) (simp add: create_threads [OF disjI2 [OF disjI1]])
  next
    assume "make_object (sem_cast type) (new_sem_class type) (semaphore_create H name) m = (res, x, m')"
    then show ?case by (rule sem_make_above) (simp add: create_threads [OF disjI2 [OF disjI2]])
  qed
next
  case (16 x m res m' name)
  have d: "tstate (snd (mutex_destroy H y w)) = tstate w" "tstate (snd (condition_var_destroy H y w)) = tstate w"
    "tstate (snd (semaphore_destroy H y name w)) = tstate w" for y w
    using destroy_threads [of y w _ _ name] by (metis prod.collapse)+
  have "tstate (below (snd (unmake_object (mutex_cast type) (mutex_destroy H) x m))) = tstate (below m)"
    "tstate (below (snd (unmake_object (cond_cast type) (condition_var_destroy H) x m))) = tstate (below m)"
    "tstate (below (snd (unmake_object (sem_cast type) (\<lambda>y. semaphore_destroy H y name) x m))) = tstate (below m)"
    by (rule below_at(3), rule d)+
  then show ?case using 16 unfolding object_ops by auto
qed

end

end
