(* ===== verification/Posix_Semaphores.thy ===== *)
theory Posix_Semaphores
  imports Twine_Types
begin

text \<open>
  The POSIX semaphores that \<open>src/src/thread_helpers_posix.cpp\<close> and the class
  \<open>PosixSemaphoreConditionVariable\<close> use, as a world of counters, some of which have a name.
  Whether the system refuses a request (an \<open>errno\<close>) is an argument.

  POSIX semantics used: \<open>sem_unlink\<close> removes a name and leaves the semaphore to those
  who have it open; \<open>sem_open\<close> with \<open>O_CREAT\<close> opens the semaphore of that name, or makes
  a new one with count 0; with \<open>O_EXCL\<close> it fails with \<open>EEXIST\<close> if the name exists.
\<close>

record sem_world =
  sem_names :: "(string \<times> nat) list"   \<comment> \<open>names, and the semaphore each stands for\<close>
  sem_counts :: "nat list"               \<comment> \<open>the counts; a semaphore is an index\<close>

definition empty_world :: sem_world where
  "empty_world = \<lparr>sem_names = [], sem_counts = []\<rparr>"

definition sem_unlink :: "string \<Rightarrow> sem_world \<Rightarrow> sem_world" where
  "sem_unlink name w = w\<lparr>sem_names := filter (\<lambda>(n, h). n \<noteq> name) (sem_names w)\<rparr>"

definition fresh_sem :: "sem_world \<Rightarrow> nat \<times> sem_world" where
  "fresh_sem w = (length (sem_counts w), w\<lparr>sem_counts := sem_counts w @ [0]\<rparr>)"

definition new_named :: "string \<Rightarrow> sem_world \<Rightarrow> nat \<times> sem_world" where
  "new_named name w =
     (let (h, w') = fresh_sem w in (h, w'\<lparr>sem_names := (name, h) # sem_names w'\<rparr>))"

definition sem_open_creat :: "string \<Rightarrow> int \<Rightarrow> sem_world \<Rightarrow> (int + nat) \<times> sem_world" where
  "sem_open_creat name err w =
     (if err \<noteq> 0 then (Inl err, w)
      else (case map_of (sem_names w) name of
              Some h \<Rightarrow> (Inr h, w)
            | None \<Rightarrow> (let (h, w') = new_named name w in (Inr h, w'))))"

definition sem_open_excl :: "string \<Rightarrow> int \<Rightarrow> sem_world \<Rightarrow> (int + nat) \<times> sem_world" where
  "sem_open_excl name err w =
     (if name \<in> fst ` set (sem_names w) then (Inl EEXIST, w)
      else if err \<noteq> 0 then (Inl err, w)
      else (let (h, w') = new_named name w in (Inr h, w')))"

text \<open>\<open>sem_post\<close> and \<open>sem_wait\<close>; the latter blocks (\<open>None\<close>) at 0.\<close>

definition sem_post :: "nat \<Rightarrow> sem_world \<Rightarrow> sem_world" where
  "sem_post h w = w\<lparr>sem_counts := (sem_counts w)[h := sem_counts w ! h + 1]\<rparr>"

definition sem_wait :: "nat \<Rightarrow> sem_world \<Rightarrow> sem_world option" where
  "sem_wait h w =
     (if sem_counts w ! h = 0 then None
      else Some (w\<lparr>sem_counts := (sem_counts w)[h := sem_counts w ! h - 1]\<rparr>))"

definition sem_live :: "sem_world \<Rightarrow> nat \<Rightarrow> bool" where
  "sem_live w h \<longleftrightarrow> h < length (sem_counts w)"

definition sem_count :: "sem_world \<Rightarrow> nat \<Rightarrow> nat" where
  "sem_count w h = (if sem_live w h then sem_counts w ! h else 0)"

lemma unlink_absent: "map_of (sem_names (sem_unlink name w)) name = None"
  by (auto simp: sem_unlink_def map_of_eq_None_iff)

lemma sem_counts_unlink [simp]: "sem_counts (sem_unlink name w) = sem_counts w"
  by (simp add: sem_unlink_def)

text \<open>A semaphore opened after its name has been removed is a new one.\<close>

lemma unlink_then_open:
  "sem_open_creat name 0 (sem_unlink name w) =
     (Inr (length (sem_counts w)),
      \<lparr>sem_names = (name, length (sem_counts w)) # sem_names (sem_unlink name w), sem_counts = sem_counts w @ [0]\<rparr>)"
  using unlink_absent [of name w] by (simp add: sem_open_creat_def new_named_def fresh_sem_def)

end
