(* ===== verification/System_World.thy ===== *)
theory System_World
  imports Helper_Contract Posix_Semaphores
begin

text \<open>
  A world in which the thread libraries behave as POSIX describes them, with instances of
  the three libraries on it, and the proof that the three classes of thread helpers then meet
  the contract. The functions of \<open>pthread.h\<close> and the named semaphores are the C library's; the
  instances for Cobalt and EVL are stand-ins with the behaviour that those libraries
  document for the same operations. Which creations the system refuses is part of the world: every request takes
  the next answer, and gets 0 when there are no more.
\<close>

subsection \<open>The world\<close>

datatype 'a object = Live 'a | Destroyed

record sys =
  sys_mutexes :: "tid option object list"   \<comment> \<open>the owner of every mutex\<close>
  sys_conds :: "tid list object list"       \<comment> \<open>the threads asleep on every condition variable\<close>
  sys_sems :: sem_world
  sys_threads :: "thread_state list"
  sys_answers :: "int list"                 \<comment> \<open>to the next requests\<close>

definition new_sys :: "int list \<Rightarrow> sys" where
  "new_sys answers = \<lparr>sys_mutexes = [], sys_conds = [], sys_sems = empty_world, sys_threads = [], sys_answers = answers\<rparr>"

definition ask :: "sys \<Rightarrow> int \<times> sys" where
  "ask w = (case sys_answers w of [] \<Rightarrow> (0, w) | e # es \<Rightarrow> (e, w\<lparr>sys_answers := es\<rparr>))"

definition the_live :: "'a \<Rightarrow> 'a object list \<Rightarrow> nat \<Rightarrow> 'a" where
  "the_live d xs i = (if i < length xs then (case xs ! i of Live x \<Rightarrow> x | Destroyed \<Rightarrow> d) else d)"

definition is_live :: "'a object list \<Rightarrow> nat \<Rightarrow> bool" where
  "is_live xs i \<longleftrightarrow> i < length xs \<and> xs ! i \<noteq> Destroyed"

definition sys_view :: "sys \<Rightarrow> sync" where
  "sys_view w = \<lparr>m_live = is_live (sys_mutexes w), m_owner = the_live None (sys_mutexes w),
     c_live = is_live (sys_conds w), c_asleep = (\<lambda>c t. t \<in> set (the_live [] (sys_conds w) c)),
     s_live = sem_live (sys_sems w), s_count = sem_count (sys_sems w)\<rparr>"

subsection \<open>Mutexes, condition variables, threads\<close>

definition new_mutex :: "sys \<Rightarrow> int \<times> nat \<times> sys" where
  "new_mutex w =
     (case ask w of (e, w') \<Rightarrow>
        if e \<noteq> 0 then (e, 0, w')
        else (0, length (sys_mutexes w'), w'\<lparr>sys_mutexes := sys_mutexes w' @ [Live None]\<rparr>))"

definition set_mutex :: "nat \<Rightarrow> tid option object \<Rightarrow> sys \<Rightarrow> sys" where
  "set_mutex m x w = w\<lparr>sys_mutexes := (sys_mutexes w)[m := x]\<rparr>"

definition destroy_mutex :: "nat \<Rightarrow> sys \<Rightarrow> int \<times> sys" where
  "destroy_mutex m w = (0, set_mutex m Destroyed w)"

definition lock_mutex :: "tid \<Rightarrow> nat \<Rightarrow> sys \<Rightarrow> (int \<times> sys) option" where
  "lock_mutex t m w =
     (if \<not> is_live (sys_mutexes w) m then Some (EINVAL, w)
      else if the_live None (sys_mutexes w) m = None then Some (0, set_mutex m (Live (Some t)) w)
      else None)"

definition unlock_mutex :: "tid \<Rightarrow> nat \<Rightarrow> sys \<Rightarrow> int \<times> sys" where
  "unlock_mutex t m w =
     (if \<not> is_live (sys_mutexes w) m then (EINVAL, w)
      else if the_live None (sys_mutexes w) m = Some t then (0, set_mutex m (Live None) w)
      else (EPERM, w))"

definition new_cond :: "sys \<Rightarrow> int \<times> nat \<times> sys" where
  "new_cond w =
     (case ask w of (e, w') \<Rightarrow>
        if e \<noteq> 0 then (e, 0, w')
        else (0, length (sys_conds w'), w'\<lparr>sys_conds := sys_conds w' @ [Live []]\<rparr>))"

definition set_cond :: "nat \<Rightarrow> tid list object \<Rightarrow> sys \<Rightarrow> sys" where
  "set_cond c x w = w\<lparr>sys_conds := (sys_conds w)[c := x]\<rparr>"

definition destroy_cond :: "nat \<Rightarrow> sys \<Rightarrow> int \<times> sys" where
  "destroy_cond c w = (0, set_cond c Destroyed w)"

definition cond_sleep :: "tid \<Rightarrow> nat \<Rightarrow> nat \<Rightarrow> sys \<Rightarrow> sys" where
  "cond_sleep t c m w =
     (if is_live (sys_conds w) c
      then set_cond c (Live (t # the_live [] (sys_conds w) c)) (snd (unlock_mutex t m w)) else w)"

definition cond_resume :: "tid \<Rightarrow> nat \<Rightarrow> nat \<Rightarrow> sys \<Rightarrow> (int \<times> sys) option" where
  "cond_resume t c m w =
     (if t \<in> set (the_live [] (sys_conds w) c) then None else lock_mutex t m w)"

text \<open>One sleeper is woken, whichever; a spurious wake-up wakes a given one.\<close>

definition cond_signal :: "nat \<Rightarrow> sys \<Rightarrow> int \<times> sys" where
  "cond_signal c w =
     (if \<not> is_live (sys_conds w) c then (EINVAL, w)
      else (case the_live [] (sys_conds w) c of
              [] \<Rightarrow> (0, w)
            | t # ts \<Rightarrow> (0, set_cond c (Live (removeAll t ts)) w)))"

definition cond_wake :: "nat \<Rightarrow> tid \<Rightarrow> sys \<Rightarrow> sys" where
  "cond_wake c t w =
     (if is_live (sys_conds w) c then set_cond c (Live (removeAll t (the_live [] (sys_conds w) c))) w else w)"

definition new_thread :: "thread_attr \<Rightarrow> nat \<Rightarrow> sys \<Rightarrow> int \<times> nat \<times> sys" where
  "new_thread attr data w =
     (case ask w of (e, w') \<Rightarrow>
        if e \<noteq> 0 then (e, 0, w')
        else (0, length (sys_threads w') + 1, w'\<lparr>sys_threads := sys_threads w' @ [Running]\<rparr>))"

text \<open>
  The handle of thread \<open>i\<close> is \<open>i + 1\<close>; joining waits for the end of the thread and removes it. A
  thread ends when its function returns.
\<close>

definition thread_at :: "sys \<Rightarrow> nat \<Rightarrow> thread_state" where
  "thread_at w h = (if h = 0 \<or> length (sys_threads w) < h then NoThread else sys_threads w ! (h - 1))"

definition set_thread :: "nat \<Rightarrow> thread_state \<Rightarrow> sys \<Rightarrow> sys" where
  "set_thread h st w = w\<lparr>sys_threads := (sys_threads w)[h - 1 := st]\<rparr>"

definition join_thread :: "nat \<Rightarrow> sys \<Rightarrow> (int \<times> sys) option" where
  "join_thread h w =
     (case thread_at w h of
        NoThread \<Rightarrow> Some (EINVAL, w)
      | Running \<Rightarrow> None
      | Ended \<Rightarrow> Some (0, set_thread h NoThread w))"

definition finish_thread :: "nat \<Rightarrow> sys \<Rightarrow> sys" where
  "finish_thread h w = (if thread_at w h = Running then set_thread h Ended w else w)"

definition c_pthread :: "sys pthread_api" where
  "c_pthread =
     \<lparr>pthread_mutex_init = new_mutex, pthread_mutex_destroy = destroy_mutex,
      pthread_mutex_lock = lock_mutex, pthread_mutex_unlock = unlock_mutex,
      pthread_cond_init = new_cond, pthread_cond_destroy = destroy_cond,
      pthread_cond_sleep = cond_sleep, pthread_cond_resume = cond_resume,
      pthread_cond_signal = cond_signal, pthread_create = new_thread, pthread_join = join_thread\<rparr>"

subsection \<open>Semaphores\<close>

definition posix_sem_open :: "string \<Rightarrow> sys \<Rightarrow> (int + nat) \<times> sys" where
  "posix_sem_open name w =
     (case ask w of (e, w') \<Rightarrow>
        (case sem_open_creat name e (sys_sems w') of (r, s) \<Rightarrow> (r, w'\<lparr>sys_sems := s\<rparr>)))"

definition posix_sem_unlink :: "string \<Rightarrow> sys \<Rightarrow> int \<times> sys" where
  "posix_sem_unlink name w = (0, w\<lparr>sys_sems := sem_unlink name (sys_sems w)\<rparr>)"

definition post :: "nat \<Rightarrow> sys \<Rightarrow> int \<times> sys" where
  "post h w = (0, w\<lparr>sys_sems := sem_post h (sys_sems w)\<rparr>)"

definition take_post :: "nat \<Rightarrow> sys \<Rightarrow> (int \<times> sys) option" where
  "take_post h w = map_option (\<lambda>s. (0, w\<lparr>sys_sems := s\<rparr>)) (sem_wait h (sys_sems w))"

definition new_unnamed :: "sys \<Rightarrow> int \<times> nat \<times> sys" where
  "new_unnamed w =
     (case ask w of (e, w') \<Rightarrow>
        if e \<noteq> 0 then (e, 0, w')
        else (case fresh_sem (sys_sems w') of (h, s) \<Rightarrow> (0, h, w'\<lparr>sys_sems := s\<rparr>)))"

text \<open>Closing or destroying a semaphore ends its use and changes no count.\<close>

definition c_named_sems :: "sys named_sem_api" where
  "c_named_sems = \<lparr>api_sem_unlink = posix_sem_unlink, api_sem_open = posix_sem_open,
     api_sem_close = (\<lambda>h w. (0, w)), api_sem_wait = take_post, api_sem_post = post\<rparr>"

definition cobalt_sems :: "sys cobalt_sem_api" where
  "cobalt_sems = \<lparr>cobalt_sem_init = new_unnamed, cobalt_sem_destroy = (\<lambda>h w. (0, w)),
     cobalt_sem_wait = take_post, cobalt_sem_post = post\<rparr>"

text \<open>EVL: a refusal is a negative number; opening an element gives the element back.\<close>

definition negated :: "int \<times> nat \<times> sys \<Rightarrow> int \<times> nat \<times> sys" where
  "negated r = (case r of (e, h, w) \<Rightarrow> (if e \<noteq> 0 then - \<bar>e\<bar> else 3, h, w))"

definition reopen :: "nat \<Rightarrow> string \<Rightarrow> sys \<Rightarrow> int \<times> nat \<times> sys" where
  "reopen h name w = (case ask w of (e, w') \<Rightarrow> (if e \<noteq> 0 then - \<bar>e\<bar> else 4, h, w'))"

definition evl_lib :: "sys evl_api" where
  "evl_lib =
     \<lparr>evl_new_mutex = (\<lambda>name w. negated (new_mutex w)), evl_open_mutex = reopen,
      evl_close_mutex = destroy_mutex, evl_lock_mutex = lock_mutex, evl_unlock_mutex = unlock_mutex,
      evl_new_event = (\<lambda>name w. negated (new_cond w)), evl_open_event = reopen,
      evl_close_event = destroy_cond, evl_wait_event_sleep = cond_sleep,
      evl_wait_event_resume = cond_resume, evl_signal_event = cond_signal,
      evl_new_sem = (\<lambda>name w. negated (new_unnamed w)), evl_open_sem = reopen,
      evl_close_sem = (\<lambda>h w. (0, w)), evl_get_sem = take_post, evl_put_sem = post\<rparr>"

subsection \<open>The three helpers on this world\<close>

definition helper_of :: "thread_type \<Rightarrow> sys thread_helper" where
  "helper_of type =
     (case type of
        PTHREAD \<Rightarrow> PosixThreadHelper c_pthread c_named_sems
      | COBALT \<Rightarrow> CobaltThreadHelper c_pthread cobalt_sems
      | EVL \<Rightarrow> EvlThreadHelper evl_lib c_pthread ''1234'')"

subsection \<open>The helpers meet the contract\<close>

lemma the_live_update:
  "is_live xs i \<Longrightarrow> the_live d (xs[i := Live x]) = (the_live d xs)(i := x)"
  by (auto simp: the_live_def is_live_def fun_eq_iff nth_list_update)

lemma is_live_update: "is_live xs i \<Longrightarrow> is_live (xs[i := Live x]) = is_live xs"
  by (auto simp: is_live_def fun_eq_iff nth_list_update)

lemma is_live_append: "is_live (xs @ [Live x]) i \<longleftrightarrow> is_live xs i \<or> i = length xs"
  by (auto simp: is_live_def nth_append)

lemma the_live_append: "the_live d (xs @ [Live x]) i = (if i = length xs then x else the_live d xs i)"
  by (auto simp: the_live_def nth_append)

lemma is_live_destroy: "is_live (xs[i := Destroyed]) j \<longleftrightarrow> is_live xs j \<and> j \<noteq> i"
  by (cases "j = i") (auto simp: is_live_def)

lemma the_live_destroy: "j \<noteq> i \<Longrightarrow> the_live d (xs[i := Destroyed]) j = the_live d xs j"
  by (auto simp: the_live_def nth_list_update)

lemma not_is_live_length [simp]: "\<not> is_live xs (length xs)"
  by (simp add: is_live_def)

lemma view_set_mutex: "is_live (sys_mutexes w) m \<Longrightarrow> sys_view (set_mutex m (Live t) w) = set_owner m t (sys_view w)"
  by (simp add: sys_view_def set_mutex_def set_owner_def the_live_update is_live_update)

lemma view_set_cond:
  "is_live (sys_conds w) c \<Longrightarrow>
   sys_view (set_cond c (Live ts) w) = (sys_view w)\<lparr>c_asleep := (c_asleep (sys_view w))(c := (\<lambda>t. t \<in> set ts))\<rparr>"
  by (auto simp: sys_view_def set_cond_def the_live_update is_live_update fun_eq_iff)

lemma ask_frame: "ask w = (e, w') \<Longrightarrow> sys_view w' = sys_view w \<and> sys_mutexes w' = sys_mutexes w \<and>
   sys_conds w' = sys_conds w \<and> sys_sems w' = sys_sems w"
  by (auto simp: ask_def sys_view_def split: list.splits)

lemma view_simps:
  "m_live (sys_view w) = is_live (sys_mutexes w)" "m_owner (sys_view w) = the_live None (sys_mutexes w)"
  "c_live (sys_view w) = is_live (sys_conds w)" "c_asleep (sys_view w) c t = (t \<in> set (the_live [] (sys_conds w) c))"
  "s_live (sys_view w) = sem_live (sys_sems w)" "s_count (sys_view w) = sem_count (sys_sems w)"
  by (simp_all add: sys_view_def)

lemma new_mutex_ok:
  assumes "new_mutex w = (res, m, w')"
  shows "keeps (sys_view w) (sys_view w') \<and>
    (res = 0 \<longrightarrow> \<not> m_live (sys_view w) m \<and> m_live (sys_view w') m \<and> m_owner (sys_view w') m = None)"
  using assms
  by (auto simp: new_mutex_def is_live_append the_live_append keeps_def view_simps dest!: ask_frame
      split: prod.splits if_splits)

lemma new_cond_ok:
  assumes "new_cond w = (res, c, w')"
  shows "keeps (sys_view w) (sys_view w') \<and>
    (res = 0 \<longrightarrow> \<not> c_live (sys_view w) c \<and> c_live (sys_view w') c \<and> (\<forall>t. \<not> c_asleep (sys_view w') c t))"
  using assms
  by (auto simp: new_cond_def is_live_append the_live_append keeps_def view_simps fun_eq_iff dest!: ask_frame
      split: prod.splits if_splits)

lemma new_unnamed_ok:
  assumes "new_unnamed w = (res, h, w')"
  shows "keeps (sys_view w) (sys_view w') \<and>
    (res = 0 \<longrightarrow> \<not> s_live (sys_view w) h \<and> s_live (sys_view w') h \<and> s_count (sys_view w') h = 0)"
  using assms
  by (auto simp: new_unnamed_def fresh_sem_def keeps_def view_simps sem_live_def sem_count_def nth_append fun_eq_iff
      dest!: ask_frame split: prod.splits if_splits)

lemma posix_create_ok:
  assumes "posix_semaphore_create c_named_sems name w = (res, h, w')"
  shows "keeps (sys_view w) (sys_view w') \<and>
    (res = 0 \<longrightarrow> \<not> s_live (sys_view w) h \<and> s_live (sys_view w') h \<and> s_count (sys_view w') h = 0)"
proof -
  let ?w = "w\<lparr>sys_sems := sem_unlink name (sys_sems w)\<rparr>"
  obtain e v where a: "ask ?w = (e, v)" by fastforce
  have f: "sys_mutexes v = sys_mutexes w" "sys_conds v = sys_conds w" "sys_sems v = sem_unlink name (sys_sems w)"
    using ask_frame [OF a] by auto
  show ?thesis
  proof (cases "e = 0")
    case True
    have "posix_semaphore_create c_named_sems name w = (0, length (sem_counts (sys_sems w)),
        v\<lparr>sys_sems := snd (sem_open_creat name 0 (sem_unlink name (sys_sems w)))\<rparr>)"
      using a f True
      by (simp add: posix_semaphore_create_def c_named_sems_def posix_sem_unlink_def posix_sem_open_def unlink_then_open)
    then show ?thesis using assms f
      by (auto simp: keeps_def view_simps unlink_then_open sem_live_def sem_count_def nth_append fun_eq_iff)
  next
    case False
    then have "posix_semaphore_create c_named_sems name w = (e, 0, v)"
      using a
      by (simp add: posix_semaphore_create_def c_named_sems_def posix_sem_unlink_def posix_sem_open_def sem_open_creat_def)
    then show ?thesis using assms f False
      by (auto simp: keeps_def view_simps sem_live_def sem_count_def)
  qed
qed

lemma negatedE:
  assumes "negated r = (e, h, w)"
  obtains e' where "r = (e', h, w)" "0 \<le> e \<longleftrightarrow> e' = 0"
  using assms by (cases r) (auto simp: negated_def split: if_splits)

lemma evl_creates_ok:
  "evl_mutex_create evl_lib tid name w = (res, m, w') \<Longrightarrow> keeps (sys_view w) (sys_view w') \<and>
    (res = 0 \<longrightarrow> \<not> m_live (sys_view w) m \<and> m_live (sys_view w') m \<and> m_owner (sys_view w') m = None)"
  "evl_condition_var_create evl_lib tid name w = (res, c, w') \<Longrightarrow> keeps (sys_view w) (sys_view w') \<and>
    (res = 0 \<longrightarrow> \<not> c_live (sys_view w) c \<and> c_live (sys_view w') c \<and> (\<forall>t. \<not> c_asleep (sys_view w') c t))"
  "evl_semaphore_create evl_lib tid name w = (res, h, w') \<Longrightarrow> keeps (sys_view w) (sys_view w') \<and>
    (res = 0 \<longrightarrow> \<not> s_live (sys_view w) h \<and> s_live (sys_view w') h \<and> s_count (sys_view w') h = 0)"
  unfolding evl_mutex_create_def evl_condition_var_create_def evl_semaphore_create_def evl_lib_def reopen_def
  by (auto split: prod.splits if_splits elim!: negatedE dest!: new_mutex_ok new_cond_ok new_unnamed_ok ask_frame)

lemma lock_mutex_view:
  "is_live (sys_mutexes w) m \<Longrightarrow> the_live None (sys_mutexes w) m = None \<Longrightarrow>
   \<exists>w'. lock_mutex t m w = Some (0, w') \<and> sys_view w' = set_owner m (Some t) (sys_view w)"
  by (simp add: lock_mutex_def view_set_mutex)

lemma unlock_mutex_view:
  "is_live (sys_mutexes w) m \<Longrightarrow> the_live None (sys_mutexes w) m = Some t \<Longrightarrow>
   \<exists>w'. unlock_mutex t m w = (0, w') \<and> sys_view w' = set_owner m None (sys_view w)"
  by (simp add: unlock_mutex_def view_set_mutex)

lemma set_mutex_conds [simp]: "sys_conds (set_mutex m x w) = sys_conds w" "sys_sems (set_mutex m x w) = sys_sems w"
  "sys_mutexes (set_cond c y w) = sys_mutexes w" "sys_sems (set_cond c y w) = sys_sems w"
  by (simp_all add: set_mutex_def set_cond_def)

lemma cond_sleep_view:
  "is_live (sys_mutexes w) m \<Longrightarrow> is_live (sys_conds w) c \<Longrightarrow> the_live None (sys_mutexes w) m = Some t \<Longrightarrow>
   sys_view (cond_sleep t c m w) = set_asleep c t True (set_owner m None (sys_view w))"
  by (auto simp: cond_sleep_def unlock_mutex_def view_set_cond view_set_mutex set_asleep_def view_simps fun_eq_iff)

lemma cond_signal_view:
  assumes c: "is_live (sys_conds w) c" and u: "\<And>u. u \<in> set (the_live [] (sys_conds w) c) \<Longrightarrow> u = t"
  shows "\<exists>w'. cond_signal c w = (0, w') \<and> sys_view w' = set_asleep c t False (sys_view w)"
proof (cases "the_live [] (sys_conds w) c")
  case Nil
  then have "sys_view w = set_asleep c t False (sys_view w)"
    by (auto simp: set_asleep_def sys_view_def fun_eq_iff)
  then show ?thesis using Nil c by (simp add: cond_signal_def)
next
  case (Cons v ts)
  have "v = t" "set (removeAll t ts) = {}" using u Cons by auto
  then show ?thesis using Cons c
    by (auto simp: cond_signal_def view_set_cond set_asleep_def view_simps fun_eq_iff)
qed

lemma cond_wake_view: "is_live (sys_conds w) c \<Longrightarrow> sys_view (cond_wake c t w) = set_asleep c t False (sys_view w)"
  by (auto simp: cond_wake_def view_set_cond set_asleep_def view_simps fun_eq_iff)

lemma view_set_sems: "sem_live s = sem_live (sys_sems w) \<Longrightarrow> sem_count s = (sem_count (sys_sems w))(h := n) \<Longrightarrow>
   sys_view (w\<lparr>sys_sems := s\<rparr>) = set_count h n (sys_view w)"
  by (simp add: sys_view_def set_count_def)

lemma post_view:
  "sem_live (sys_sems w) h \<Longrightarrow>
   \<exists>w'. post h w = (0, w') \<and> sys_view w' = set_count h (sem_count (sys_sems w) h + 1) (sys_view w)"
  by (auto simp: post_def intro!: view_set_sems)
    (auto simp: sem_post_def sem_live_def sem_count_def fun_eq_iff nth_list_update)

lemma take_post_view:
  "sem_live (sys_sems w) h \<Longrightarrow> sem_count (sys_sems w) h = 0 \<Longrightarrow> take_post h w = None"
  "sem_live (sys_sems w) h \<Longrightarrow> 0 < sem_count (sys_sems w) h \<Longrightarrow>
   \<exists>w'. take_post h w = Some (0, w') \<and> sys_view w' = set_count h (sem_count (sys_sems w) h - 1) (sys_view w)"
  by (auto simp: take_post_def sem_wait_def sem_count_def intro!: view_set_sems)
    (auto simp: sem_live_def sem_count_def fun_eq_iff nth_list_update)

lemma destroy_keeps:
  "keeps ((sys_view w)\<lparr>m_live := (m_live (sys_view w))(m := False)\<rparr>) (sys_view (set_mutex m Destroyed w))"
  "keeps ((sys_view w)\<lparr>c_live := (c_live (sys_view w))(c := False)\<rparr>) (sys_view (set_cond c Destroyed w))"
  "keeps ((sys_view w)\<lparr>s_live := (s_live (sys_view w))(h := False)\<rparr>) (sys_view w)"
  "keeps ((sys_view w)\<lparr>s_live := (s_live (sys_view w))(h := False)\<rparr>) (sys_view (w\<lparr>sys_sems := sem_unlink name (sys_sems w)\<rparr>))"
  by (auto simp: keeps_def view_simps is_live_destroy the_live_destroy set_mutex_def set_cond_def sem_live_def
      sem_count_def sem_unlink_def fun_eq_iff)

lemmas helper_defs =
  helper_of_def PosixThreadHelper_def CobaltThreadHelper_def EvlThreadHelper_def
  c_pthread_def cobalt_sems_def

lemma c_named_simps: "api_sem_wait c_named_sems = take_post" "api_sem_post c_named_sems = post"
  by (simp_all add: c_named_sems_def)

lemma evl_simps:
  "evl_close_mutex evl_lib = destroy_mutex" "evl_lock_mutex evl_lib = lock_mutex"
  "evl_unlock_mutex evl_lib = unlock_mutex" "evl_close_event evl_lib = destroy_cond"
  "evl_wait_event_sleep evl_lib = cond_sleep" "evl_wait_event_resume evl_lib = cond_resume"
  "evl_signal_event evl_lib = cond_signal" "evl_close_sem evl_lib = (\<lambda>h w. (0, w))"
  "evl_get_sem evl_lib = take_post" "evl_put_sem evl_lib = post"
  by (simp_all add: evl_lib_def)

lemma helper_ops:
  "mutex_lock (helper_of type) = lock_mutex" "mutex_unlock (helper_of type) = unlock_mutex"
  "mutex_destroy (helper_of type) = destroy_mutex" "condition_var_destroy (helper_of type) = destroy_cond"
  "condition_sleep (helper_of type) = cond_sleep" "condition_resume (helper_of type) = cond_resume"
  "condition_signal (helper_of type) = cond_signal"
  "semaphore_wait (helper_of type) = take_post" "semaphore_signal (helper_of type) = post"
  by (cases type; simp add: helper_defs c_named_simps evl_simps)+

lemma helper_mutex_create:
  "mutex_create (helper_of type) name w = (res, m, w') \<Longrightarrow> keeps (sys_view w) (sys_view w') \<and>
    (res = 0 \<longrightarrow> \<not> m_live (sys_view w) m \<and> m_live (sys_view w') m \<and> m_owner (sys_view w') m = None)"
  by (cases type) (auto simp: helper_defs dest: new_mutex_ok evl_creates_ok)

lemma helper_cond_create:
  "condition_var_create (helper_of type) name w = (res, c, w') \<Longrightarrow> keeps (sys_view w) (sys_view w') \<and>
    (res = 0 \<longrightarrow> \<not> c_live (sys_view w) c \<and> c_live (sys_view w') c \<and> (\<forall>t. \<not> c_asleep (sys_view w') c t))"
  by (cases type) (auto simp: helper_defs dest: new_cond_ok evl_creates_ok)

lemma helper_sem_create:
  "semaphore_create (helper_of type) name w = (res, h, w') \<Longrightarrow> keeps (sys_view w) (sys_view w') \<and>
    (res = 0 \<longrightarrow> \<not> s_live (sys_view w) h \<and> s_live (sys_view w') h \<and> s_count (sys_view w') h = 0)"
  by (cases type) (auto simp: helper_defs dest: posix_create_ok new_unnamed_ok evl_creates_ok)

lemma helper_sem_destroy:
  "semaphore_destroy (helper_of type) h name w = (res, w') \<Longrightarrow>
    keeps ((sys_view w)\<lparr>s_live := (s_live (sys_view w))(h := False)\<rparr>) (sys_view w')"
  by (cases type)
    (auto simp: helper_defs posix_semaphore_destroy_def c_named_sems_def posix_sem_unlink_def evl_simps destroy_keeps)

interpretation sys_helper: helper_contract "helper_of type" sys_view cond_wake for type
proof (unfold_locales, goal_cases)
  case (4 w m t)
  then show ?case by (simp add: helper_ops lock_mutex_def view_simps)
next
  case (11 w m c t)
  then show ?case by (auto simp: helper_ops cond_resume_def lock_mutex_def view_simps)
next
  case (12 w m c t)
  then show ?case using lock_mutex_view [of w m t] by (auto simp: helper_ops cond_resume_def view_simps view_set_mutex)
next
  case 17
  then show ?case by (elim helper_sem_destroy)
next
  case (18 w h)
  then show ?case using take_post_view(1) [of w h] by (simp add: helper_ops view_simps)
next
  case (19 w h)
  then show ?case using take_post_view(2) [of w h] by (simp add: helper_ops view_simps)
next
  case (20 w h)
  then show ?case using post_view [of w h] by (simp add: helper_ops view_simps)
qed (auto simp: helper_ops view_simps destroy_mutex_def destroy_cond_def lock_mutex_view unlock_mutex_view
      cond_sleep_view cond_wake_view
      dest: helper_mutex_create helper_cond_create helper_sem_create
      intro!: cond_signal_view destroy_keeps [unfolded view_simps])

subsection \<open>Threads\<close>

lemma helper_threads: "thread_create (helper_of type) = new_thread" "thread_join (helper_of type) = join_thread"
  by (cases type; simp add: helper_defs)+

lemma threads_frame:
  "sys_threads w' = sys_threads w \<Longrightarrow> thread_at w' = thread_at w"
  by (simp add: thread_at_def fun_eq_iff)

lemma set_thread_at:
  "thread_at w h \<noteq> NoThread \<Longrightarrow> thread_at (set_thread h st w) = (thread_at w)(h := st)"
  by (auto simp: thread_at_def set_thread_def fun_eq_iff nth_list_update split: if_splits)

lemma set_thread_view: "sys_view (set_thread h st w) = sys_view w"
  by (simp add: set_thread_def sys_view_def)

lemma new_thread_ok:
  assumes "new_thread attr data w = (res, h, w')"
  shows "sys_view w' = sys_view w" and "res \<noteq> 0 \<Longrightarrow> thread_at w' = thread_at w"
    and "res = 0 \<Longrightarrow> h \<noteq> 0 \<and> thread_at w h = NoThread \<and> thread_at w' = (thread_at w)(h := Running)"
  using assms
  by (auto simp: new_thread_def ask_def thread_at_def sys_view_def fun_eq_iff nth_append
      split: prod.splits if_splits list.splits)

lemma sync_threads [simp]:
  "sys_threads (set_mutex m x w) = sys_threads w" "sys_threads (set_cond c y w) = sys_threads w"
  "sys_threads (snd (unlock_mutex t m w)) = sys_threads w" "sys_threads (snd (ask w)) = sys_threads w"
  by (auto simp: set_mutex_def set_cond_def unlock_mutex_def ask_def split: list.splits)

lemma lock_mutex_threads: "lock_mutex t m w = Some (res, w') \<Longrightarrow> sys_threads w' = sys_threads w"
  by (auto simp: lock_mutex_def split: if_splits)

lemma take_post_threads: "take_post h w = Some (res, w') \<Longrightarrow> sys_threads w' = sys_threads w"
  by (auto simp: take_post_def)

lemma op_threads:
  "sys_threads (cond_sleep t c m w) = sys_threads w" "sys_threads (snd (cond_signal c w)) = sys_threads w"
  "sys_threads (cond_wake c t w) = sys_threads w" "sys_threads (snd (post h w)) = sys_threads w"
  by (auto simp: cond_sleep_def cond_signal_def cond_wake_def post_def split: list.splits)

lemma ask_threads: "ask w = (e, w') \<Longrightarrow> sys_threads w' = sys_threads w"
  by (auto simp: ask_def split: list.splits)

lemma new_threads:
  "new_mutex w = (res, x, w') \<Longrightarrow> sys_threads w' = sys_threads w"
  "new_cond w = (res, x, w') \<Longrightarrow> sys_threads w' = sys_threads w"
  "new_unnamed w = (res, x, w') \<Longrightarrow> sys_threads w' = sys_threads w"
  by (auto simp: new_mutex_def new_cond_def new_unnamed_def split: prod.splits if_splits dest!: ask_threads)

lemma sys_create_threads:
  "mutex_create (helper_of type) name w = (res, x, w') \<Longrightarrow> sys_threads w' = sys_threads w"
  "condition_var_create (helper_of type) name w = (res, x, w') \<Longrightarrow> sys_threads w' = sys_threads w"
  "semaphore_create (helper_of type) name w = (res, x, w') \<Longrightarrow> sys_threads w' = sys_threads w"
  by (cases type;
      auto simp: helper_defs evl_mutex_create_def evl_condition_var_create_def evl_semaphore_create_def evl_lib_def
        reopen_def posix_semaphore_create_def c_named_sems_def posix_sem_unlink_def posix_sem_open_def
        split: prod.splits if_splits sum.splits elim!: negatedE dest!: new_threads ask_threads)+

lemma sys_destroy_threads:
  "mutex_destroy (helper_of type) x w = (res, w') \<Longrightarrow> sys_threads w' = sys_threads w"
  "condition_var_destroy (helper_of type) x w = (res, w') \<Longrightarrow> sys_threads w' = sys_threads w"
  "semaphore_destroy (helper_of type) x name w = (res, w') \<Longrightarrow> sys_threads w' = sys_threads w"
  by (cases type;
      auto simp: helper_defs evl_simps posix_semaphore_destroy_def c_named_sems_def posix_sem_unlink_def
        destroy_mutex_def destroy_cond_def)+

interpretation sys_helper_threads: thread_contract "helper_of type" sys_view cond_wake thread_at finish_thread for type
proof (unfold_locales, goal_cases)
  case (1 attr data w h w')
  then show ?case using new_thread_ok [of attr data w 0 h w'] by (simp add: helper_threads)
next
  case (2 attr data w res h w')
  then show ?case using new_thread_ok [of attr data w res h w'] by (simp add: helper_threads)
next
  case (4 w h)
  then show ?case by (simp add: helper_threads join_thread_def set_thread_at set_thread_view)
next
  case (14 name w res x w')
  then show ?case by (elim disjE) (rule threads_frame, erule sys_create_threads)+
next
  case (15 x w res w' name)
  then show ?case by (elim disjE) (rule threads_frame, erule sys_destroy_threads)+
next
  case (6 m t w res w')
  then show ?case by (auto simp: helper_ops intro: threads_frame lock_mutex_threads)
next
  case (9 t c m w res w')
  then show ?case by (auto simp: helper_ops cond_resume_def intro: threads_frame lock_mutex_threads split: if_splits)
next
  case (12 h w res w')
  then show ?case by (auto simp: helper_ops intro: threads_frame take_post_threads)
next
  case (3 w h)
  then show ?case by (simp add: helper_threads join_thread_def)
next
  case (5 w h)
  then show ?case by (simp add: finish_thread_def set_thread_at set_thread_view)
qed (rule threads_frame, simp add: helper_ops op_threads)+

end
