(* ===== verification/Isolated_Cpus.thy ===== *)
theory Isolated_Cpus
  imports Twine_Types
begin

text \<open>
  The core lists of \<open>src/worker_pool_implementation.h\<close>: \<open>build_core_list\<close>, the parser of
  the kernel's list of isolated cpus, and \<open>get_isolated_cpus\<close>, with \<open>std::stoi\<close> as the C++
  standard describes it. Exceptions are the values \<open>Inl\<close> of \<open>std_exn\<close>; the loops over
  \<open>int\<close> write out signed overflow.
\<close>

subsection \<open>std::stoi\<close>

datatype std_exn = invalid_argument | out_of_range

definition is_space :: "char \<Rightarrow> bool" where
  "is_space c = (let n = of_char c :: nat in n = 32 \<or> (9 \<le> n \<and> n \<le> 13))"

definition is_digit :: "char \<Rightarrow> bool" where
  "is_digit c = (let n = of_char c :: nat in 48 \<le> n \<and> n \<le> 57)"

definition digit_value :: "char \<Rightarrow> int" where
  "digit_value c = of_char c - 48"

definition digits_value :: "string \<Rightarrow> int" where
  "digits_value ds = foldl (\<lambda>v d. 10 * v + digit_value d) 0 ds"

definition stoi :: "string \<Rightarrow> std_exn + int" where
  "stoi str =
     (let t = dropWhile is_space str;
          neg = (t \<noteq> [] \<and> hd t = CHR ''-'');
          u = (if t \<noteq> [] \<and> (hd t = CHR ''-'' \<or> hd t = CHR ''+'') then tl t else t);
          ds = takeWhile is_digit u;
          v = (if neg then - digits_value ds else digits_value ds)
      in if ds = [] then Inl invalid_argument
         else if v < INT_MIN \<or> INT_MAX < v then Inl out_of_range
         else Inr v)"

lemma stoi_range: "stoi str = Inr v \<Longrightarrow> INT_MIN \<le> v \<and> v \<le> INT_MAX"
  by (auto simp: stoi_def Let_def split: if_splits)

subsection \<open>build_core_list\<close>

function core_loop :: "int \<Rightarrow> int \<Rightarrow> cpu_info list \<Rightarrow> cpu_info list" where
  "core_loop i end_core list =
     (if i < end_core
      then core_loop (i + 1) end_core (list @ [\<lparr>cpu_id_of = i, cpu_workers = 0\<rparr>])
      else list)"
  by pat_completeness auto
termination
  by (relation "measure (\<lambda>(i, n, xs). nat (n - i))") auto

declare core_loop.simps [simp del]

text \<open>The bound \<open>cores + start_core\<close> is an \<open>int\<close> sum.\<close>

definition build_core_list :: "int \<Rightarrow> int \<Rightarrow> ub + cpu_info list" where
  "build_core_list start_core cores =
     (if cores + start_core < INT_MIN \<or> INT_MAX < cores + start_core then Inl SignedOverflow
      else Inr (core_loop start_core (cores + start_core) []))"

subsection \<open>read_isolated_cores\<close>

text \<open>
  \<open>for (int i = first; i <= last; ++i) list.push_back(i)\<close>: with \<open>last = INT_MAX\<close> the
  increment overflows after the last element.
\<close>

function range_loop :: "int \<Rightarrow> int \<Rightarrow> int list \<Rightarrow> ub + int list" where
  "range_loop i n list =
     (if i \<le> n
      then (if i = INT_MAX then Inl SignedOverflow else range_loop (i + 1) n (list @ [i]))
      else Inr list)"
  by pat_completeness auto
termination
  by (relation "measure (\<lambda>(i, n, xs). nat (n + 1 - i))") auto

declare range_loop.simps [simp del]

fun find_char :: "char \<Rightarrow> string \<Rightarrow> nat option" where
  "find_char c [] = None"
| "find_char c (d # ds) = (if d = c then Some 0 else map_option Suc (find_char c ds))"

definition read_isolated_cores :: "string \<Rightarrow> ub + int list" where
  "read_isolated_cores str =
     (case find_char (CHR ''-'') str of
        None \<Rightarrow> Inr []
      | Some sep \<Rightarrow>
          (case stoi (take sep str) of
             Inl _ \<Rightarrow> Inr []
           | Inr first \<Rightarrow>
               (case stoi (drop (sep + 1) str) of
                  Inl _ \<Rightarrow> Inr []
                | Inr last_id \<Rightarrow> range_loop first last_id [])))"

subsection \<open>get_isolated_cpus\<close>

text \<open>
  The file is what opening it gives: nothing if it cannot be opened, or else its contents,
  of which \<open>std::getline\<close> takes the first line.
\<close>

definition getline :: "string \<Rightarrow> string" where
  "getline contents = takeWhile (\<lambda>c. of_char c \<noteq> (10::nat)) contents"

definition get_isolated_cpus :: "string option \<Rightarrow> int \<Rightarrow> ub + cpu_info list option" where
  "get_isolated_cpus cpu_file cores =
     (case cpu_file of
        None \<Rightarrow> Inr None
      | Some contents \<Rightarrow>
          (case read_isolated_cores (getline contents) of
             Inl u \<Rightarrow> Inl u
           | Inr info \<Rightarrow>
               if length info > 0 then
                 Inr (Some (map (\<lambda>i. \<lparr>cpu_id_of = info ! i, cpu_workers = 0\<rparr>)
                              [0 ..< nat (min (int (length info)) cores)]))
               else Inr None))"

text \<open>
  The core list of a pool (the constructor of \<open>WorkerPoolImpl\<close>): only the EVL build reads
  the isolated cpus, and only for EVL threads. The argument of \<open>value_or\<close> is evaluated in
  any case.
\<close>

definition initial_cores :: "bool \<Rightarrow> thread_type \<Rightarrow> string option \<Rightarrow> int \<Rightarrow> ub + cpu_info list" where
  "initial_cores evl_build type isolated_file cores =
     (if evl_build \<and> type = EVL then
        (case get_isolated_cpus isolated_file cores of
           Inl u \<Rightarrow> Inl u
         | Inr isolated \<Rightarrow>
             (case build_core_list 0 cores of
                Inl u \<Rightarrow> Inl u
              | Inr list \<Rightarrow> Inr (case isolated of Some cpus \<Rightarrow> cpus | None \<Rightarrow> list)))
      else build_core_list 0 cores)"

subsection \<open>The loops compute intervals\<close>

lemma core_loop_eq:
  "core_loop i n list = list @ map (\<lambda>k. \<lparr>cpu_id_of = k, cpu_workers = 0\<rparr>) [i .. n - 1]"
proof (induction i n list rule: core_loop.induct)
  case (1 i n list)
  show ?case
  proof (cases "i < n")
    case True
    with 1 have "core_loop (i + 1) n (list @ [\<lparr>cpu_id_of = i, cpu_workers = 0\<rparr>]) =
        (list @ [\<lparr>cpu_id_of = i, cpu_workers = 0\<rparr>])
          @ map (\<lambda>k. \<lparr>cpu_id_of = k, cpu_workers = 0\<rparr>) [i + 1 .. n - 1]"
      by simp
    with True show ?thesis
      by (simp add: core_loop.simps [of i n list] upto_rec1 [of i "n - 1"])
  next
    case False
    then show ?thesis by (simp add: core_loop.simps [of i n list])
  qed
qed

lemma range_loop_eq:
  "range_loop i n list = (if i \<le> n \<and> INT_MAX \<le> n \<and> i \<le> INT_MAX then Inl SignedOverflow else Inr (list @ [i .. n]))"
  if "n \<le> INT_MAX"
  using that
proof (induction i n list rule: range_loop.induct)
  case (1 i n list)
  show ?case
  proof (cases "i \<le> n \<and> i \<noteq> INT_MAX")
    case True
    with 1 have "range_loop (i + 1) n (list @ [i]) =
        (if i + 1 \<le> n \<and> INT_MAX \<le> n \<and> i + 1 \<le> INT_MAX then Inl SignedOverflow
         else Inr ((list @ [i]) @ [i + 1 .. n]))"
      by simp
    with True "1.prems" show ?thesis
      by (auto simp add: range_loop.simps [of i n list] upto_rec1 [of i n])
  next
    case False
    with "1.prems" show ?thesis by (auto simp: range_loop.simps [of i n list])
  qed
qed

lemma length_build_core_list:
  "build_core_list start cores = Inr list \<Longrightarrow> length list = nat cores"
  by (auto simp: build_core_list_def core_loop_eq split: if_splits)

subsection \<open>Decimal notation, as the kernel prints core numbers\<close>

fun dec :: "nat \<Rightarrow> string" where
  "dec n = (if n < 10 then [char_of (48 + n)] else dec (n div 10) @ [char_of (48 + n mod 10)])"

declare dec.simps [simp del]

lemma digit_char:
  assumes "d < 10"
  shows "is_digit (char_of (48 + d))" and "digit_value (char_of (48 + d)) = int d"
    and "\<not> is_space (char_of (48 + d))" and "char_of (48 + d) \<noteq> CHR ''-''"
    and "char_of (48 + d) \<noteq> CHR ''+''" and "of_char (char_of (48 + d)) \<noteq> (10::nat)"
proof -
  have n: "of_char (char_of (48 + d) :: char) = 48 + d" using assms by simp
  then show "is_digit (char_of (48 + d))" "\<not> is_space (char_of (48 + d))"
    "of_char (char_of (48 + d)) \<noteq> (10::nat)"
    using assms by (simp_all add: is_digit_def is_space_def)
  have "(of_char (char_of (48 + d) :: char) :: int) = int (of_char (char_of (48 + d) :: char))"
    by (simp only: of_nat_of_char)
  then show "digit_value (char_of (48 + d)) = int d"
    unfolding digit_value_def using n by simp
  show "char_of (48 + d) \<noteq> CHR ''-''" "char_of (48 + d) \<noteq> CHR ''+''"
    using n by (auto dest: arg_cong [where f = "of_char :: char \<Rightarrow> nat"])
qed

lemma dec_digits: "dec n \<noteq> [] \<and> (\<forall>c \<in> set (dec n). is_digit c \<and> \<not> is_space c \<and> c \<noteq> CHR ''-'' \<and> c \<noteq> CHR ''+'' \<and> of_char c \<noteq> (10::nat))"
proof (induction n rule: dec.induct)
  case (1 n)
  show ?case
  proof (cases "n < 10")
    case True
    then show ?thesis using digit_char [of n] by (auto simp: dec.simps [of n])
  next
    case False
    then show ?thesis
      using 1 digit_char [of "n mod 10"] by (auto simp: dec.simps [of n])
  qed
qed

lemma digits_value_snoc: "digits_value (ds @ [d]) = 10 * digits_value ds + digit_value d"
  by (simp add: digits_value_def)

lemma digits_value_dec: "digits_value (dec n) = int n"
proof (induction n rule: dec.induct)
  case (1 n)
  show ?case
  proof (cases "n < 10")
    case True
    then show ?thesis
      using digit_char(2) [of n] by (simp add: dec.simps [of n] digits_value_def)
  next
    case False
    have whole: "10 * int (n div 10) + int (n mod 10) = int n"
      by (metis mult_div_mod_eq of_nat_add of_nat_mult of_nat_numeral)
    from False show ?thesis
      using 1 digit_char(2) [of "n mod 10"] whole
      by (simp add: dec.simps [of n] digits_value_snoc)
  qed
qed

lemma stoi_dec:
  assumes "int n \<le> INT_MAX" and "rest = [] \<or> \<not> is_digit (hd rest)"
  shows "stoi (dec n @ rest) = Inr (int n)"
proof -
  obtain d ds where dds: "dec n = d # ds" using dec_digits [of n] by (cases "dec n") auto
  then have d: "\<not> is_space d" "d \<noteq> CHR ''-''" "d \<noteq> CHR ''+''"
    using dec_digits [of n] by auto
  have "takeWhile is_digit (dec n @ rest) = dec n"
    using dec_digits [of n] assms(2) by (cases rest) (auto simp: takeWhile_append)
  with d dds assms(1) digits_value_dec [of n] show ?thesis
    by (auto simp: stoi_def Let_def)
qed

lemma find_char_append:
  "c \<notin> set xs \<Longrightarrow> find_char c (xs @ c # ys) = Some (length xs)"
  by (induction xs) auto

lemma find_char_Some:
  "find_char c xs = Some n \<Longrightarrow> n < length xs \<and> c \<notin> set (take n xs)"
  by (induction xs arbitrary: n) (auto split: if_splits)

lemma find_char_None: "find_char c xs = None \<longleftrightarrow> c \<notin> set xs"
  by (induction xs) auto

lemma digits_value_nonneg: "\<forall>d \<in> set ds. is_digit d \<Longrightarrow> 0 \<le> digits_value ds"
proof (induction ds rule: rev_induct)
  case Nil
  then show ?case by (simp add: digits_value_def)
next
  case (snoc d ds)
  then have "0 \<le> digits_value ds" and "is_digit d" by auto
  moreover have "(of_char d :: int) = int (of_char d)" by (simp only: of_nat_of_char)
  ultimately show ?case
    by (simp add: digits_value_snoc digit_value_def is_digit_def Let_def)
qed

lemma stoi_nonneg:
  assumes "stoi str = Inr v" and "CHR ''-'' \<notin> set str"
  shows "0 \<le> v"
proof -
  have "CHR ''-'' \<notin> set (dropWhile is_space str)"
    using assms(2) set_dropWhileD by metis
  then have "\<not> (dropWhile is_space str \<noteq> [] \<and> hd (dropWhile is_space str) = CHR ''-'')"
    by (metis hd_in_set)
  moreover have "0 \<le> digits_value (takeWhile is_digit u)" for u
    by (rule digits_value_nonneg) (auto dest: set_takeWhileD)
  ultimately show ?thesis
    using assms(1) unfolding stoi_def Let_def by (auto split: if_splits)
qed

text \<open>The two ways the parser can end.\<close>

lemma read_isolated_cores_cases:
  obtains (list) lo hi where "read_isolated_cores str = Inr [lo .. hi]" "0 \<le> lo" "hi < INT_MAX"
  | (overflow) sep where "read_isolated_cores str = Inl SignedOverflow"
      "find_char (CHR ''-'') str = Some sep" "stoi (drop (sep + 1) str) = Inr INT_MAX"
proof (cases "\<exists>sep lo hi. find_char (CHR ''-'') str = Some sep \<and> stoi (take sep str) = Inr lo
    \<and> stoi (drop (sep + 1) str) = Inr hi")
  case False
  then have "read_isolated_cores str = Inr [0 .. -1]"
    by (auto simp: read_isolated_cores_def split: option.splits sum.splits)
  then show thesis by (rule list) simp_all
next
  case True
  then obtain sep lo hi where p: "find_char (CHR ''-'') str = Some sep" "stoi (take sep str) = Inr lo"
    "stoi (drop (sep + 1) str) = Inr hi" by blast
  then have b: "0 \<le> lo" "lo \<le> INT_MAX" "hi \<le> INT_MAX"
    using stoi_nonneg find_char_Some stoi_range by blast+
  have r: "read_isolated_cores str = range_loop lo hi []"
    using p by (simp add: read_isolated_cores_def)
  show thesis
  proof (cases "lo \<le> hi \<and> INT_MAX \<le> hi")
    case True
    then have "hi = INT_MAX" using b by simp
    then show thesis using overflow p r b by (simp add: range_loop_eq)
  next
    case False
    then have "read_isolated_cores str = Inr [lo .. hi]" using r b by (auto simp: range_loop_eq)
    moreover have "hi < INT_MAX" using False b by linarith
    ultimately show thesis using list b by blast
  qed
qed

lemma isolated_prefix:
  "map (\<lambda>i. \<lparr>cpu_id_of = info ! i, cpu_workers = 0\<rparr>) [0 ..< nat (min (int (length info)) cores)] =
   map (\<lambda>k. \<lparr>cpu_id_of = k, cpu_workers = 0\<rparr>) (take (nat cores) info)"
proof -
  have n: "nat (min (int (length info)) cores) = min (length info) (nat cores)" by linarith
  show ?thesis unfolding n by (rule nth_equalityI) auto
qed

lemma initial_cores_shape:
  assumes "0 \<le> cores" and "cores \<le> INT_MAX"
    and "initial_cores evl_build type isolated_file cores = Inr list"
  obtains ids where "list = map (\<lambda>k. \<lparr>cpu_id_of = k, cpu_workers = 0\<rparr>) ids" "distinct ids"
    "\<forall>k \<in> set ids. 0 \<le> k" "int (length ids) \<le> cores" "\<not> evl_build \<or> type \<noteq> EVL \<longrightarrow> ids = [0 .. cores - 1]"
proof -
  have all: "build_core_list 0 cores = Inr (map (\<lambda>k. \<lparr>cpu_id_of = k, cpu_workers = 0\<rparr>) [0 .. cores - 1])"
    using assms(1,2) by (simp add: build_core_list_def core_loop_eq)
  show thesis
  proof (cases "list = map (\<lambda>k. \<lparr>cpu_id_of = k, cpu_workers = 0\<rparr>) [0 .. cores - 1]")
    case True
    then show thesis using that [of "[0 .. cores - 1]"] assms(1) by simp
  next
    case False
    then obtain contents info where evl: "evl_build" "type = EVL" and c: "isolated_file = Some contents"
      and info: "read_isolated_cores (getline contents) = Inr info"
      and list: "list = map (\<lambda>k. \<lparr>cpu_id_of = k, cpu_workers = 0\<rparr>) (take (nat cores) info)"
      using assms(3) all
      by (auto simp: initial_cores_def get_isolated_cpus_def isolated_prefix split: if_splits sum.splits option.splits)
    have i: "distinct info" "set info \<subseteq> {0 ..< INT_MAX}"
      by (cases rule: read_isolated_cores_cases [of "getline contents"]; use info in force)+
    show thesis
    proof (rule that [OF list])
      show "\<forall>k \<in> set (take (nat cores) info). 0 \<le> k" using i(2) by (auto dest: in_set_takeD)
    qed (use i evl assms(1) in \<open>auto simp: distinct_take\<close>)
  qed
qed

subsection \<open>Properties\<close>

text \<open>
  C28. The parser reads back a range as the kernel prints it: for the text
  \<open>a-b\<close> (with anything that is no digit after \<open>b\<close>) it returns the cores from
  \<open>a\<close> to \<open>b\<close>, for every \<open>b\<close> below \<open>INT_MAX\<close>.
\<close>

theorem read_isolated_cores_range:
  assumes "int a \<le> INT_MAX" and "int b < INT_MAX" and "rest = [] \<or> \<not> is_digit (hd rest)"
  shows "read_isolated_cores (dec a @ CHR ''-'' # dec b @ rest) = Inr [int a .. int b]"
proof -
  have "find_char (CHR ''-'') (dec a @ CHR ''-'' # dec b @ rest) = Some (length (dec a))"
    using dec_digits [of a] by (intro find_char_append) auto
  moreover have "stoi (dec a) = Inr (int a)" using stoi_dec [of a "[]"] assms(1) by simp
  moreover have "stoi (dec b @ rest) = Inr (int b)" using stoi_dec [of b rest] assms(2,3) by simp
  ultimately show ?thesis
    using assms(2) by (simp add: read_isolated_cores_def range_loop_eq)
qed

theorem read_isolated_cores_range_witness:
  "read_isolated_cores ''0-3'' = Inr [0, 1, 2, 3] \<and> read_isolated_cores ''2-3x'' = Inr [2, 3]"
proof -
  have "read_isolated_cores (dec 0 @ CHR ''-'' # dec 3 @ []) = Inr [int 0 .. int 3]"
    by (rule read_isolated_cores_range) simp_all
  moreover have "read_isolated_cores (dec 2 @ CHR ''-'' # dec 3 @ ''x'') = Inr [int 2 .. int 3]"
    by (rule read_isolated_cores_range) (simp_all add: is_digit_def)
  moreover have "dec 0 = ''0''" "dec 2 = ''2''" "dec 3 = ''3''"
    by code_simp+
  ultimately show ?thesis by (simp add: upto_rec1)
qed

text \<open>
  C29. Whatever the text, the parser never throws: the exceptions of \<open>std::stoi\<close>
  become an empty list, and a list it returns is a run of consecutive core ids from 0 up to
  below \<open>INT_MAX\<close>, in order and without repetition. Its only other outcome is the signed
  overflow of the loop variable, and that occurs only when the upper bound is \<open>INT_MAX\<close>.
\<close>

theorem read_isolated_cores_total:
  "case read_isolated_cores str of
     Inr list \<Rightarrow> (\<exists>lo hi. list = [lo .. hi] \<and> 0 \<le> lo) \<and> distinct list
                  \<and> set list \<subseteq> {0 ..< INT_MAX}
   | Inl u \<Rightarrow> u = SignedOverflow
       \<and> (\<exists>sep. find_char (CHR ''-'') str = Some sep \<and> stoi (drop (sep + 1) str) = Inr INT_MAX)"
proof (cases rule: read_isolated_cores_cases [of str])
  case (list lo hi)
  moreover have "\<exists>lo' hi'. [lo .. hi] = [lo' .. hi'] \<and> 0 \<le> lo'" using list by blast
  ultimately show ?thesis by auto
next
  case (overflow sep)
  then show ?thesis by simp
qed

text \<open>
  \<open>get_isolated_cpus\<close> uses the first \<open>cores\<close> of the cores that the first line of
  the file names, each with no workers; it gives no list exactly when the file cannot be
  opened or names no core.
\<close>

theorem get_isolated_cpus_prefix:
  assumes "read_isolated_cores (getline contents) = Inr info"
  shows "get_isolated_cpus None cores = Inr None
       \<and> get_isolated_cpus (Some contents) cores =
           (if info = [] then Inr None
            else Inr (Some (map (\<lambda>k. \<lparr>cpu_id_of = k, cpu_workers = 0\<rparr>) (take (nat cores) info))))"
  using assms by (simp add: get_isolated_cpus_def isolated_prefix)

theorem get_isolated_cpus_prefix_witness:
  "get_isolated_cpus (Some (''2-5'' @ [char_of (10::nat)])) 2 =
     Inr (Some [\<lparr>cpu_id_of = 2, cpu_workers = 0\<rparr>, \<lparr>cpu_id_of = 3, cpu_workers = 0\<rparr>])"
proof -
  have "read_isolated_cores (getline (''2-5'' @ [char_of (10::nat)])) = Inr [2, 3, 4, 5]"
    by code_simp
  from get_isolated_cpus_prefix [OF this, of 2] show ?thesis by simp
qed

text \<open>
  C30. The core list of a new pool, for a number of cores that is not negative and fits
  \<open>int\<close>: every core starts with no workers, the ids are distinct and not negative, and
  there are at most \<open>cores\<close> of them, exactly \<open>cores\<close> (numbered from 0) unless the EVL
  build has found isolated cpus.
\<close>

theorem initial_cores_sound:
  assumes "0 \<le> cores" and "cores \<le> INT_MAX"
    and "initial_cores evl_build type isolated_file cores = Inr list"
  shows "(\<forall>c \<in> set list. cpu_workers c = 0 \<and> 0 \<le> cpu_id_of c)
       \<and> distinct (map cpu_id_of list) \<and> int (length list) \<le> cores
       \<and> (\<not> evl_build \<or> type \<noteq> EVL \<longrightarrow> map cpu_id_of list = [0 .. cores - 1])"
  by (rule initial_cores_shape [OF assms]) (auto simp: o_def)

theorem initial_cores_sound_witness:
  "initial_cores False PTHREAD None 2 =
     Inr [\<lparr>cpu_id_of = 0, cpu_workers = 0\<rparr>, \<lparr>cpu_id_of = 1, cpu_workers = 0\<rparr>]
   \<and> map cpu_id_of [\<lparr>cpu_id_of = 0, cpu_workers = 0\<rparr>, \<lparr>cpu_id_of = 1, cpu_workers = 0\<rparr>] = [0 .. 2 - 1]"
proof -
  have h: "initial_cores False PTHREAD None 2 =
     Inr [\<lparr>cpu_id_of = 0, cpu_workers = 0\<rparr>, \<lparr>cpu_id_of = 1, cpu_workers = 0\<rparr>]"
    by code_simp
  with initial_cores_sound [OF _ _ h] show ?thesis by simp
qed

text \<open>
  A list of several ranges, which the kernel writes with commas, is not understood: the
  core numbers before the first dash are read up to the comma, so a core that is not isolated
  is taken for an isolated one, and a single isolated core is not found at all.
\<close>

theorem read_isolated_cores_comma:
  "read_isolated_cores ''1,3-5'' = Inr [1, 2, 3, 4, 5] \<and> read_isolated_cores ''7'' = Inr []"
  by code_simp

end
