(* ===== verification/Worker_Pool.thy ===== *)
theory Worker_Pool
  imports Barrier Isolated_Cpus
begin

text \<open>
  \<open>WorkerThread\<close> and \<open>WorkerPoolImpl\<close> of \<open>src/worker_pool_implementation.h\<close> as one
  labelled transition system: the thread that owns the pool (the host, inside one of the
  pool's methods or between two calls) and the worker threads, interleaved at every step
  of the barrier. What the operating system answers (affinity, thread creation, the
  status a worker's Apple initialisation ends with) is part of the arguments of the call.
\<close>

subsection \<open>Worker threads\<close>

datatype worker_pc =
    WInit              \<comment> \<open>thread started: flags, denormals, \<open>_init_apple_thread\<close>\<close>
  | WWait wait_pc      \<comment> \<open>inside \<open>_barrier.wait()\<close>; \<open>WtRet\<close>: about to load \<open>_pool_running\<close>\<close>
  | WCheckThread       \<comment> \<open>about to load \<open>_thread_running\<close>\<close>
  | WCallback          \<comment> \<open>inside \<open>_callback\<close>\<close>
  | WExited            \<comment> \<open>left the loop; the thread can be joined\<close>

record worker =
  wpc :: worker_pc
  thread_running :: bool
  status :: apple_status               \<comment> \<open>\<open>_status\<close>\<close>
  init_write :: "apple_status option"  \<comment> \<open>what \<open>_init_apple_thread\<close> stores, if anything\<close>
  affinity :: int                      \<comment> \<open>the core the thread is bound to\<close>
  priority :: int
  born :: nat                          \<comment> \<open>history: releases before the thread was created\<close>
  calls :: nat                         \<comment> \<open>history: completed calls of the callback\<close>

definition worker_step :: "nat \<Rightarrow> bool \<Rightarrow> worker \<Rightarrow> barrier \<Rightarrow> (worker \<times> barrier) option" where
  "worker_step i pool_run w b =
     (case wpc w of
        WInit \<Rightarrow>
          Some (w\<lparr>status := (case init_write w of Some st \<Rightarrow> st | None \<Rightarrow> status w),
                  wpc := WWait WtLock\<rparr>, b)
      | WWait p \<Rightarrow>
          (if p = WtRet then Some (w\<lparr>wpc := (if \<not> pool_run then WExited else WCheckThread)\<rparr>, b)
           else (case wait_step i p b of
                   None \<Rightarrow> None
                 | Some (p', b') \<Rightarrow> Some (w\<lparr>wpc := WWait p'\<rparr>, b')))
      | WCheckThread \<Rightarrow>
          Some (w\<lparr>wpc := (if \<not> thread_running w then WExited else WCallback)\<rparr>, b)
      | WCallback \<Rightarrow> Some (w\<lparr>wpc := WWait WtLock, calls := calls w + 1\<rparr>, b)
      | WExited \<Rightarrow> None)"

subsection \<open>Starting a worker\<close>

record add_args =
  arg_priority :: int
  arg_cpu :: "int option"
  os_affinity :: int                  \<comment> \<open>result of \<open>pthread_attr_setaffinity_np\<close>\<close>
  os_create :: int                    \<comment> \<open>result of \<open>thread_create\<close>\<close>
  ctor_status :: apple_status         \<comment> \<open>\<open>_status\<close> after the constructor of the worker\<close>
  os_init :: "apple_status option"    \<comment> \<open>what the thread's initialisation stores\<close>

text \<open>\<open>WorkerThread::run\<close>: the thread exists afterwards exactly when the result is 0.\<close>

definition run_worker :: "add_args \<Rightarrow> int" where
  "run_worker a =
     (if arg_priority a < 0 \<or> arg_priority a > 100 then EINVAL
      else if os_affinity a = 0 then os_create a
      else os_affinity a)"

definition new_worker :: "add_args \<Rightarrow> int \<Rightarrow> nat \<Rightarrow> worker" where
  "new_worker a cpu ep =
     \<lparr>wpc = WInit, thread_running = True, status = ctor_status a, init_write = os_init a,
      affinity = cpu, priority = arg_priority a, born = ep, calls = 0\<rparr>"

subsection \<open>Choosing a core\<close>

text \<open>Iterators into the core list are indices; the length of the list is \<open>end()\<close>.\<close>

fun find_core :: "int \<Rightarrow> cpu_info list \<Rightarrow> nat" where
  "find_core k [] = 0"
| "find_core k (c # cs) = (if cpu_id_of c = k then 0 else Suc (find_core k cs))"

fun min_loop :: "cpu_info list \<Rightarrow> nat \<Rightarrow> nat \<Rightarrow> int \<Rightarrow> nat" where
  "min_loop [] i best least = best"
| "min_loop (c # cs) i best least =
     (if cpu_workers c < least then min_loop cs (Suc i) i (cpu_workers c)
      else min_loop cs (Suc i) best least)"

fun min_core :: "cpu_info list \<Rightarrow> nat" where
  "min_core [] = 0"
| "min_core (c # cs) = min_loop cs 1 0 (cpu_workers c)"

definition add_core_workers :: "nat \<Rightarrow> int \<Rightarrow> cpu_info list \<Rightarrow> cpu_info list" where
  "add_core_workers c d cs = cs[c := (cs ! c)\<lparr>cpu_workers := cpu_workers (cs ! c) + d\<rparr>]"

subsection \<open>The pool and the thread that owns it\<close>

text \<open>What a method does after the barrier call it is in.\<close>

datatype kont =
    KIdle                              \<comment> \<open>\<open>wait_for_workers_idle\<close> returns\<close>
  | KWakeup                            \<comment> \<open>\<open>wakeup_workers\<close> returns\<close>
  | KWakeWait                          \<comment> \<open>\<open>wakeup_and_wait\<close> returns\<close>
  | KAddRun add_args nat               \<comment> \<open>\<open>add_worker\<close>: count and start the worker\<close>
  | KAddRunFailed worker_pool_status   \<comment> \<open>\<open>add_worker\<close> returns the error of \<open>run\<close>\<close>
  | KAddIdle nat                       \<comment> \<open>\<open>add_worker\<close>: look at the worker's status\<close>
  | KAddStopped nat apple_status       \<comment> \<open>\<open>add_worker\<close>: \<open>_stop_thread\<close> has released\<close>
  | KAddShrunk nat apple_status        \<comment> \<open>\<open>add_worker\<close>: the barrier has been made smaller\<close>
  | KDtorStop                          \<comment> \<open>destructor: clear \<open>_running\<close>\<close>
  | KDtorJoin                          \<comment> \<open>destructor: join the workers\<close>

datatype ctl =
    Host                               \<comment> \<open>outside the methods of the pool\<close>
  | InBar call_pc kont
  | AddCount add_args nat              \<comment> \<open>\<open>core_info->workers++\<close>\<close>
  | AddExec add_args nat               \<comment> \<open>\<open>worker->run(...)\<close> and \<open>push_back\<close>\<close>
  | AddStatus nat                      \<comment> \<open>\<open>w->init_status() != OK\<close>\<close>
  | AddStop nat apple_status           \<comment> \<open>\<open>_thread_running.store(false)\<close>\<close>
  | AddShrink nat apple_status         \<comment> \<open>\<open>_no_workers--\<close>\<close>
  | AddUncount nat apple_status        \<comment> \<open>\<open>core_info->workers--\<close>\<close>
  | AddPop apple_status                \<comment> \<open>\<open>_workers.pop_back()\<close>, which joins\<close>
  | DtorFlag                           \<comment> \<open>\<open>_running.store(false)\<close>\<close>
  | DtorJoin nat                       \<comment> \<open>destruction of \<open>_workers\<close>, which joins\<close>
  | Gone                               \<comment> \<open>destroyed\<close>
  | Undefined ub

datatype call =
    AddWorker add_args | WaitForWorkersIdle | WakeupWorkers | WakeupAndWait | Destroy

record pool =
  bar :: barrier
  pool_running :: bool                 \<comment> \<open>\<open>_running\<close>\<close>
  no_workers :: int
  cores :: "cpu_info list"
  workers :: "worker list"
  ctl :: ctl
  ret :: "(worker_pool_status \<times> apple_status) option"   \<comment> \<open>last result of \<open>add_worker\<close>\<close>
  epoch :: nat                         \<comment> \<open>history: releases so far\<close>
  quiet :: bool                        \<comment> \<open>history: the host knows that all workers are idle\<close>

definition new_pool :: "cpu_info list \<Rightarrow> pool" where
  "new_pool cs = \<lparr>bar = new_barrier, pool_running = True, no_workers = 0, cores = cs,
     workers = [], ctl = Host, ret = None, epoch = 0, quiet = True\<rparr>"

definition core_info :: "pool \<Rightarrow> cpu_info list" where
  "core_info s = cores s"

definition aborted :: "pool \<Rightarrow> bool" where
  "aborted s \<longleftrightarrow> (case ctl s of InBar CAbort _ \<Rightarrow> True | Undefined _ \<Rightarrow> True | _ \<Rightarrow> False)"

definition last_worker :: "pool \<Rightarrow> worker" where
  "last_worker s = workers s ! (length (workers s) - 1)"

subsection \<open>Steps of the owner\<close>

text \<open>A method enters a barrier call; the call \<open>core_info\<close> only reads.\<close>

definition host_call :: "call \<Rightarrow> pool \<Rightarrow> pool" where
  "host_call c s =
     (case c of
        AddWorker a \<Rightarrow>
          (case arg_cpu a of
             Some k \<Rightarrow>
               (if find_core k (cores s) = length (cores s)
                then s\<lparr>ret := Some (INVALID_ARGUMENTS, EMPTY)\<rparr>
                else s\<lparr>ctl := InBar (CLock (SetNoThreads (no_workers s + 1)))
                         (KAddRun a (find_core k (cores s)))\<rparr>)
           | None \<Rightarrow>
               s\<lparr>ctl := InBar (CLock (SetNoThreads (no_workers s + 1)))
                   (KAddRun a (min_core (cores s)))\<rparr>)
      | WaitForWorkersIdle \<Rightarrow> s\<lparr>ctl := InBar (CLock WaitForAll) KIdle\<rparr>
      | WakeupWorkers \<Rightarrow> s\<lparr>ctl := InBar (CLock ReleaseAll) KWakeup\<rparr>
      | WakeupAndWait \<Rightarrow> s\<lparr>ctl := InBar (CLock ReleaseAndWait) KWakeWait\<rparr>
      | Destroy \<Rightarrow> s\<lparr>ctl := InBar (CLock WaitForAll) KDtorStop\<rparr>)"

fun resume :: "kont \<Rightarrow> pool \<Rightarrow> pool" where
  "resume KIdle s = s\<lparr>ctl := Host, quiet := True\<rparr>"
| "resume KWakeup s = s\<lparr>ctl := Host, quiet := False\<rparr>"
| "resume KWakeWait s = s\<lparr>ctl := Host, quiet := True\<rparr>"
| "resume (KAddRun a c) s = s\<lparr>ctl := AddCount a c\<rparr>"
| "resume (KAddRunFailed res) s = s\<lparr>ctl := Host, ret := Some (res, ATS_OK)\<rparr>"
| "resume (KAddIdle c) s = s\<lparr>ctl := AddStatus c\<rparr>"
| "resume (KAddStopped c st) s = s\<lparr>ctl := AddShrink c st\<rparr>"
| "resume (KAddShrunk c st) s = s\<lparr>ctl := AddUncount c st\<rparr>"
| "resume KDtorStop s = s\<lparr>ctl := DtorFlag\<rparr>"
| "resume KDtorJoin s = s\<lparr>ctl := DtorJoin 0\<rparr>"

fun is_swap :: "call_pc \<Rightarrow> bool" where
  "is_swap (CSwap _ _) = True"
| "is_swap _ = False"

definition add_exec :: "add_args \<Rightarrow> nat \<Rightarrow> pool \<Rightarrow> pool" where
  "add_exec a c s =
     (let res = errno_to_worker_status (run_worker a)
      in if res = WPS_OK
         then s\<lparr>no_workers := no_workers s + 1,
                workers := workers s @ [new_worker a (cpu_id_of (cores s ! c)) (epoch s)],
                ctl := InBar (CLock WaitForAll) (KAddIdle c)\<rparr>
         else s\<lparr>ctl := InBar (CLock (SetNoThreads (no_workers s))) (KAddRunFailed res)\<rparr>)"

definition caller_step :: "pool \<Rightarrow> pool option" where
  "caller_step s =
     (case ctl s of
        Host \<Rightarrow> None
      | InBar pc k \<Rightarrow>
          (if pc = CRet then Some (resume k s)
           else (case call_step pc (bar s) of
                   None \<Rightarrow> None
                 | Some (pc', b') \<Rightarrow>
                     Some (s\<lparr>bar := b', ctl := InBar pc' k,
                             epoch := (if is_swap pc then epoch s + 1 else epoch s)\<rparr>)))
      | AddCount a c \<Rightarrow>
          (if c < length (cores s)
           then Some (s\<lparr>cores := add_core_workers c 1 (cores s), ctl := AddExec a c\<rparr>)
           else Some (s\<lparr>ctl := Undefined PastEndIterator\<rparr>))
      | AddExec a c \<Rightarrow> Some (add_exec a c s)
      | AddStatus c \<Rightarrow>
          (if status (last_worker s) \<noteq> ATS_OK
           then Some (s\<lparr>ctl := AddStop c (status (last_worker s))\<rparr>)
           else Some (s\<lparr>ctl := Host, ret := Some (WPS_OK, ATS_OK), quiet := True\<rparr>))
      | AddStop c st \<Rightarrow>
          Some (s\<lparr>workers := (workers s)[length (workers s) - 1 := (last_worker s)\<lparr>thread_running := False\<rparr>],
                  ctl := InBar (CLock ReleaseAll) (KAddStopped c st)\<rparr>)
      | AddShrink c st \<Rightarrow>
          Some (s\<lparr>no_workers := no_workers s - 1,
                  ctl := InBar (CLock (SetNoThreads (no_workers s - 1))) (KAddShrunk c st)\<rparr>)
      | AddUncount c st \<Rightarrow>
          Some (s\<lparr>cores := add_core_workers c (- 1) (cores s), ctl := AddPop st\<rparr>)
      | AddPop st \<Rightarrow>
          (if wpc (last_worker s) = WExited
           then Some (s\<lparr>workers := butlast (workers s), ctl := Host,
                        ret := Some (POOL_ERROR, st), quiet := False\<rparr>)
           else None)
      | DtorFlag \<Rightarrow> Some (s\<lparr>pool_running := False, ctl := InBar (CLock ReleaseAll) KDtorJoin\<rparr>)
      | DtorJoin i \<Rightarrow>
          (if i < length (workers s)
           then (if wpc (workers s ! i) = WExited then Some (s\<lparr>ctl := DtorJoin (i + 1)\<rparr>) else None)
           else Some (s\<lparr>ctl := Gone\<rparr>))
      | Gone \<Rightarrow> None
      | Undefined _ \<Rightarrow> None)"

subsection \<open>The transition system\<close>

datatype label = LCaller | LWorker nat | LSpurious | LCall call

inductive pool_step :: "pool \<Rightarrow> label \<Rightarrow> pool \<Rightarrow> bool" where
  step_caller: "caller_step s = Some t \<Longrightarrow> pool_step s LCaller t"
| step_worker: "\<not> aborted s \<Longrightarrow> i < length (workers s) \<Longrightarrow>
     worker_step i (pool_running s) (workers s ! i) (bar s) = Some (w, b) \<Longrightarrow>
     pool_step s (LWorker i) (s\<lparr>bar := b, workers := (workers s)[i := w]\<rparr>)"
| step_spurious: "\<not> aborted s \<Longrightarrow> spurious_wakeup (bar s) = Some b \<Longrightarrow>
     pool_step s LSpurious (s\<lparr>bar := b\<rparr>)"
| step_call: "ctl s = Host \<Longrightarrow> pool_step s (LCall c) (host_call c s)"

inductive_cases caller_stepE: "pool_step s LCaller t"
inductive_cases worker_stepE: "pool_step s (LWorker i) t"
inductive_cases spurious_stepE: "pool_step s LSpurious t"
inductive_cases call_stepE: "pool_step s (LCall c) t"

text \<open>
  The documented use: workers are woken only when the host knows that they are idle,
  that is, after a call that has waited for them.
\<close>

fun allowed :: "pool \<Rightarrow> label \<Rightarrow> bool" where
  "allowed s (LCall WakeupWorkers) = quiet s"
| "allowed s (LCall WakeupAndWait) = quiet s"
| "allowed s _ = True"

inductive host_step :: "pool \<Rightarrow> label \<Rightarrow> pool \<Rightarrow> bool" where
  host_stepI: "allowed s l \<Longrightarrow> pool_step s l t \<Longrightarrow> host_step s l t"

lemma host_step_iff: "host_step s l t \<longleftrightarrow> allowed s l \<and> pool_step s l t"
  by (auto intro: host_stepI elim: host_step.cases)

text \<open>Executable schedules: the next state for a given label, and for a list of them.\<close>

definition exec_step :: "label \<Rightarrow> pool \<Rightarrow> pool option" where
  "exec_step l s =
     (case l of
        LCaller \<Rightarrow> caller_step s
      | LWorker i \<Rightarrow>
          (if aborted s \<or> length (workers s) \<le> i then None
           else (case worker_step i (pool_running s) (workers s ! i) (bar s) of
                   None \<Rightarrow> None
                 | Some (w, b) \<Rightarrow> Some (s\<lparr>bar := b, workers := (workers s)[i := w]\<rparr>)))
      | LSpurious \<Rightarrow>
          (if aborted s then None
           else (case spurious_wakeup (bar s) of None \<Rightarrow> None | Some b \<Rightarrow> Some (s\<lparr>bar := b\<rparr>)))
      | LCall c \<Rightarrow> (if ctl s = Host then Some (host_call c s) else None))"

lemma exec_step_iff: "exec_step l s = Some t \<longleftrightarrow> pool_step s l t"
  by (cases l)
    (auto simp: exec_step_def intro: pool_step.intros
      elim!: caller_stepE worker_stepE spurious_stepE call_stepE split: if_splits option.splits prod.splits)

fun exec :: "label list \<Rightarrow> pool \<Rightarrow> pool option" where
  "exec [] s = Some s"
| "exec (l # ls) s = (case exec_step l s of None \<Rightarrow> None | Some t \<Rightarrow> exec ls t)"

lemma exec_run: "exec ls s = Some t \<Longrightarrow> run pool_step s ls t"
  by (induction ls arbitrary: s)
    (auto intro: run.intros split: option.splits simp: exec_step_iff)

lemma exec_append: "exec (ls @ ms) s = (case exec ls s of None \<Rightarrow> None | Some t \<Rightarrow> exec ms t)"
  by (induction ls arbitrary: s) (auto split: option.splits)

text \<open>Schedules of a host that keeps to the documented use.\<close>

fun host_exec :: "label list \<Rightarrow> pool \<Rightarrow> pool option" where
  "host_exec [] s = Some s"
| "host_exec (l # ls) s =
     (if allowed s l then (case exec_step l s of None \<Rightarrow> None | Some t \<Rightarrow> host_exec ls t) else None)"

lemma host_exec_run: "host_exec ls s = Some t \<Longrightarrow> run host_step s ls t"
  by (induction ls arbitrary: s)
    (auto intro: run.intros simp: exec_step_iff host_step_iff split: option.splits if_splits)

end
