(* ===== verification/Pool_Invariant.thy ===== *)
theory Pool_Invariant
  imports Worker_Pool
begin

text \<open>
  The invariant of the worker pool: the barrier's invariant for the table of worker
  threads, the sizes the owner keeps (threads of the barrier, workers of the pool), the
  points at which all workers are known to be parked, the stop flags, the history of
  callbacks, and the published status. It holds after every step of every thread.
\<close>

subsection \<open>The pool as a client of the barrier\<close>

fun thr :: "worker_pc \<Rightarrow> wait_pc option" where
  "thr (WWait p) = Some p"
| "thr _ = None"

definition threads :: "pool \<Rightarrow> wait_pc option list" where
  "threads s = map (\<lambda>w. thr (wpc w)) (workers s)"

fun bar_point :: "ctl \<Rightarrow> call_pc option" where
  "bar_point (InBar pc _) = Some pc"
| "bar_point _ = None"

abbreviation call_of :: "pool \<Rightarrow> call_pc option" where
  "call_of s \<equiv> bar_point (ctl s)"

abbreviation num :: "pool \<Rightarrow> nat" where
  "num s \<equiv> length (workers s)"

definition full :: "pool \<Rightarrow> bool" where
  "full s \<longleftrightarrow> no_on_barrier (bar s) = int (num s)"

text \<open>The barrier call a continuation belongs to, in a pool of \<open>n\<close> threads.\<close>

fun kcall :: "int \<Rightarrow> kont \<Rightarrow> bcall" where
  "kcall n KIdle = WaitForAll"
| "kcall n KWakeup = ReleaseAll"
| "kcall n KWakeWait = ReleaseAndWait"
| "kcall n (KAddRun _ _) = SetNoThreads (n + 1)"
| "kcall n (KAddRunFailed _) = SetNoThreads n"
| "kcall n (KAddIdle _) = WaitForAll"
| "kcall n (KAddStopped _ _) = ReleaseAll"
| "kcall n (KAddShrunk _ _) = SetNoThreads (n - 1)"
| "kcall n KDtorStop = WaitForAll"
| "kcall n KDtorJoin = ReleaseAll"

fun not_set :: "call_pc \<Rightarrow> bool" where
  "not_set (CLock _) = True"
| "not_set (CSet _) = True"
| "not_set _ = False"

text \<open>The difference between the barrier's and the pool's number of threads and the table.\<close>

fun delta :: "ctl \<Rightarrow> int" where
  "delta (InBar pc (KAddRun _ _)) = (if not_set pc then 0 else 1)"
| "delta (InBar pc (KAddRunFailed _)) = (if not_set pc then 1 else 0)"
| "delta (InBar pc (KAddShrunk _ _)) = (if not_set pc then 0 else - 1)"
| "delta (AddCount _ _) = 1"
| "delta (AddExec _ _) = 1"
| "delta (AddUncount _ _) = - 1"
| "delta (AddPop _) = - 1"
| "delta (Undefined _) = 1"
| "delta _ = 0"

fun wdelta :: "ctl \<Rightarrow> int" where
  "wdelta (InBar pc (KAddShrunk _ _)) = - 1"
| "wdelta (AddUncount _ _) = - 1"
| "wdelta (AddPop _) = - 1"
| "wdelta _ = 0"

text \<open>Points at which \<open>_workers.back()\<close> is the worker just added.\<close>

fun adding :: "ctl \<Rightarrow> bool" where
  "adding (InBar _ (KAddIdle _)) = True"
| "adding (InBar _ (KAddStopped _ _)) = True"
| "adding (InBar _ (KAddShrunk _ _)) = True"
| "adding (AddStatus _) = True"
| "adding (AddStop _ _) = True"
| "adding (AddShrink _ _) = True"
| "adding (AddUncount _ _) = True"
| "adding (AddPop _) = True"
| "adding _ = False"

fun core_of :: "ctl \<Rightarrow> nat option" where
  "core_of (InBar _ (KAddIdle c)) = Some c"
| "core_of (InBar _ (KAddStopped c _)) = Some c"
| "core_of (InBar _ (KAddShrunk c _)) = Some c"
| "core_of (AddExec _ c) = Some c"
| "core_of (AddStatus c) = Some c"
| "core_of (AddStop c _) = Some c"
| "core_of (AddShrink c _) = Some c"
| "core_of (AddUncount c _) = Some c"
| "core_of _ = None"

definition size_inv :: "pool \<Rightarrow> bool" where
  [inv_defs]: "size_inv s \<longleftrightarrow>
     no_threads (bar s) = int (num s) + delta (ctl s) \<and>
     no_workers s = int (num s) + wdelta (ctl s) \<and>
     (\<forall>pc k. ctl s = InBar pc k \<longrightarrow> in_code (kcall (int (num s)) k) pc) \<and>
     (adding (ctl s) \<longrightarrow> num s > 0) \<and>
     (\<forall>c. core_of (ctl s) = Some c \<longrightarrow> c < length (cores s))"

subsection \<open>Points at which every worker is parked\<close>

fun early :: "call_pc \<Rightarrow> bool" where
  "early (CLock _) = True"
| "early (CAssert _) = True"
| "early (CReset _) = True"
| "early CAbort = True"
| "early _ = False"

fun must_full :: "ctl \<Rightarrow> bool" where
  "must_full (InBar pc KIdle) = leaving pc"
| "must_full (InBar pc KWakeWait) = leaving pc"
| "must_full (InBar pc (KAddIdle _)) = leaving pc"
| "must_full (InBar pc KDtorStop) = leaving pc"
| "must_full (InBar pc (KAddStopped _ _)) = early pc"
| "must_full (InBar pc KDtorJoin) = early pc"
| "must_full (AddStatus _) = True"
| "must_full (AddStop _ _) = True"
| "must_full DtorFlag = True"
| "must_full _ = False"

text \<open>The two releases that the pool makes itself never fail their assertion.\<close>

fun own_release :: "kont \<Rightarrow> bool" where
  "own_release (KAddStopped _ _) = True"
| "own_release KDtorJoin = True"
| "own_release _ = False"

definition full_inv :: "pool \<Rightarrow> bool" where
  [inv_defs]: "full_inv s \<longleftrightarrow>
     (must_full (ctl s) \<longrightarrow> full s) \<and> (\<forall>k. own_release k \<longrightarrow> ctl s \<noteq> InBar CAbort k)"

subsection \<open>Stopping threads\<close>

fun dtor_phase :: "ctl \<Rightarrow> bool" where
  "dtor_phase (InBar _ KDtorJoin) = True"
| "dtor_phase (DtorJoin _) = True"
| "dtor_phase Gone = True"
| "dtor_phase _ = False"

fun stop_phase :: "ctl \<Rightarrow> bool" where
  "stop_phase (InBar _ (KAddStopped _ _)) = True"
| "stop_phase (InBar _ (KAddShrunk _ _)) = True"
| "stop_phase (AddShrink _ _) = True"
| "stop_phase (AddUncount _ _) = True"
| "stop_phase (AddPop _) = True"
| "stop_phase _ = False"

fun swapped :: "ctl \<Rightarrow> bool" where
  "swapped (InBar pc k) = (own_release k \<longrightarrow> \<not> before_swap pc)"
| "swapped _ = True"

definition doomed :: "pool \<Rightarrow> nat \<Rightarrow> bool" where
  "doomed s i \<longleftrightarrow> dtor_phase (ctl s) \<or> stop_phase (ctl s) \<and> i = num s - 1"

text \<open>A stopped worker that has been released only has its way out left.\<close>

fun way_out :: "nat \<Rightarrow> bool \<Rightarrow> worker_pc \<Rightarrow> bool" where
  "way_out prev go (WWait (WtSemWait k)) = (k = prev)"
| "way_out prev go (WWait WtRet) = True"
| "way_out prev go WCheckThread = (\<not> go)"
| "way_out prev go WExited = True"
| "way_out prev go _ = False"

definition stop_inv :: "pool \<Rightarrow> bool" where
  [inv_defs]: "stop_inv s \<longleftrightarrow>
     pool_running s = (\<not> dtor_phase (ctl s)) \<and>
     (\<forall>i < num s. thread_running (workers s ! i) = (\<not> (stop_phase (ctl s) \<and> i = num s - 1))) \<and>
     (\<forall>i < num s. wpc (workers s ! i) = WExited \<longrightarrow> doomed s i) \<and>
     (\<forall>i < num s. doomed s i \<and> swapped (ctl s) \<longrightarrow>
        way_out (1 - active_sem_idx (bar s)) (thread_running (workers s ! i)) (wpc (workers s ! i))) \<and>
     (\<forall>i. ctl s = DtorJoin i \<longrightarrow> i \<le> num s \<and> (\<forall>j < i. wpc (workers s ! j) = WExited)) \<and>
     (ctl s = Gone \<longrightarrow> (\<forall>j < num s. wpc (workers s ! j) = WExited))"

subsection \<open>History and status\<close>

text \<open>Workers that have been released and have not yet called back.\<close>

fun owes_call :: "nat \<Rightarrow> worker_pc \<Rightarrow> bool" where
  "owes_call prev (WWait WtRet) = True"
| "owes_call prev (WWait p) = parked_on prev (Some p)"
| "owes_call prev WCheckThread = True"
| "owes_call prev WCallback = True"
| "owes_call prev WExited = True"
| "owes_call prev WInit = False"

definition hist_inv :: "pool \<Rightarrow> bool" where
  [inv_defs]: "hist_inv s \<longleftrightarrow>
     (\<forall>i < num s. calls (workers s ! i) + born (workers s ! i) +
        (if owes_call (1 - active_sem_idx (bar s)) (wpc (workers s ! i)) then 1 else 0) = epoch s)"

definition status_inv :: "pool \<Rightarrow> bool" where
  [inv_defs]: "status_inv s \<longleftrightarrow>
     (\<forall>i < num s. wpc (workers s ! i) \<noteq> WInit \<longrightarrow>
        (\<forall>st. init_write (workers s ! i) = Some st \<longrightarrow> status (workers s ! i) = st))"

definition pool_inv :: "pool \<Rightarrow> bool" where
  "pool_inv s \<longleftrightarrow> barrier_inv (bar s) (threads s) (call_of s) \<and>
     size_inv s \<and> full_inv s \<and> stop_inv s \<and> hist_inv s \<and> status_inv s"

lemma pool_invI:
  "barrier_inv (bar s) (threads s) (call_of s) \<Longrightarrow> size_inv s \<Longrightarrow> full_inv s \<Longrightarrow> stop_inv s \<Longrightarrow>
   hist_inv s \<Longrightarrow> status_inv s \<Longrightarrow> pool_inv s"
  by (simp add: pool_inv_def)

lemma pool_invD:
  assumes "pool_inv s"
  shows "barrier_inv (bar s) (threads s) (call_of s)" and "size_inv s" and "full_inv s"
    and "stop_inv s" and "hist_inv s" and "status_inv s"
  using assms by (simp_all add: pool_inv_def)

lemma pool_inv_new: "pool_inv (new_pool cs)"
  using barrier_inv_new
  by (simp add: pool_inv_def new_pool_def threads_def size_inv_def full_inv_def stop_inv_def
      hist_inv_def status_inv_def new_barrier_def)

lemma length_threads [simp]: "length (threads s) = num s"
  by (simp add: threads_def)

lemma nth_threads [simp]: "i < num s \<Longrightarrow> threads s ! i = thr (wpc (workers s ! i))"
  by (simp add: threads_def)

subsection \<open>Steps of a worker\<close>

lemma worker_step_cases:
  assumes "worker_step i go w b = Some (w', b')"
  obtains (init) "wpc w = WInit" "b' = b" "wpc w' = WWait WtLock"
      "w' = w\<lparr>status := (case init_write w of Some st \<Rightarrow> st | None \<Rightarrow> status w), wpc := WWait WtLock\<rparr>"
  | (wait) p p' where "wpc w = WWait p" "p \<noteq> WtRet" "wait_step i p b = Some (p', b')"
      "w' = w\<lparr>wpc := WWait p'\<rparr>"
  | (ret) "wpc w = WWait WtRet" "b' = b" "w' = w\<lparr>wpc := (if \<not> go then WExited else WCheckThread)\<rparr>"
  | (check) "wpc w = WCheckThread" "b' = b"
      "w' = w\<lparr>wpc := (if \<not> thread_running w then WExited else WCallback)\<rparr>"
  | (callback) "wpc w = WCallback" "b' = b" "w' = w\<lparr>wpc := WWait WtLock, calls := calls w + 1\<rparr>"
  using assms
  by (auto simp: worker_step_def split: worker_pc.splits if_splits option.splits prod.splits)

definition put_worker :: "nat \<Rightarrow> worker \<Rightarrow> barrier \<Rightarrow> pool \<Rightarrow> pool" where
  "put_worker i w b s = s\<lparr>bar := b, workers := (workers s)[i := w]\<rparr>"

lemma put_worker_simps [simp]:
  "bar (put_worker i w b s) = b" "workers (put_worker i w b s) = (workers s)[i := w]"
  "ctl (put_worker i w b s) = ctl s" "pool_running (put_worker i w b s) = pool_running s"
  "no_workers (put_worker i w b s) = no_workers s" "cores (put_worker i w b s) = cores s"
  "ret (put_worker i w b s) = ret s" "epoch (put_worker i w b s) = epoch s"
  "quiet (put_worker i w b s) = quiet s"
  "threads (put_worker i w b s) = (threads s)[i := thr (wpc w)]"
  by (simp_all add: put_worker_def threads_def map_update)

lemma worker_barrier_frame:
  assumes "worker_step i go w b = Some (w', b')"
  shows "no_threads b' = no_threads b" and "active_sem_idx b' = active_sem_idx b"
  using assms by (cases rule: worker_step_cases; auto dest: wait_step_frame)+

lemma worker_barrier_inv:
  assumes inv: "barrier_inv (bar s) (threads s) c" and i: "i < num s"
    and st: "worker_step i go (workers s ! i) (bar s) = Some (w', b')"
  shows "barrier_inv b' ((threads s)[i := thr (wpc w')]) c"
  using st
proof (cases rule: worker_step_cases)
  case (wait p p')
  then show ?thesis
    using wait_step_barrier_inv [of i "threads s" p "bar s" p' b' c] inv i by simp
qed (use i in \<open>auto intro!: neutral_update [OF inv]\<close>)

lemma full_parked:
  assumes "barrier_inv (bar s) (threads s) (call_of s)" and "\<not> in_reset (call_of s)" and "full s"
    and "i < num s"
  shows "parked_on (active_sem_idx (bar s)) (thr (wpc (workers s ! i)))"
  using all_parked [OF assms(1,2)] assms(3,4) by (simp add: full_def)

lemma full_worker:
  assumes "barrier_inv (bar s) (threads s) (call_of s)" and "\<not> in_reset (call_of s)" and "full s"
    and i: "i < num s" and st: "worker_step i go (workers s ! i) (bar s) = Some (w', b')"
  shows "full (put_worker i w' b' s)"
proof -
  have p: "parked_on (active_sem_idx (bar s)) (thr (wpc (workers s ! i)))"
    using full_parked assms by blast
  have "no_on_barrier b' = no_on_barrier (bar s)"
    using st p by (cases rule: worker_step_cases)
      (auto dest: wait_step_count split: wait_pc.splits)
  with assms(3) show ?thesis by (simp add: full_def)
qed

lemma must_full_not_reset: "must_full c \<Longrightarrow> \<not> in_reset (bar_point c)"
  by (cases c rule: must_full.cases) (auto elim!: leaving.elims early.elims)

lemma worker_size_inv:
  assumes "size_inv s" and st: "worker_step i go (workers s ! i) (bar s) = Some (w', b')"
  shows "size_inv (put_worker i w' b' s)"
  using assms(1) worker_barrier_frame [OF st] by (simp add: size_inv_def)

lemma worker_full_inv:
  assumes "barrier_inv (bar s) (threads s) (call_of s)" and "full_inv s" and "i < num s"
    and "worker_step i go (workers s ! i) (bar s) = Some (w', b')"
  shows "full_inv (put_worker i w' b' s)"
  using assms full_worker [of s i] must_full_not_reset [of "ctl s"] by (auto simp: full_inv_def)

lemma way_out_worker:
  assumes "way_out prev (thread_running w) (wpc w)"
    and "worker_step i go w b = Some (w', b')" and "go \<Longrightarrow> \<not> thread_running w"
  shows "way_out prev (thread_running w') (wpc w')"
  using assms(2) by (cases rule: worker_step_cases)
    (use assms(1,3) in \<open>auto elim!: way_out.elims split: if_splits\<close>)

lemma worker_exit:
  assumes "worker_step i go w b = Some (w', b')" and "wpc w' = WExited"
  shows "\<not> go \<or> \<not> thread_running w"
  using assms by (cases rule: worker_step_cases) (auto split: if_splits)

lemma worker_thread_running:
  assumes "worker_step i go w b = Some (w', b')"
  shows "thread_running w' = thread_running w \<and> wpc w \<noteq> WExited \<and> born w' = born w
    \<and> init_write w' = init_write w \<and> affinity w' = affinity w \<and> priority w' = priority w"
  using assms by (cases rule: worker_step_cases) auto

lemma worker_stop_inv:
  assumes inv: "stop_inv s" and i: "i < num s"
    and st: "worker_step i (pool_running s) (workers s ! i) (bar s) = Some (w', b')"
  shows "stop_inv (put_worker i w' b' s)"
proof -
  have d: "doomed (put_worker i w' b' s) j = doomed s j" for j by (simp add: doomed_def)
  have run: "pool_running s = (\<not> dtor_phase (ctl s))"
    and tr: "\<And>j. j < num s \<Longrightarrow> thread_running (workers s ! j) = (\<not> (stop_phase (ctl s) \<and> j = num s - 1))"
    and wo: "\<And>j. j < num s \<Longrightarrow> doomed s j \<Longrightarrow> swapped (ctl s) \<Longrightarrow>
        way_out (1 - active_sem_idx (bar s)) (thread_running (workers s ! j)) (wpc (workers s ! j))"
    using inv by (auto simp: stop_inv_def)
  have ex: "wpc w' = WExited \<Longrightarrow> doomed s i"
    using worker_exit [OF st] run tr [OF i] by (auto simp: doomed_def)
  have wo': "doomed s i \<Longrightarrow> swapped (ctl s) \<Longrightarrow>
        way_out (1 - active_sem_idx b') (thread_running w') (wpc w')"
    using way_out_worker [OF wo [OF i] st] worker_barrier_frame(2) [OF st] run tr [OF i]
    by (auto simp: doomed_def)
  note same = worker_thread_running [OF st] worker_barrier_frame(2) [OF st]
  let ?W = "(workers s)[i := w']" and ?p = "1 - active_sem_idx (bar s)"
  have "\<forall>j < num s. thread_running (?W ! j) = (\<not> (stop_phase (ctl s) \<and> j = num s - 1))"
    using tr i same
    by (intro all_nth_update [where P = "\<lambda>j w. thread_running w = (\<not> (stop_phase (ctl s) \<and> j = num s - 1))"]) auto
  moreover have "\<forall>j < num s. wpc (?W ! j) = WExited \<longrightarrow> doomed s j"
    using inv ex
    by (intro all_nth_update [where P = "\<lambda>j w. wpc w = WExited \<longrightarrow> doomed s j"]) (auto simp: stop_inv_def)
  moreover have "\<forall>j < num s. doomed s j \<and> swapped (ctl s) \<longrightarrow>
      way_out ?p (thread_running (?W ! j)) (wpc (?W ! j))"
    using wo wo' same
    by (intro all_nth_update [where P = "\<lambda>j w. doomed s j \<and> swapped (ctl s) \<longrightarrow>
      way_out ?p (thread_running w) (wpc w)"]) auto
  moreover have "wpc (?W ! j) = WExited" if "wpc (workers s ! j) = WExited" for j
    using that same by (cases "j = i") auto
  ultimately show ?thesis
    using inv same unfolding stop_inv_def d by simp
qed

lemma owes_wait:
  assumes "wait_step i p b = Some (p', b')" and "sem_ok (active_sem_idx b) (Some p)"
    and "active_sem_idx b < 2" and "sems b (active_sem_idx b) = 0"
  shows "owes_call (1 - active_sem_idx b) (WWait p') = owes_call (1 - active_sem_idx b) (WWait p)"
proof -
  have "1 - active_sem_idx b \<noteq> active_sem_idx b" using assms(3) by arith
  moreover have "k = 1 - active_sem_idx b" if "k < 2" "0 < sems b k" for k
    using that assms(3,4) by (cases "k = active_sem_idx b"; simp; arith)
  ultimately show ?thesis
    using assms by (cases p) (auto simp: Let_def split: if_splits)
qed

lemma worker_hist_inv:
  assumes b: "barrier_inv (bar s) (threads s) c" and inv: "hist_inv s" and i: "i < num s"
    and st: "worker_step i go (workers s ! i) (bar s) = Some (w', b')"
  shows "hist_inv (put_worker i w' b' s)"
proof -
  let ?w = "workers s ! i" and ?p = "1 - active_sem_idx (bar s)"
  have g: "gen_inv (bar s) (threads s) c" by (rule barrier_invD(2) [OF b])
  then have ok: "sem_ok (active_sem_idx (bar s)) (thr (wpc ?w))" "active_sem_idx (bar s) < 2"
      "sems (bar s) (active_sem_idx (bar s)) = 0"
    using i by (auto simp: gen_inv_def dest: spec [of _ i])
  have h: "calls ?w + born ?w + (if owes_call ?p (wpc ?w) then 1 else 0) = epoch s"
    using inv i by (simp add: hist_inv_def)
  have "calls w' + born w' + (if owes_call ?p (wpc w') then 1 else 0) = epoch s"
    using st
  proof (cases rule: worker_step_cases)
    case (wait p p')
    then show ?thesis using h owes_wait [of i p "bar s" p' b'] ok by simp
  qed (use h in auto)
  then have "\<forall>j < num s. calls ((workers s)[i := w'] ! j) + born ((workers s)[i := w'] ! j) +
      (if owes_call ?p (wpc ((workers s)[i := w'] ! j)) then 1 else 0) = epoch s"
    using inv
    by (intro all_nth_update [where P = "\<lambda>j w. calls w + born w +
      (if owes_call ?p (wpc w) then 1 else 0) = epoch s"]) (simp_all add: hist_inv_def)
  then show ?thesis
    using worker_barrier_frame(2) [OF st] by (simp add: hist_inv_def)
qed

lemma worker_status_inv:
  assumes inv: "status_inv s" and i: "i < num s"
    and st: "worker_step i go (workers s ! i) b = Some (w', b')"
  shows "status_inv (put_worker i w' b' s)"
proof -
  have "\<forall>st. init_write w' = Some st \<longrightarrow> status w' = st"
    using st by (cases rule: worker_step_cases) (use inv i in \<open>auto simp: status_inv_def\<close>)
  then show ?thesis using inv i by (simp add: status_inv_def nth_list_update)
qed

lemma worker_pool_inv:
  assumes "pool_inv s" and "i < num s"
    and "worker_step i (pool_running s) (workers s ! i) (bar s) = Some (w', b')"
  shows "pool_inv (put_worker i w' b' s)"
  using assms
  by (intro pool_invI)
    (auto dest: pool_invD intro: worker_barrier_inv worker_size_inv worker_full_inv
      worker_stop_inv worker_hist_inv worker_status_inv)

subsection \<open>Steps of the owner inside a barrier call\<close>

definition move_caller :: "call_pc \<Rightarrow> barrier \<Rightarrow> call_pc \<Rightarrow> kont \<Rightarrow> pool \<Rightarrow> pool" where
  "move_caller pc' b' pc k s =
     s\<lparr>bar := b', ctl := InBar pc' k, epoch := (if is_swap pc then epoch s + 1 else epoch s)\<rparr>"

lemma move_caller_simps [simp]:
  "bar (move_caller pc' b' pc k s) = b'" "ctl (move_caller pc' b' pc k s) = InBar pc' k"
  "workers (move_caller pc' b' pc k s) = workers s"
  "threads (move_caller pc' b' pc k s) = threads s"
  "pool_running (move_caller pc' b' pc k s) = pool_running s"
  "no_workers (move_caller pc' b' pc k s) = no_workers s"
  "cores (move_caller pc' b' pc k s) = cores s"
  "ret (move_caller pc' b' pc k s) = ret s" "quiet (move_caller pc' b' pc k s) = quiet s"
  "epoch (move_caller pc' b' pc k s) = (if is_swap pc then epoch s + 1 else epoch s)"
  by (simp_all add: move_caller_def threads_def)

lemma is_swapE: "is_swap pc \<Longrightarrow> (\<And>w k. pc = CSwap w k \<Longrightarrow> P) \<Longrightarrow> P"
  by (cases pc) auto

lemma not_swap_idx:
  "call_step pc b = Some (pc', b') \<Longrightarrow> \<not> is_swap pc \<Longrightarrow> active_sem_idx b' = active_sem_idx b"
  by (drule call_step_idx) (auto split: call_pc.splits)

lemma in_code_set: "in_code (SetNoThreads m) pc \<Longrightarrow>
    pc = CLock (SetNoThreads m) \<or> pc = CSet m \<or> pc = CUnlock \<or> pc = CRet"
  by (cases pc) (auto simp: is_wait_def is_release_def split: if_splits)

lemma move_threads:
  assumes size: "size_inv s" and c: "ctl s = InBar pc k"
    and st: "call_step pc (bar s) = Some (pc', b')"
  shows "no_threads b' = int (num s) + delta (InBar pc' k)"
proof (cases "\<exists>m. kcall (int (num s)) k = SetNoThreads m")
  case True
  then obtain m where m: "kcall (int (num s)) k = SetNoThreads m" by blast
  then have "pc = CLock (SetNoThreads m) \<or> pc = CSet m \<or> pc = CUnlock \<or> pc = CRet"
    using size c in_code_set by (auto simp: size_inv_def)
  then show ?thesis
    using m size c st by (cases k) (auto simp: size_inv_def split: if_splits)
next
  case False
  then have d: "delta (InBar q k) = 0" for q by (cases k) auto
  have "pc \<noteq> CSet m" for m using False size c by (auto simp: size_inv_def)
  then have "no_threads b' = no_threads (bar s)"
    using call_step_threads [OF st] by (auto split: call_pc.splits)
  then show ?thesis using size c d by (simp add: size_inv_def)
qed

lemma move_size_inv:
  assumes size: "size_inv s" and c: "ctl s = InBar pc k"
    and st: "call_step pc (bar s) = Some (pc', b')"
  shows "size_inv (move_caller pc' b' pc k s)"
proof -
  have "wdelta (InBar pc' k) = wdelta (InBar pc k)" "adding (InBar pc' k) = adding (InBar pc k)"
    "core_of (InBar pc' k) = core_of (InBar pc k)"
    by (cases k; simp)+
  then show ?thesis
    using move_threads [OF assms] size c call_step_in_code [OF st] unfolding size_inv_def by simp
qed

lemma own_release_call: "own_release k \<Longrightarrow> kcall n k = ReleaseAll"
  by (cases k) auto

lemma must_full_own: "own_release k \<Longrightarrow> must_full (InBar pc k) = early pc"
  by (cases k) auto

lemma must_full_wait:
  assumes "must_full (InBar pc k)" and "\<not> own_release k"
  shows "is_wait (kcall n k)" and "leaving pc" and "delta (InBar q k) = 0"
  using assms by (cases k; simp add: is_wait_def)+

lemma must_full_not_own:
  "\<not> own_release k \<Longrightarrow> is_wait (kcall n k) \<Longrightarrow> must_full (InBar pc k) = leaving pc"
  by (cases k) (auto simp: is_wait_def)

lemma move_full_inv:
  assumes b: "barrier_inv (bar s) (threads s) (call_of s)" and size: "size_inv s"
    and full: "full_inv s" and c: "ctl s = InBar pc k"
    and st: "call_step pc (bar s) = Some (pc', b')"
  shows "full_inv (move_caller pc' b' pc k s)"
proof (cases "own_release k")
  case True
  then have n: "early pc \<Longrightarrow> no_on_barrier (bar s) = int (num s)"
      "no_threads (bar s) = int (num s)" "pc \<noteq> CAbort"
    using full size c must_full_own
    by (auto simp: full_inv_def full_def size_inv_def) (cases k; auto)+
  have e: "early pc' \<Longrightarrow> early pc \<and> no_on_barrier b' = no_on_barrier (bar s) \<and> pc' \<noteq> CAbort"
    using st n own_release_call [OF True] size c
    by (cases pc) (auto simp: size_inv_def split: if_splits)
  then have "pc' \<noteq> CAbort" by auto
  with e n True show ?thesis
    by (auto simp: full_inv_def full_def must_full_own)
next
  case False
  have "full (move_caller pc' b' pc k s)" if mf: "must_full (InBar pc' k)"
  proof (cases "leaving pc")
    case True
    then have "full s"
      using full c must_full_not_own [OF False must_full_wait(1) [OF mf False]] by (auto simp: full_inv_def)
    moreover have "no_on_barrier b' = no_on_barrier (bar s)"
      using st True by (cases pc) auto
    ultimately show ?thesis by (simp add: full_def)
  next
    case notl: False
    note w = must_full_wait [OF mf False]
    have "no_threads b' \<le> no_on_barrier b'"
      using wait_leaves_full [OF st _ w(1) w(2) notl] size c barrier_invD(2) [OF b]
      by (auto simp: size_inv_def gen_inv_def)
    moreover have "no_threads b' = int (num s)"
      using move_threads [OF size c st] w(3) by simp
    moreover have "no_on_barrier b' \<le> int (num s)"
    proof -
      have "barrier_inv b' (threads s) (Some pc')"
        using call_step_barrier_inv [OF st] b c by simp
      moreover have "\<not> in_reset (Some pc')" using w(2) by (cases pc') auto
      ultimately show ?thesis using count_bounds(2) by fastforce
    qed
    ultimately show ?thesis by (simp add: full_def)
  qed
  with False show ?thesis by (auto simp: full_inv_def)
qed

text \<open>At the swap every worker sleeps, or is about to, on the semaphore that becomes the previous one.\<close>

lemma swap_all_waiting:
  assumes b: "barrier_inv (bar s) (threads s) (call_of s)" and c: "ctl s = InBar (CSwap w j) k"
    and i: "i < num s"
  shows "wpc (workers s ! i) = WWait (WtSemWait (active_sem_idx (bar s)))"
proof -
  have g: "gen_inv (bar s) (threads s) (Some (CSwap w j))" and m: "mutex_inv (bar s) (threads s) (Some (CSwap w j))"
    using barrier_invD [OF b] c by auto
  then have "int (cnt (parked_on (active_sem_idx (bar s))) (threads s)) = int (length (threads s))"
    by (simp add: gen_inv_def)
  then have "parked_on (active_sem_idx (bar s)) (threads s ! i)"
    using i by (metis cnt_full_iff length_threads of_nat_eq_iff)
  moreover have "\<not> crit (threads s ! i)"
    using only_one_crit [OF m] i by auto
  ultimately show ?thesis
    using i by (cases "wpc (workers s ! i)") (auto elim!: parked_on.elims)
qed

lemma stop_inv_way_out:
  "stop_inv s \<Longrightarrow> i < num s \<Longrightarrow> doomed s i \<Longrightarrow> swapped (ctl s) \<Longrightarrow>
   way_out (1 - active_sem_idx (bar s)) (thread_running (workers s ! i)) (wpc (workers s ! i))"
  unfolding stop_inv_def by blast

lemma move_stop_inv:
  assumes b: "barrier_inv (bar s) (threads s) (call_of s)" and size: "size_inv s"
    and stop: "stop_inv s" and c: "ctl s = InBar pc k" and nr: "pc \<noteq> CRet"
    and st: "call_step pc (bar s) = Some (pc', b')"
  shows "stop_inv (move_caller pc' b' pc k s)"
proof -
  let ?s' = "move_caller pc' b' pc k s"
  have ph: "dtor_phase (InBar pc' k) = dtor_phase (InBar pc k)"
    "stop_phase (InBar pc' k) = stop_phase (InBar pc k)"
    by (cases k; simp)+
  then have d: "doomed ?s' i = doomed s i" for i using c by (simp add: doomed_def)
  have "way_out (1 - active_sem_idx b') (thread_running (workers s ! i)) (wpc (workers s ! i))"
    if i: "i < num s" "doomed s i" "swapped (InBar pc' k)" for i
  proof (cases "is_swap pc")
    case True
    then obtain w j where pc: "pc = CSwap w j" by (rule is_swapE)
    have "active_sem_idx (bar s) < 2" using barrier_invD(2) [OF b] by (simp add: gen_inv_def)
    then have "1 - active_sem_idx b' = active_sem_idx (bar s)"
      using call_step_idx [OF st] pc by auto
    then show ?thesis using swap_all_waiting [OF b, of w j k i] c pc i by simp
  next
    case False
    have "in_code ReleaseAll pc" if "own_release k"
      using size c own_release_call [OF that] by (auto simp: size_inv_def)
    then have "swapped (InBar pc k)"
      using that(3) False st by (cases pc) (auto split: if_splits)
    then show ?thesis
      using stop_inv_way_out [OF stop i(1,2)] c not_swap_idx [OF st False] by simp
  qed
  then show ?thesis
    using stop c ph unfolding stop_inv_def d by simp
qed

lemma move_hist_inv:
  assumes b: "barrier_inv (bar s) (threads s) (call_of s)" and hist: "hist_inv s"
    and c: "ctl s = InBar pc k" and st: "call_step pc (bar s) = Some (pc', b')"
  shows "hist_inv (move_caller pc' b' pc k s)"
proof (cases "is_swap pc")
  case True
  then obtain w j where pc: "pc = CSwap w j" by (rule is_swapE)
  have a: "active_sem_idx (bar s) < 2" using barrier_invD(2) [OF b] by (simp add: gen_inv_def)
  then have "1 - active_sem_idx (bar s) \<noteq> active_sem_idx (bar s)"
    "1 - (1 - active_sem_idx (bar s)) = active_sem_idx (bar s)" by arith+
  then have a': "1 - active_sem_idx b' = active_sem_idx (bar s)"
    "1 - active_sem_idx (bar s) \<noteq> active_sem_idx (bar s)"
    using call_step_idx [OF st] pc by simp_all
  show ?thesis
    using hist swap_all_waiting [OF b, of w j k] c pc a' unfolding hist_inv_def by auto
next
  case False
  then show ?thesis using hist not_swap_idx [OF st False] by (simp add: hist_inv_def)
qed

lemma move_pool_inv:
  assumes "pool_inv s" and "ctl s = InBar pc k" and "pc \<noteq> CRet"
    and "call_step pc (bar s) = Some (pc', b')"
  shows "pool_inv (move_caller pc' b' pc k s)"
proof (rule pool_invI)
  note i = pool_invD [OF assms(1)]
  show "barrier_inv (bar (move_caller pc' b' pc k s)) (threads (move_caller pc' b' pc k s))
      (call_of (move_caller pc' b' pc k s))"
    using call_step_barrier_inv [OF assms(4)] i(1) assms(2) by simp
  show "size_inv (move_caller pc' b' pc k s)" by (rule move_size_inv [OF i(2) assms(2,4)])
  show "full_inv (move_caller pc' b' pc k s)" by (rule move_full_inv [OF i(1-3) assms(2,4)])
  show "stop_inv (move_caller pc' b' pc k s)" by (rule move_stop_inv [OF i(1,2,4) assms(2-4)])
  show "hist_inv (move_caller pc' b' pc k s)" by (rule move_hist_inv [OF i(1) i(5) assms(2,4)])
  show "status_inv (move_caller pc' b' pc k s)" using i(6) by (simp add: status_inv_def)
qed

subsection \<open>Steps of the owner between barrier calls\<close>

text \<open>
  Most of these steps leave the threads and the barrier alone and move the owner on, within
  the same phase.
\<close>

lemma owner_moves:
  assumes inv: "pool_inv s"
    and frame: "bar t = bar s" "workers t = workers s" "pool_running t = pool_running s" "epoch t = epoch s"
    and bar: "barrier_inv (bar s) (threads s) (call_of s) \<Longrightarrow> barrier_inv (bar s) (threads s) (call_of t)"
    and size: "size_inv t" and full: "full_inv t"
    and phase: "dtor_phase (ctl t) = dtor_phase (ctl s)" "stop_phase (ctl t) = stop_phase (ctl s)"
    and swap: "dtor_phase (ctl t) \<or> stop_phase (ctl t) \<Longrightarrow> swapped (ctl t) \<Longrightarrow> swapped (ctl s)"
    and join: "\<And>i. ctl t = DtorJoin i \<Longrightarrow> i \<le> num s \<and> (\<forall>j < i. wpc (workers s ! j) = WExited)"
    and gone: "ctl t = Gone \<Longrightarrow> (\<forall>j < num s. wpc (workers s ! j) = WExited)"
  shows "pool_inv t"
proof (rule pool_invI)
  note i = pool_invD [OF inv]
  have th: "threads t = threads s" using frame by (simp add: threads_def)
  show "barrier_inv (bar t) (threads t) (call_of t)" using bar [OF i(1)] frame th by simp
  have d: "doomed t i = doomed s i" for i using phase frame by (simp add: doomed_def)
  have "way_out (1 - active_sem_idx (bar s)) (thread_running (workers s ! i)) (wpc (workers s ! i))"
    if "i < num s" "doomed s i" "swapped (ctl t)" for i
    using stop_inv_way_out [OF i(4) that(1,2)] swap that(2,3) phase by (auto simp: doomed_def)
  then show "stop_inv t"
    using i(4) phase join gone unfolding stop_inv_def d frame by blast
  show "hist_inv t" using i(5) frame by (simp add: hist_inv_def)
  show "status_inv t" using i(6) frame by (simp add: status_inv_def)
qed (fact size full)+

lemma resume_pool_inv:
  assumes inv: "pool_inv s" and c: "ctl s = InBar CRet k"
  shows "pool_inv (resume k s)"
proof -
  note i = pool_invD [OF inv]
  have f: "bar (resume k s) = bar s" "workers (resume k s) = workers s"
    "pool_running (resume k s) = pool_running s" "epoch (resume k s) = epoch s"
    "no_workers (resume k s) = no_workers s" "cores (resume k s) = cores s"
    "call_of (resume k s) = None"
    by (cases k; simp)+
  have "size_inv (resume k s)"
    using i(2) c f by (cases k) (auto simp: size_inv_def)
  moreover have "full_inv (resume k s)"
    using i(3) c f by (cases k) (auto simp: full_inv_def full_def)
  ultimately show ?thesis
    using c f by (intro owner_moves [OF inv]; cases k) (auto intro: return_barrier_inv)
qed

lemma enter_from_outside:
  assumes "barrier_inv (bar s) (threads s) (call_of s)" and "call_of s = None"
    and "is_release c \<Longrightarrow> no_threads (bar s) = int (num s)"
  shows "barrier_inv (bar s) (threads s) (Some (CLock c))"
  using assms by (intro enter_barrier_inv) (auto simp: is_release_def)

lemma host_call_pool_inv:
  assumes inv: "pool_inv s" and c: "ctl s = Host"
  shows "pool_inv (host_call cl s)"
proof -
  note i = pool_invD [OF inv]
  have n: "no_threads (bar s) = int (num s)" "no_workers s = int (num s)"
    using i(2) c by (simp_all add: size_inv_def)
  have enter: "barrier_inv (bar s) (threads s) (Some (CLock d))" for d
    using enter_from_outside [OF i(1)] c n by simp
  have go: "pool_inv (s\<lparr>ctl := InBar (CLock (kcall (int (num s)) k)) k\<rparr>)"
    if "\<not> own_release k" "delta (InBar (CLock WaitForAll) k) = 0" "wdelta (InBar (CLock WaitForAll) k) = 0"
      "\<not> adding (InBar (CLock WaitForAll) k)" "core_of (InBar (CLock WaitForAll) k) = None" for k
  proof -
    have "delta (InBar (CLock d) k) = 0" "wdelta (InBar (CLock d) k) = 0" "\<not> adding (InBar (CLock d) k)"
      "core_of (InBar (CLock d) k) = None" "\<not> must_full (InBar (CLock d) k)"
      "\<not> dtor_phase (InBar (CLock d) k)" "\<not> stop_phase (InBar (CLock d) k)" for d
      using that by (cases k; simp)+
    then show ?thesis
      using c n that enter by (intro owner_moves [OF inv]) (auto simp: size_inv_def full_inv_def)
  qed
  have upd: "pool_inv (s\<lparr>ret := r\<rparr>)" for r
    using inv c by (intro owner_moves [OF inv]) (auto simp: pool_inv_def size_inv_def full_inv_def full_def)
  show ?thesis
    using go [of KIdle] go [of KWakeup] go [of KWakeWait] go [of KDtorStop] go [of "KAddRun _ _"] n upd
    by (auto simp: host_call_def split: call.split option.split)
qed

lemma spurious_pool_inv:
  assumes inv: "pool_inv s" and st: "spurious_wakeup (bar s) = Some b"
  shows "pool_inv (s\<lparr>bar := b\<rparr>)"
proof (rule pool_invI)
  note i = pool_invD [OF inv]
  have b: "no_threads b = no_threads (bar s)" "no_on_barrier b = no_on_barrier (bar s)"
    "active_sem_idx b = active_sem_idx (bar s)"
    using st by (auto simp: spurious_wakeup_def split: if_splits)
  show "barrier_inv (bar (s\<lparr>bar := b\<rparr>)) (threads (s\<lparr>bar := b\<rparr>)) (call_of (s\<lparr>bar := b\<rparr>))"
    using spurious_barrier_inv [OF st i(1)] by (simp add: threads_def)
  show "size_inv (s\<lparr>bar := b\<rparr>)" using i(2) b by (simp add: size_inv_def)
  show "full_inv (s\<lparr>bar := b\<rparr>)" using i(3) b by (simp add: full_inv_def full_def)
  have "doomed (s\<lparr>bar := b\<rparr>) j = doomed s j" for j by (simp add: doomed_def)
  then have "stop_inv (s\<lparr>bar := b\<rparr>) = stop_inv s" using b by (simp add: stop_inv_def)
  then show "stop_inv (s\<lparr>bar := b\<rparr>)" using i(4) by simp
  show "hist_inv (s\<lparr>bar := b\<rparr>)" using i(5) b by (simp add: hist_inv_def)
  show "status_inv (s\<lparr>bar := b\<rparr>)" using i(6) by (simp add: status_inv_def)
qed

text \<open>The steps that change the table of threads or the stop flags.\<close>

lemma add_exec_pool_inv:
  assumes inv: "pool_inv s" and c: "ctl s = AddExec a' c"
  shows "pool_inv (add_exec a c s)"
proof (cases "errno_to_worker_status (run_worker a) = WPS_OK")
  case False
  note i = pool_invD [OF inv]
  show ?thesis
    using False c i(2) enter_from_outside [OF i(1)]
    by (intro owner_moves [OF inv])
      (auto simp: add_exec_def Let_def size_inv_def full_inv_def is_release_def)
next
  case True
  note i = pool_invD [OF inv]
  let ?w = "new_worker a (cpu_id_of (cores s ! c)) (epoch s)"
  let ?t = "s\<lparr>no_workers := no_workers s + 1, workers := workers s @ [?w],
              ctl := InBar (CLock WaitForAll) (KAddIdle c)\<rparr>"
  have t: "add_exec a c s = ?t" using True by (simp add: add_exec_def)
  have w: "wpc ?w = WInit" "thread_running ?w" "born ?w = epoch s" "calls ?w = 0"
    by (simp_all add: new_worker_def)
  have nth: "j < num s \<Longrightarrow> (workers s @ [?w]) ! j = workers s ! j" "(workers s @ [?w]) ! num s = ?w" for j
    by (simp_all add: nth_append)
  have nd: "\<not> doomed s j" "\<not> doomed ?t j" for j using c by (simp_all add: doomed_def)
  have ex: "\<forall>j < num s. wpc (workers s ! j) \<noteq> WExited" "pool_running s"
    "\<forall>j < num s. thread_running (workers s ! j)"
    using i(4) nd(1) c by (auto simp: stop_inv_def)
  have "barrier_inv (bar s) (threads s @ [None]) None"
    using i(1) c by (intro barrier_inv_append) auto
  then have "barrier_inv (bar s) (threads s @ [None]) (Some (CLock WaitForAll))"
    by (intro enter_barrier_inv) auto
  moreover have "threads ?t = threads s @ [None]" using w by (simp add: threads_def)
  ultimately have "barrier_inv (bar ?t) (threads ?t) (call_of ?t)" by simp
  moreover have "size_inv ?t" using i(2) c by (auto simp: size_inv_def)
  moreover have "full_inv ?t" by (simp add: full_inv_def)
  moreover have "stop_inv ?t"
    using ex w nd nth unfolding stop_inv_def by (auto simp: less_Suc_eq)
  moreover have "hist_inv ?t"
    using i(5) w nth by (auto simp: hist_inv_def less_Suc_eq)
  moreover have "status_inv ?t"
    using i(6) w nth by (auto simp: status_inv_def less_Suc_eq)
  ultimately show ?thesis unfolding t by (rule pool_invI)
qed

lemma add_stop_pool_inv:
  assumes inv: "pool_inv s" and c: "ctl s = AddStop c st"
  shows "pool_inv (s\<lparr>workers := (workers s)[num s - 1 := (last_worker s)\<lparr>thread_running := False\<rparr>],
                  ctl := InBar (CLock ReleaseAll) (KAddStopped c st)\<rparr>)" (is "pool_inv ?t")
proof (rule pool_invI)
  note i = pool_invD [OF inv]
  let ?l = "num s - 1"
  let ?w = "(last_worker s)\<lparr>thread_running := False\<rparr>"
  have pos: "num s > 0" using i(2) c by (simp add: size_inv_def)
  have lw: "last_worker s = workers s ! ?l" by (simp add: last_worker_def)
  have th: "threads ?t = threads s"
    using pos by (intro nth_equalityI) (auto simp: threads_def nth_list_update lw)
  have n: "no_threads (bar s) = int (num s)" using i(2) c by (simp add: size_inv_def)
  show "barrier_inv (bar ?t) (threads ?t) (call_of ?t)"
    using enter_from_outside [OF i(1), of ReleaseAll] th c n by simp
  show "size_inv ?t" using i(2) c by (auto simp: size_inv_def)
  show "full_inv ?t" using i(3) c by (auto simp: full_inv_def full_def)
  have nd: "\<not> doomed s j" for j using c by (simp add: doomed_def)
  have ex: "\<forall>j < num s. wpc (workers s ! j) \<noteq> WExited" "pool_running s"
    "\<forall>j < num s. thread_running (workers s ! j)"
    using i(4) nd c by (auto simp: stop_inv_def)
  then show "stop_inv ?t"
    using pos unfolding stop_inv_def by (auto simp: nth_list_update lw)
  show "hist_inv ?t" using i(5) pos by (auto simp: hist_inv_def nth_list_update lw)
  show "status_inv ?t" using i(6) pos by (auto simp: status_inv_def nth_list_update lw)
qed

lemma add_pop_pool_inv:
  assumes inv: "pool_inv s" and c: "ctl s = AddPop st" and ex: "wpc (last_worker s) = WExited"
  shows "pool_inv (s\<lparr>workers := butlast (workers s), ctl := Host,
                        ret := r, quiet := q\<rparr>)" (is "pool_inv ?t")
proof (rule pool_invI)
  note i = pool_invD [OF inv]
  have pos: "num s > 0" using i(2) c by (simp add: size_inv_def)
  then have ws: "workers s = butlast (workers s) @ [last_worker s]"
    by (metis append_butlast_last_id last_conv_nth last_worker_def length_greater_0_conv)
  have nth: "j < num s - 1 \<Longrightarrow> butlast (workers s) ! j = workers s ! j" for j by (simp add: nth_butlast)
  have "threads s = threads ?t @ [None]"
    using ex by (subst threads_def, subst ws) (simp add: threads_def)
  then have "barrier_inv (bar s) (threads ?t @ [None]) None" using i(1) c by simp
  then show "barrier_inv (bar ?t) (threads ?t) (call_of ?t)"
    using barrier_inv_butlast [of "bar s" "threads ?t" None None] by simp
  have "int (num s - 1) = int (num s) - 1" using pos by linarith
  then show "size_inv ?t" using i(2) c by (simp add: size_inv_def)
  show "full_inv ?t" by (simp add: full_inv_def)
  have "\<forall>j < num s. wpc (workers s ! j) = WExited \<longrightarrow> j = num s - 1"
    "\<forall>j < num s. thread_running (workers s ! j) = (j \<noteq> num s - 1)" and run: "pool_running s"
    using i(4) c by (auto simp: stop_inv_def doomed_def)
  then have "\<forall>j < num s - 1. wpc (workers s ! j) \<noteq> WExited \<and> thread_running (workers s ! j)"
    by (metis less_imp_diff_less less_irrefl less_trans_Suc diff_less pos zero_less_one order.strict_trans)
  with run have "\<forall>j < num s - 1. wpc (workers s ! j) \<noteq> WExited \<and> thread_running (workers s ! j)" "pool_running s"
    by blast+
  then show "stop_inv ?t" using nth unfolding stop_inv_def by (simp add: doomed_def)
  show "hist_inv ?t" using i(5) nth by (simp add: hist_inv_def)
  show "status_inv ?t" using i(6) nth by (simp add: status_inv_def)
qed

lemma dtor_flag_pool_inv:
  assumes inv: "pool_inv s" and c: "ctl s = DtorFlag"
  shows "pool_inv (s\<lparr>pool_running := False, ctl := InBar (CLock ReleaseAll) KDtorJoin\<rparr>)" (is "pool_inv ?t")
proof (rule pool_invI)
  note i = pool_invD [OF inv]
  have n: "no_threads (bar s) = int (num s)" using i(2) c by (simp add: size_inv_def)
  have th: "threads ?t = threads s" by (simp add: threads_def)
  show "barrier_inv (bar ?t) (threads ?t) (call_of ?t)"
    using enter_from_outside [OF i(1), of ReleaseAll] th c n by simp
  show "size_inv ?t" using i(2) c by (simp add: size_inv_def)
  show "full_inv ?t" using i(3) c by (auto simp: full_inv_def full_def)
  show "stop_inv ?t" using i(4) c by (auto simp: stop_inv_def doomed_def)
  show "hist_inv ?t" using i(5) by (simp add: hist_inv_def)
  show "status_inv ?t" using i(6) by (simp add: status_inv_def)
qed

lemma caller_pool_inv:
  assumes inv: "pool_inv s" and st: "caller_step s = Some t"
  shows "pool_inv t"
proof (cases "ctl s")
  case (InBar pc k)
  show ?thesis
  proof (cases "pc = CRet")
    case True
    then show ?thesis using resume_pool_inv [OF inv] InBar st by (simp add: caller_step_def)
  next
    case False
    then obtain pc' b' where "call_step pc (bar s) = Some (pc', b')" "t = move_caller pc' b' pc k s"
      using st InBar by (auto simp: caller_step_def move_caller_def split: option.splits)
    then show ?thesis using move_pool_inv [OF inv InBar False] by simp
  qed
next
  case (AddCount a c)
  then show ?thesis using st pool_invD(2) [OF inv]
    by (intro owner_moves [OF inv])
      (auto simp: caller_step_def size_inv_def full_inv_def add_core_workers_def split: if_splits)
next
  case (AddExec a c)
  then show ?thesis using st add_exec_pool_inv [OF inv AddExec, of a] by (simp add: caller_step_def)
next
  case (AddStatus c)
  then show ?thesis using st pool_invD(2,3) [OF inv]
    by (intro owner_moves [OF inv])
      (auto simp: caller_step_def size_inv_def full_inv_def full_def split: if_splits)
next
  case (AddStop c st')
  then show ?thesis using st add_stop_pool_inv [OF inv] by (simp add: caller_step_def)
next
  case (AddShrink c st')
  then show ?thesis using st pool_invD(2) [OF inv] enter_from_outside [OF pool_invD(1) [OF inv]]
    by (intro owner_moves [OF inv])
      (auto simp: caller_step_def size_inv_def full_inv_def is_release_def)
next
  case (AddUncount c st')
  then show ?thesis using st pool_invD(2) [OF inv]
    by (intro owner_moves [OF inv]) (auto simp: caller_step_def size_inv_def full_inv_def)
next
  case (AddPop st')
  then show ?thesis using st add_pop_pool_inv [OF inv] by (auto simp: caller_step_def split: if_splits)
next
  case DtorFlag
  then show ?thesis using st dtor_flag_pool_inv [OF inv] by (simp add: caller_step_def)
next
  case (DtorJoin n)
  then show ?thesis using st pool_invD(2,4) [OF inv]
    by (intro owner_moves [OF inv])
      (auto simp: caller_step_def size_inv_def full_inv_def stop_inv_def less_Suc_eq split: if_splits)
qed (use st in \<open>simp_all add: caller_step_def\<close>)

subsection \<open>The invariant holds in every reachable state\<close>

lemma pool_step_inv: "pool_step s l t \<Longrightarrow> pool_inv s \<Longrightarrow> pool_inv t"
  by (induction rule: pool_step.induct)
    (auto intro: caller_pool_inv spurious_pool_inv host_call_pool_inv
      worker_pool_inv [unfolded put_worker_def])

interpretation pool_sys: invariant_system pool_step "new_pool cs" pool_inv for cs
  by unfold_locales (auto intro: pool_inv_new pool_step_inv)

end
