(* ===== verification/Pool_Contract.thy ===== *)
theory Pool_Contract
  imports Pool_Invariant
begin

text \<open>
  What the host gets from the pool. Under the documented use (wake the workers only when
  they are known to be idle) the assertion of the release methods never fails, and the
  results of the methods are those of sequential specifications: \<open>add_worker_spec\<close> for
  \<open>add_worker\<close>, and a count of callbacks for the wake-ups. The specifications are
  predictions: at every point inside a method the outcome is already determined, and no
  step of any thread changes it.
\<close>

subsection \<open>Documented use: the assertion never fails\<close>

fun keeps_quiet :: "ctl \<Rightarrow> bool" where
  "keeps_quiet Host = True"
| "keeps_quiet (InBar _ (KAddRun _ _)) = True"
| "keeps_quiet (InBar _ (KAddRunFailed _)) = True"
| "keeps_quiet (AddCount _ _) = True"
| "keeps_quiet (AddExec _ _) = True"
| "keeps_quiet _ = False"

fun host_release :: "kont \<Rightarrow> bool" where
  "host_release KWakeup = True"
| "host_release KWakeWait = True"
| "host_release _ = False"

definition quiet_inv :: "pool \<Rightarrow> bool" where
  [inv_defs]: "quiet_inv s \<longleftrightarrow>
     (quiet s \<and> keeps_quiet (ctl s) \<longrightarrow> full s) \<and>
     (\<forall>pc k. ctl s = InBar pc k \<and> host_release k \<and> early pc \<longrightarrow> full s \<and> pc \<noteq> CAbort)"

definition host_inv :: "pool \<Rightarrow> bool" where
  "host_inv s \<longleftrightarrow> pool_inv s \<and> quiet_inv s"

lemma keeps_quiet_not_reset:
  assumes "size_inv s" and "keeps_quiet (ctl s)"
  shows "\<not> in_reset (call_of s)"
proof (cases "ctl s")
  case (InBar pc k)
  then obtain m where "kcall (int (num s)) k = SetNoThreads m"
    using assms(2) by (cases k) auto
  then have "in_code (SetNoThreads m) pc" using assms(1) InBar by (auto simp: size_inv_def)
  then show ?thesis using InBar in_code_set by fastforce
qed auto

lemma worker_quiet_inv:
  assumes inv: "host_inv s" and i: "i < num s"
    and st: "worker_step i (pool_running s) (workers s ! i) (bar s) = Some (w', b')"
  shows "quiet_inv (put_worker i w' b' s)"
proof -
  have p: "pool_inv s" and q: "quiet_inv s" using inv by (auto simp: host_inv_def)
  note b = pool_invD(1) [OF p]
  have f: "full s \<Longrightarrow> \<not> in_reset (call_of s) \<Longrightarrow> full (put_worker i w' b' s)"
    using full_worker [OF b _ _ i st] by simp
  have "early pc \<Longrightarrow> \<not> in_reset (Some pc)" for pc by (cases pc) auto
  then show ?thesis
    using q f keeps_quiet_not_reset [OF pool_invD(2) [OF p]] by (auto simp: quiet_inv_def)
qed

lemma early_release_step:
  assumes "call_step pc b = Some (pc', b')" and "in_code c pc" and "is_release c" and "early pc'"
    and "early pc \<Longrightarrow> no_on_barrier b = no_threads b"
  shows "early pc \<and> no_on_barrier b' = no_on_barrier b \<and> pc' \<noteq> CAbort"
  using assms by (cases pc) (auto simp: is_release_def split: if_splits)

lemma host_release_call:
  "host_release k \<Longrightarrow> is_release (kcall n k) \<and> delta (InBar pc k) = 0 \<and> \<not> keeps_quiet (InBar pc k)"
  by (cases k) (auto simp: is_release_def)

lemma move_quiet_inv:
  assumes p: "pool_inv s" and q: "quiet_inv s" and c: "ctl s = InBar pc k"
    and st: "call_step pc (bar s) = Some (pc', b')"
  shows "quiet_inv (move_caller pc' b' pc k s)"
proof (cases "host_release k")
  case True
  note r = host_release_call [OF True, of "int (num s)" pc] host_release_call [OF True, of "int (num s)" pc']
  have ic: "in_code (kcall (int (num s)) k) pc" and n: "no_threads (bar s) = int (num s)"
    using pool_invD(2) [OF p] c r by (auto simp: size_inv_def)
  have e: "early pc \<Longrightarrow> full s" using q c True by (auto simp: quiet_inv_def)
  have "early pc' \<Longrightarrow> full (move_caller pc' b' pc k s) \<and> pc' \<noteq> CAbort"
    using early_release_step [OF st ic] r e n by (auto simp: full_def)
  then show ?thesis using r by (auto simp: quiet_inv_def)
next
  case False
  have "full (move_caller pc' b' pc k s)" if "quiet s" "keeps_quiet (InBar pc' k)"
  proof -
    have kq: "keeps_quiet (InBar pc k)" using that(2) by (cases k) auto
    then obtain m where "kcall (int (num s)) k = SetNoThreads m" by (cases k) auto
    then have "in_code (SetNoThreads m) pc"
      using pool_invD(2) [OF p] c by (auto simp: size_inv_def)
    then have "no_on_barrier b' = no_on_barrier (bar s)"
      using in_code_set st by (fastforce split: if_splits)
    moreover have "full s" using q c kq that by (auto simp: quiet_inv_def)
    ultimately show ?thesis by (simp add: full_def)
  qed
  then show ?thesis using False by (auto simp: quiet_inv_def)
qed

lemma caller_quiet_inv:
  assumes inv: "host_inv s" and st: "caller_step s = Some t"
  shows "quiet_inv t"
proof -
  have p: "pool_inv s" and q: "quiet_inv s" using inv by (auto simp: host_inv_def)
  note mf = pool_invD(3) [OF p]
  show ?thesis
  proof (cases "ctl s")
    case (InBar pc k)
    show ?thesis
    proof (cases "pc = CRet")
      case True
      with InBar st have "t = resume k s" by (simp add: caller_step_def)
      then show ?thesis
        using InBar True q mf by (cases k) (auto simp: quiet_inv_def full_inv_def full_def)
    next
      case False
      then obtain pc' b' where "call_step pc (bar s) = Some (pc', b')" "t = move_caller pc' b' pc k s"
        using st InBar by (auto simp: caller_step_def move_caller_def split: option.splits)
      then show ?thesis using move_quiet_inv [OF p q InBar] by simp
    qed
  qed (use st q mf in \<open>auto simp: caller_step_def add_exec_def Let_def quiet_inv_def full_inv_def full_def
      split: if_splits\<close>)
qed

lemma call_quiet_inv:
  assumes "quiet_inv s" and "ctl s = Host" and "allowed s (LCall c)"
  shows "quiet_inv (host_call c s)"
  using assms by (cases c) (auto simp: quiet_inv_def host_call_def full_def split: option.splits)

lemma host_inv_step: "host_step s l t \<Longrightarrow> host_inv s \<Longrightarrow> host_inv t"
proof (induction rule: host_step.induct)
  case (host_stepI s l t)
  then have p: "pool_inv t" using pool_step_inv by (auto simp: host_inv_def)
  have "quiet_inv t"
    using host_stepI(2)
  proof cases
    case step_caller
    then show ?thesis using caller_quiet_inv host_stepI.prems by blast
  next
    case (step_worker i w b)
    then show ?thesis using worker_quiet_inv [OF host_stepI.prems] by (simp add: put_worker_def)
  next
    case (step_spurious b)
    then show ?thesis
      using host_stepI.prems
      by (auto simp: host_inv_def quiet_inv_def full_def spurious_wakeup_def split: if_splits)
  next
    case (step_call c)
    then show ?thesis using call_quiet_inv host_stepI by (auto simp: host_inv_def)
  qed
  with p show ?case by (simp add: host_inv_def)
qed

lemma host_inv_new: "host_inv (new_pool cs)"
  using pool_inv_new [of cs]
  by (simp add: host_inv_def quiet_inv_def) (simp add: new_pool_def full_def new_barrier_def)

interpretation host_sys: invariant_system host_step "new_pool cs" host_inv for cs
  by unfold_locales (auto intro: host_inv_new host_inv_step)

text \<open>With at least one core, no iterator is dereferenced past the end.\<close>

lemma min_loop_bound: "best < i \<Longrightarrow> min_loop cs i best least < i + length cs"
  by (induction cs i best least rule: min_loop.induct) (auto split: if_splits)

lemma min_core_bound: "cs \<noteq> [] \<Longrightarrow> min_core cs < length cs"
proof (cases cs)
  case (Cons c cs')
  then show ?thesis using min_loop_bound [of 0 1 cs' "cpu_workers c"] by simp
qed simp

lemma find_core_le: "find_core k cs \<le> length cs"
  by (induction cs) auto

fun chosen :: "ctl \<Rightarrow> nat option" where
  "chosen (InBar _ (KAddRun _ c)) = Some c"
| "chosen (AddCount _ c) = Some c"
| "chosen _ = None"

definition core_inv :: "nat \<Rightarrow> pool \<Rightarrow> bool" where
  "core_inv n s \<longleftrightarrow> length (cores s) = n \<and> (\<forall>c. chosen (ctl s) = Some c \<longrightarrow> c < n)
     \<and> (\<forall>u. ctl s \<noteq> Undefined u)"

lemma chosen_move: "chosen (InBar pc k) = chosen (InBar pc' k)"
  by (cases k) auto

lemma core_inv_step:
  assumes "pool_step s l t" and "0 < n" and "core_inv n s"
  shows "core_inv n t"
  using assms(1)
proof cases
  case step_caller
  show ?thesis
  proof (cases "ctl s")
    case (InBar pc k)
    then show ?thesis
      using step_caller assms(3) chosen_move [of pc k]
      by (cases k) (auto simp: caller_step_def core_inv_def split: if_splits option.splits)
  qed (use step_caller assms(3) in
      \<open>auto simp: caller_step_def core_inv_def add_core_workers_def add_exec_def Let_def split: if_splits\<close>)
next
  case (step_call c)
  have "cores s \<noteq> []" using assms(2,3) by (auto simp: core_inv_def)
  then have "min_core (cores s) < n" using assms(3) min_core_bound by (auto simp: core_inv_def)
  moreover have "find_core k (cores s) \<noteq> length (cores s) \<Longrightarrow> find_core k (cores s) < n" for k
    using find_core_le [of k "cores s"] assms(3) by (auto simp: core_inv_def)
  ultimately show ?thesis
    using step_call assms(3)
    by (cases c) (auto simp: core_inv_def host_call_def split: option.splits)
qed (use assms(3) in \<open>auto simp: core_inv_def\<close>)

lemma core_inv_new: "core_inv (length cs) (new_pool cs)"
  by (simp add: core_inv_def new_pool_def)

lemma core_inv_reach:
  "reach pool_step (new_pool cs) s \<Longrightarrow> cs \<noteq> [] \<Longrightarrow> core_inv (length cs) s"
  by (induction rule: reach.induct) (auto intro: core_inv_new core_inv_step)

lemma host_reach_pool: "reach host_step (new_pool cs) s \<Longrightarrow> reach pool_step (new_pool cs) s"
  by (rule reach_mono [of host_step]) (auto simp: host_step_iff)

subsection \<open>Sequential specification of add_worker\<close>

type_synonym outcome =
  "(worker_pool_status \<times> apple_status) option \<times> cpu_info list \<times> (int \<times> int) list"

text \<open>Affinity and priority of the workers of the pool, in order.\<close>

definition profile :: "pool \<Rightarrow> (int \<times> int) list" where
  "profile s = map (\<lambda>w. (affinity w, priority w)) (workers s)"

definition outcome_of :: "pool \<Rightarrow> outcome" where
  "outcome_of s = (ret s, cores s, profile s)"

text \<open>The status a worker has once its thread has initialised.\<close>

definition final_status :: "add_args \<Rightarrow> apple_status" where
  "final_status a = (case os_init a of Some st \<Rightarrow> st | None \<Rightarrow> ctor_status a)"

text \<open>The end of \<open>add_worker\<close>, after the worker has been counted on core \<open>c\<close>.\<close>

definition start_spec :: "add_args \<Rightarrow> nat \<Rightarrow> cpu_info list \<Rightarrow> (int \<times> int) list \<Rightarrow> outcome" where
  "start_spec a c cs ws =
     (let res = errno_to_worker_status (run_worker a)
      in if res \<noteq> WPS_OK then (Some (res, ATS_OK), cs, ws)
         else if final_status a \<noteq> ATS_OK
              then (Some (POOL_ERROR, final_status a), add_core_workers c (- 1) cs, ws)
         else (Some (WPS_OK, ATS_OK), cs, ws @ [(cpu_id_of (cs ! c), arg_priority a)]))"

definition add_worker_spec :: "add_args \<Rightarrow> cpu_info list \<Rightarrow> (int \<times> int) list \<Rightarrow> outcome" where
  "add_worker_spec a cs ws =
     (case arg_cpu a of
        Some k \<Rightarrow>
          (if find_core k cs = length cs then (Some (INVALID_ARGUMENTS, EMPTY), cs, ws)
           else start_spec a (find_core k cs) (add_core_workers (find_core k cs) 1 cs) ws)
      | None \<Rightarrow> start_spec a (min_core cs) (add_core_workers (min_core cs) 1 cs) ws)"

subsection \<open>The outcome is determined while the method runs\<close>

definition resolved :: "worker \<Rightarrow> apple_status" where
  "resolved w = (case init_write w of Some st \<Rightarrow> st | None \<Rightarrow> status w)"

definition stopped_outcome :: "nat \<Rightarrow> apple_status \<Rightarrow> pool \<Rightarrow> outcome" where
  "stopped_outcome c st s =
     (Some (POOL_ERROR, st), add_core_workers c (- 1) (cores s), butlast (profile s))"

definition checked_outcome :: "nat \<Rightarrow> pool \<Rightarrow> outcome" where
  "checked_outcome c s =
     (if resolved (last_worker s) \<noteq> ATS_OK then stopped_outcome c (resolved (last_worker s)) s
      else (Some (WPS_OK, ATS_OK), cores s, profile s))"

fun predict_in :: "kont \<Rightarrow> pool \<Rightarrow> outcome" where
  "predict_in (KAddRun a c) s = start_spec a c (add_core_workers c 1 (cores s)) (profile s)"
| "predict_in (KAddRunFailed res) s = (Some (res, ATS_OK), cores s, profile s)"
| "predict_in (KAddIdle c) s = checked_outcome c s"
| "predict_in (KAddStopped c st) s = stopped_outcome c st s"
| "predict_in (KAddShrunk c st) s = stopped_outcome c st s"
| "predict_in _ s = outcome_of s"

fun predict_at :: "ctl \<Rightarrow> pool \<Rightarrow> outcome" where
  "predict_at (InBar _ k) s = predict_in k s"
| "predict_at (AddCount a c) s = start_spec a c (add_core_workers c 1 (cores s)) (profile s)"
| "predict_at (AddExec a c) s = start_spec a c (cores s) (profile s)"
| "predict_at (AddStatus c) s = checked_outcome c s"
| "predict_at (AddStop c st) s = stopped_outcome c st s"
| "predict_at (AddShrink c st) s = stopped_outcome c st s"
| "predict_at (AddUncount c st) s = stopped_outcome c st s"
| "predict_at (AddPop st) s = (Some (POOL_ERROR, st), cores s, butlast (profile s))"
| "predict_at _ s = outcome_of s"

definition predict :: "pool \<Rightarrow> outcome" where
  "predict s = predict_at (ctl s) s"

lemma predict_at_cong:
  assumes "ret t = ret s" "cores t = cores s" "profile t = profile s"
    and "adding c \<Longrightarrow> resolved (last_worker t) = resolved (last_worker s)"
  shows "predict_at c t = predict_at c s"
proof (cases c)
  case (InBar pc k)
  then show ?thesis using assms
    by (cases k) (auto simp: outcome_of_def stopped_outcome_def checked_outcome_def)
qed (use assms in \<open>auto simp: outcome_of_def stopped_outcome_def checked_outcome_def\<close>)

lemma resolved_worker:
  assumes "worker_step i go w b = Some (w', b')"
  shows "resolved w' = resolved w"
  using assms by (cases rule: worker_step_cases) (auto simp: resolved_def split: option.splits)

lemma profile_put:
  assumes "worker_step i go (workers s ! i) b = Some (w', b')"
  shows "profile (put_worker i w' b'' s) = profile s"
proof (cases "i < num s")
  case True
  then show ?thesis using worker_thread_running [OF assms]
    by (intro nth_equalityI) (auto simp: profile_def nth_list_update)
qed (simp add: profile_def list_update_beyond)

lemma last_put: "i < num s \<Longrightarrow> last_worker (put_worker i w b s) = (if i = num s - 1 then w else last_worker s)"
  unfolding last_worker_def put_worker_simps length_list_update by (rule nth_list_update)

lemma predict_worker:
  assumes i: "i < num s" and st: "worker_step i go (workers s ! i) (bar s) = Some (w', b')"
  shows "predict (put_worker i w' b' s) = predict s"
proof -
  have "resolved (last_worker (put_worker i w' b' s)) = resolved (last_worker s)"
    unfolding last_put [OF i] using resolved_worker [OF st] by (auto simp: last_worker_def)
  then show ?thesis
    unfolding predict_def put_worker_simps
    by (intro predict_at_cong) (simp_all add: profile_put [OF st])
qed

lemma last_status_resolved:
  assumes inv: "pool_inv s" and c: "ctl s = AddStatus c"
  shows "status (last_worker s) = resolved (last_worker s)"
proof -
  have pos: "num s > 0" using pool_invD(2) [OF inv] c by (simp add: size_inv_def)
  have "full s" using pool_invD(3) [OF inv] c by (simp add: full_inv_def)
  then have "parked_on (active_sem_idx (bar s)) (thr (wpc (last_worker s)))"
    using full_parked [OF pool_invD(1) [OF inv]] pos c by (simp add: last_worker_def)
  then have "wpc (last_worker s) \<noteq> WInit" by auto
  then show ?thesis
    using pool_invD(6) [OF inv] pos by (auto simp: status_inv_def last_worker_def resolved_def split: option.splits)
qed

lemma core_add_undo: "c < length cs \<Longrightarrow> add_core_workers c (- 1) (add_core_workers c 1 cs) = cs"
  by (simp add: add_core_workers_def)

lemma predict_add_exec:
  assumes "ctl s = AddExec a c"
  shows "predict (add_exec a c s) = predict s"
proof (cases "errno_to_worker_status (run_worker a) = WPS_OK")
  case True
  have "resolved (new_worker a cpu ep) = final_status a" for cpu ep
    by (simp add: resolved_def final_status_def new_worker_def split: option.split)
  then show ?thesis using True assms
    by (simp add: add_exec_def predict_def start_spec_def checked_outcome_def stopped_outcome_def
        profile_def last_worker_def) (simp add: new_worker_def)
next
  case False
  then show ?thesis using assms by (simp add: add_exec_def predict_def start_spec_def profile_def)
qed

lemma predict_caller:
  assumes inv: "pool_inv s" and st: "caller_step s = Some t" and u: "\<And>x. ctl t \<noteq> Undefined x"
  shows "predict t = predict s"
proof (cases "ctl s")
  case (InBar pc k)
  show ?thesis
  proof (cases "pc = CRet")
    case True
    with InBar st have "t = resume k s" by (simp add: caller_step_def)
    then show ?thesis using InBar
      by (cases k) (auto simp: predict_def outcome_of_def checked_outcome_def stopped_outcome_def
          profile_def last_worker_def)
  next
    case False
    then obtain pc' b' where t: "t = move_caller pc' b' pc k s"
      using st InBar by (auto simp: caller_step_def move_caller_def split: option.splits)
    have "predict_in k t = predict_in k s"
      using predict_at_cong [of t s "InBar pc k"] t by (simp add: profile_def last_worker_def)
    then show ?thesis using InBar t by (simp add: predict_def)
  qed
next
  case (AddCount a c)
  then show ?thesis using st u [of PastEndIterator]
    by (auto simp: caller_step_def predict_def profile_def split: if_splits)
next
  case (AddExec a c)
  then show ?thesis using st predict_add_exec [OF AddExec] by (simp add: caller_step_def)
next
  case (AddStatus c)
  then show ?thesis using st last_status_resolved [OF inv AddStatus]
    by (auto simp: caller_step_def predict_def checked_outcome_def stopped_outcome_def outcome_of_def
        profile_def split: if_splits)
next
  case (AddStop c x)
  have "map (\<lambda>w. (affinity w, priority w)) ((workers s)[num s - 1 := (last_worker s)\<lparr>thread_running := False\<rparr>])
      = map (\<lambda>w. (affinity w, priority w)) (workers s)"
    by (simp add: map_update last_worker_def) (metis (no_types, lifting) list_update_id map_update)
  then show ?thesis using st AddStop
    by (auto simp: caller_step_def predict_def stopped_outcome_def profile_def)
next
  case (AddShrink c x)
  then show ?thesis using st by (auto simp: caller_step_def predict_def stopped_outcome_def profile_def)
next
  case (AddUncount c x)
  then show ?thesis using st by (auto simp: caller_step_def predict_def stopped_outcome_def profile_def)
next
  case (AddPop x)
  then show ?thesis using st
    by (auto simp: caller_step_def predict_def outcome_of_def profile_def map_butlast split: if_splits)
qed (use st in \<open>auto simp: caller_step_def predict_def outcome_of_def profile_def split: if_splits\<close>)

fun is_call :: "label \<Rightarrow> bool" where
  "is_call (LCall _) = True"
| "is_call _ = False"

lemma predict_step:
  assumes st: "pool_step s l t" and "pool_inv s" and "\<not> is_call l" and "\<And>x. ctl t \<noteq> Undefined x"
  shows "predict t = predict s"
  using st
proof cases
  case step_caller
  then show ?thesis using predict_caller assms by blast
next
  case (step_worker i w b)
  then show ?thesis using predict_worker [of i s] by (simp add: put_worker_def)
next
  case (step_spurious b)
  then show ?thesis
    using predict_at_cong [of t s "ctl s"] by (simp add: predict_def profile_def last_worker_def)
next
  case (step_call c)
  then show ?thesis using assms by simp
qed

lemma undefined_stuck: "pool_step s l t \<Longrightarrow> ctl s = Undefined x \<Longrightarrow> False"
  by (auto elim!: pool_step.cases simp: caller_step_def aborted_def)

lemma predict_run:
  "run pool_step s ls t \<Longrightarrow> pool_inv s \<Longrightarrow> \<forall>l \<in> set ls. \<not> is_call l \<Longrightarrow> \<forall>x. ctl t \<noteq> Undefined x \<Longrightarrow>
   predict t = predict s"
proof (induction rule: run.induct)
  case (run_cons s l t ls u)
  have "ctl t \<noteq> Undefined x" for x
  proof
    assume "ctl t = Undefined x"
    with run_cons(2) have "u = t" by cases (auto dest: undefined_stuck)
    with \<open>ctl t = Undefined x\<close> run_cons.prems show False by auto
  qed
  moreover have "pool_inv t" using pool_step_inv run_cons by blast
  ultimately show ?case using run_cons predict_step by (metis list.set_intros)
qed simp

lemma predict_call:
  "ctl s = Host \<Longrightarrow> predict (host_call (AddWorker a) s) = add_worker_spec a (cores s) (profile s)"
  by (auto simp: host_call_def predict_def add_worker_spec_def outcome_of_def profile_def split: option.splits)

end
