(* ===== verification/Pool_Liveness.thy ===== *)
theory Pool_Liveness
  imports Pool_Invariant
begin

text \<open>
  Every method of the pool returns: the steps of the owner and of the workers consume a
  budget that is known at every state (spurious wake-ups are not charged: nothing bounds
  them), and while the owner is inside a method some thread can move. So no schedule can
  keep a method from returning, and there is no deadlock. The callbacks are taken to
  return.
\<close>

subsection \<open>The budget\<close>

text \<open>Steps a worker can take until it sleeps on the active semaphore \<open>a\<close>.\<close>

fun wdist :: "nat \<Rightarrow> worker_pc \<Rightarrow> nat" where
  "wdist a WInit = 10"
| "wdist a (WWait WtLock) = 9"
| "wdist a (WWait WtReadSem) = 8"
| "wdist a (WWait (WtInc _)) = 7"
| "wdist a (WWait (WtSignal _)) = 6"
| "wdist a (WWait (WtUnlock _)) = 1"
| "wdist a (WWait (WtSemWait k)) = (if k = a then 0 else 13)"
| "wdist a (WWait WtRet) = 12"
| "wdist a WCheckThread = 11"
| "wdist a WCallback = 10"
| "wdist a WExited = 0"

text \<open>Steps of the owner inside a barrier call of a pool of \<open>n\<close> threads.\<close>

fun cdist :: "nat \<Rightarrow> barrier \<Rightarrow> call_pc \<Rightarrow> nat" where
  "cdist n b (CLock WaitForAll) = 7"
| "cdist n b (CLock (SetNoThreads _)) = 3"
| "cdist n b (CLock ReleaseAll) = 14 * n + 11"
| "cdist n b (CLock ReleaseAndWait) = 14 * n + 11"
| "cdist n b CFetch = 6"
| "cdist n b (CCompare _) = 5"
| "cdist n b (CWhile _) = 4"
| "cdist n b CCondWait = 3"
| "cdist n b CWake = (if cv_blocked b then 2 else 6)"
| "cdist n b CReload = 5"
| "cdist n b (CSet _) = 2"
| "cdist n b (CAssert _) = 14 * n + 10"
| "cdist n b (CReset _) = 14 * n + 9"
| "cdist n b (CPrev _) = 14 * n + 8"
| "cdist n b (CSwap _ _) = 14 * n + 7"
| "cdist n b (CFor _ _ i) = nat (int n - i) + 6"
| "cdist n b CUnlock = 1"
| "cdist n b CRet = 0"
| "cdist n b CAbort = 0"

text \<open>Steps of the owner after the barrier call, including those of later calls.\<close>

fun kdist :: "nat \<Rightarrow> kont \<Rightarrow> nat" where
  "kdist n KIdle = 1"
| "kdist n KWakeup = 1"
| "kdist n KWakeWait = 1"
| "kdist n (KAddRunFailed _) = 1"
| "kdist n (KAddRun _ _) = 14 * n + 57"
| "kdist n (KAddIdle _) = 14 * n + 22"
| "kdist n (KAddStopped _ _) = 8"
| "kdist n (KAddShrunk _ _) = 3"
| "kdist n KDtorStop = 15 * n + 15"
| "kdist n KDtorJoin = n + 2"

fun odist :: "nat \<Rightarrow> barrier \<Rightarrow> ctl \<Rightarrow> nat" where
  "odist n b Host = 0"
| "odist n b (InBar pc k) = cdist n b pc + kdist n k"
| "odist n b (AddCount _ _) = 14 * n + 56"
| "odist n b (AddExec _ _) = 14 * n + 55"
| "odist n b (AddStatus _) = 14 * n + 21"
| "odist n b (AddStop _ _) = 14 * n + 20"
| "odist n b (AddShrink _ _) = 7"
| "odist n b (AddUncount _ _) = 2"
| "odist n b (AddPop _) = 1"
| "odist n b DtorFlag = 15 * n + 14"
| "odist n b (DtorJoin i) = n - i + 1"
| "odist n b Gone = 0"
| "odist n b (Undefined _) = 0"

definition wsum :: "nat \<Rightarrow> worker list \<Rightarrow> nat" where
  "wsum a ws = sum_list (map (\<lambda>w. wdist a (wpc w)) ws)"

definition budget :: "pool \<Rightarrow> nat" where
  "budget s = odist (num s) (bar s) (ctl s) + wsum (active_sem_idx (bar s)) (workers s)"

fun work_label :: "label \<Rightarrow> bool" where
  "work_label LCaller = True"
| "work_label (LWorker _) = True"
| "work_label _ = False"

text \<open>The owner is back in the host, the pool is destroyed, or the process has died.\<close>

definition returned :: "pool \<Rightarrow> bool" where
  "returned s \<longleftrightarrow> ctl s = Host \<or> ctl s = Gone \<or> aborted s"

subsection \<open>Every work step is charged\<close>

lemma wsum_update:
  "i < length ws \<Longrightarrow> wsum a (ws[i := w]) + wdist a (wpc (ws ! i)) = wsum a ws + wdist a (wpc w)"
  unfolding wsum_def by (rule sum_list_update_nat [where f = "\<lambda>w. wdist a (wpc w)"])

lemma wait_dist:
  assumes "wait_step i p b = Some (p', b')" and "sem_ok (active_sem_idx b) (Some p)"
    and "sems b (active_sem_idx b) = 0"
  shows "wdist (active_sem_idx b) (WWait p') + (if cv_blocked b \<and> \<not> cv_blocked b' then 4 else 0)
    < wdist (active_sem_idx b) (WWait p)"
  using assms by (cases p) (auto simp: Let_def split: if_splits)

lemma odist_unblock:
  assumes "no_threads b' = no_threads b" and "\<not> cv_blocked b \<Longrightarrow> \<not> cv_blocked b'"
  shows "odist n b' c \<le> odist n b c + (if cv_blocked b \<and> \<not> cv_blocked b' then 4 else 0)"
proof (cases c)
  case (InBar pc k)
  show ?thesis
  proof (cases pc)
    case (CLock d)
    with InBar show ?thesis by (cases d) auto
  qed (use InBar assms in auto)
qed auto

lemma wait_unblocks: "wait_step i p b = Some (p', b') \<Longrightarrow> cv_blocked b' \<Longrightarrow> cv_blocked b"
  by (cases p) (auto simp: Let_def split: if_splits)

lemma worker_dist:
  assumes st: "worker_step i go w b = Some (w', b')" and "sem_ok (active_sem_idx b) (thr (wpc w))"
    and "sems b (active_sem_idx b) = 0"
  shows "wdist (active_sem_idx b) (wpc w') + (if cv_blocked b \<and> \<not> cv_blocked b' then 4 else 0)
    < wdist (active_sem_idx b) (wpc w)"
  using st
proof (cases rule: worker_step_cases)
  case (wait p p')
  then show ?thesis using wait_dist assms(2,3) by simp
qed auto

lemma worker_budget:
  assumes inv: "pool_inv s" and i: "i < num s"
    and st: "worker_step i (pool_running s) (workers s ! i) (bar s) = Some (w', b')"
  shows "budget (put_worker i w' b' s) < budget s"
proof -
  have g: "gen_inv (bar s) (threads s) (call_of s)" using barrier_invD(2) pool_invD(1) inv by blast
  then have ok: "sem_ok (active_sem_idx (bar s)) (thr (wpc (workers s ! i)))"
      "sems (bar s) (active_sem_idx (bar s)) = 0"
    using i by (auto simp: gen_inv_def dest: spec [of _ i])
  have nb: "\<not> cv_blocked (bar s) \<Longrightarrow> \<not> cv_blocked b'"
    using st by (cases rule: worker_step_cases) (auto dest: wait_unblocks)
  have "odist (num s) b' (ctl s) \<le> odist (num s) (bar s) (ctl s)
      + (if cv_blocked (bar s) \<and> \<not> cv_blocked b' then 4 else 0)"
    using odist_unblock [OF worker_barrier_frame(1) [OF st] nb] .
  moreover note worker_dist [OF st ok] wsum_update [OF i, of "active_sem_idx (bar s)" w']
  ultimately show ?thesis
    using worker_barrier_frame(2) [OF st] by (simp add: budget_def split: if_splits)
qed

lemma move_budget_plain:
  assumes b: "barrier_inv (bar s) (threads s) (call_of s)" and c: "ctl s = InBar pc k"
    and st: "call_step pc (bar s) = Some (pc', b')" and ns: "\<not> is_swap pc" and nr: "pc \<noteq> CRet"
    and ic: "in_code (kcall (int (num s)) k) pc"
  shows "cdist (num s) b' pc' < cdist (num s) (bar s) pc"
proof -
  have g: "gen_inv (bar s) (threads s) (Some pc)" and w: "wake_inv (bar s) (threads s) (Some pc)"
    using barrier_invD [OF b] c by auto
  show ?thesis
  proof (cases pc)
    case (CLock d)
    with st show ?thesis by (cases d) (auto split: if_splits)
  next
    case (CFor f j i)
    with st g show ?thesis by (auto simp: gen_inv_def sem_signal_def split: if_splits)
  next
    case (CAssert f)
    with st show ?thesis by (auto split: if_splits)
  qed (use st ns nr in \<open>auto split: if_splits\<close>)
qed

lemma move_budget:
  assumes inv: "pool_inv s" and c: "ctl s = InBar pc k" and nr: "pc \<noteq> CRet"
    and st: "call_step pc (bar s) = Some (pc', b')"
  shows "budget (move_caller pc' b' pc k s) < budget s"
proof (cases "is_swap pc")
  case False
  have "in_code (kcall (int (num s)) k) pc" using pool_invD(2) [OF inv] c by (simp add: size_inv_def)
  then show ?thesis
    using move_budget_plain [OF pool_invD(1) [OF inv] c st False nr] not_swap_idx [OF st False] c
    by (simp add: budget_def)
next
  case True
  then obtain f j where pc: "pc = CSwap f j" by (rule is_swapE)
  note b = pool_invD(1) [OF inv]
  have w: "wpc (workers s ! i) = WWait (WtSemWait (active_sem_idx (bar s)))" if "i < num s" for i
    using swap_all_waiting [OF b] c pc that by simp
  have "wdist a (wpc x) \<le> 13" for a and x :: worker
    by (cases "(a, wpc x)" rule: wdist.cases) auto
  then have "wsum a ws \<le> 13 * length ws" for a ws
    by (induction ws) (auto simp: wsum_def intro: add_le_mono)
  then have "wsum (active_sem_idx b') (workers s) \<le> 13 * num s" .
  moreover have "pc' = CFor f j 0" using st pc by simp
  ultimately show ?thesis using c pc by (simp add: budget_def)
qed

lemma wsum_append: "wsum a (ws @ vs) = wsum a ws + wsum a vs"
  by (simp add: wsum_def)

lemma add_exec_budget:
  assumes "ctl s = AddExec a c"
  shows "budget (add_exec a c s) < budget s"
proof (cases "errno_to_worker_status (run_worker a) = WPS_OK")
  case True
  then have "budget (add_exec a c s) = 7 + (14 * Suc (num s) + 22)
      + (wsum (active_sem_idx (bar s)) (workers s) + 10)"
    by (simp add: budget_def add_exec_def wsum_append) (simp add: wsum_def new_worker_def)
  then show ?thesis using assms by (simp add: budget_def)
next
  case False
  then show ?thesis using assms by (simp add: budget_def add_exec_def)
qed

lemma caller_budget:
  assumes inv: "pool_inv s" and st: "caller_step s = Some t"
  shows "budget t < budget s"
proof (cases "ctl s")
  case (InBar pc k)
  show ?thesis
  proof (cases "pc = CRet")
    case True
    with InBar st have "t = resume k s" by (simp add: caller_step_def)
    then show ?thesis using InBar True by (cases k) (simp_all add: budget_def)
  next
    case False
    then obtain pc' b' where "call_step pc (bar s) = Some (pc', b')" "t = move_caller pc' b' pc k s"
      using st InBar by (auto simp: caller_step_def move_caller_def split: option.splits)
    then show ?thesis using move_budget [OF inv InBar False] by simp
  qed
next
  case (AddExec a c)
  then show ?thesis using st add_exec_budget [OF AddExec] by (simp add: caller_step_def)
next
  case (AddStop c x)
  have "num s > 0" using pool_invD(2) [OF inv] AddStop by (simp add: size_inv_def)
  then have "num s - 1 < num s" by simp
  from wsum_update [OF this, of "active_sem_idx (bar s)" "(last_worker s)\<lparr>thread_running := False\<rparr>"]
  have "wsum (active_sem_idx (bar s)) ((workers s)[num s - 1 := (last_worker s)\<lparr>thread_running := False\<rparr>])
      = wsum (active_sem_idx (bar s)) (workers s)"
    by (simp add: last_worker_def)
  then show ?thesis using st AddStop by (auto simp: caller_step_def budget_def)
next
  case (AddPop x)
  have "num s > 0" using pool_invD(2) [OF inv] AddPop by (simp add: size_inv_def)
  then have "workers s = butlast (workers s) @ [last_worker s]"
    by (metis append_butlast_last_id last_conv_nth last_worker_def length_greater_0_conv)
  then have "wsum a (butlast (workers s)) \<le> wsum a (workers s)" for a
    by (metis le_add1 wsum_append)
  then show ?thesis using st AddPop by (auto simp: caller_step_def budget_def less_Suc_eq_le split: if_splits)
qed (use st in \<open>auto simp: caller_step_def budget_def split: if_splits\<close>)

lemma work_budget:
  "pool_inv s \<Longrightarrow> pool_step s l t \<Longrightarrow> work_label l \<Longrightarrow> budget t < budget s"
  by (cases l)
    (auto elim!: caller_stepE worker_stepE intro: caller_budget worker_budget [unfolded put_worker_def])

subsection \<open>Somebody can move\<close>

definition can_work :: "pool \<Rightarrow> bool" where
  "can_work s \<longleftrightarrow> (\<exists>l t. work_label l \<and> pool_step s l t)"

lemma caller_can_work: "caller_step s \<noteq> None \<Longrightarrow> can_work s"
  unfolding can_work_def by (metis not_None_eq step_caller work_label.simps(1))

lemma worker_can_work:
  "\<not> aborted s \<Longrightarrow> i < num s \<Longrightarrow>
   worker_step i (pool_running s) (workers s ! i) (bar s) \<noteq> None \<Longrightarrow> can_work s"
  unfolding can_work_def by (metis not_None_eq step_worker surj_pair work_label.simps(2))

lemma crit_enabled: "crit (thr (wpc w)) \<Longrightarrow> worker_step i go w b \<noteq> None"
  by (cases "thr (wpc w)" rule: crit.cases)
    (auto simp: worker_step_def Let_def elim!: thr.elims split: if_splits)

lemma call_crit_enabled:
  "call_crit (Some pc) \<Longrightarrow> pc \<noteq> CAbort \<Longrightarrow> call_step pc b \<noteq> None"
  by (cases pc) auto

text \<open>A worker that is blocked while the mutex is free sleeps on an empty semaphore, or has exited.\<close>

lemma blocked_worker:
  assumes "worker_step i go w b = None" and "owner b = None"
  shows "wpc w = WExited \<or> (\<exists>k. wpc w = WWait (WtSemWait k) \<and> sems b k = 0)"
proof (cases "wpc w")
  case (WWait p)
  then show ?thesis using assms by (cases p) (auto simp: worker_step_def Let_def split: if_splits)
qed (use assms in \<open>auto simp: worker_step_def\<close>)

lemma mutex_held_progress:
  assumes inv: "pool_inv s" and na: "\<not> aborted s" and o: "owner (bar s) \<noteq> None"
  shows "can_work s"
proof -
  have m: "mutex_inv (bar s) (threads s) (call_of s)" using barrier_invD(1) pool_invD(1) inv by blast
  obtain t where t: "owner (bar s) = Some t" using o by blast
  show ?thesis
  proof (cases t)
    case Caller
    then have "call_crit (call_of s)" using m t by (simp add: mutex_inv_def)
    then obtain pc k where c: "ctl s = InBar pc k" "call_crit (Some pc)" by (cases "ctl s") auto
    moreover have "pc \<noteq> CAbort" using na c by (auto simp: aborted_def)
    ultimately show ?thesis
      using call_crit_enabled [of pc "bar s"]
      by (intro caller_can_work) (auto simp: caller_step_def split: option.splits)
  next
    case (Worker i)
    then have "i < num s" "crit (threads s ! i)" using m t by (auto simp: mutex_inv_def)
    then show ?thesis using crit_enabled na by (intro worker_can_work) auto
  qed
qed

text \<open>With the mutex free, a worker of the previous generation can always go on.\<close>

lemma previous_generation_progress:
  assumes inv: "pool_inv s" and na: "\<not> aborted s" and o: "owner (bar s) = None"
    and i: "i < num s" and ne: "wpc (workers s ! i) \<noteq> WExited"
    and na': "wpc (workers s ! i) \<noteq> WWait (WtSemWait (active_sem_idx (bar s)))"
  shows "can_work s"
proof (rule worker_can_work [OF na i], rule notI)
  assume "worker_step i (pool_running s) (workers s ! i) (bar s) = None"
  then obtain k where k: "wpc (workers s ! i) = WWait (WtSemWait k)" "sems (bar s) k = 0"
    using blocked_worker [OF _ o] ne by blast
  note b = pool_invD(1) [OF inv]
  have "\<not> call_crit (call_of s)"
    using barrier_invD(1) [OF b] o by (simp add: mutex_inv_def)
  then have "pending (no_threads (bar s)) (call_of s) = 0" using not_crit_local_ok by blast
  then have "sems (bar s) k > 0"
    using parked_previous_enabled [OF b _ _ _, of i k] i k na' by auto
  with k show False by simp
qed

lemma sleeping_caller_progress:
  assumes inv: "pool_inv s" and o: "owner (bar s) = None" and c: "ctl s = InBar CWake k"
    and bl: "cv_blocked (bar s)"
  shows "can_work s"
proof -
  note b = pool_invD(1) [OF inv] and sz = pool_invD(2) [OF inv]
  have na: "\<not> aborted s" using c by (simp add: aborted_def)
  have m: "mutex_inv (bar s) (threads s) (call_of s)" and g: "gen_inv (bar s) (threads s) (call_of s)"
    and w: "wake_inv (bar s) (threads s) (call_of s)"
    using barrier_invD [OF b] by auto
  have "\<not> signalling (threads s ! i)" if "i < num s" for i
    using m o that signalling_crit [of "threads s ! i"] by (auto simp: mutex_inv_def)
  then have lt: "no_on_barrier (bar s) < no_threads (bar s)"
    using w bl by (auto simp: wake_inv_def)
  have "in_code (kcall (int (num s)) k) CWake" using sz c by (simp add: size_inv_def)
  then have "delta (InBar CWake k) = 0" "\<not> dtor_phase (InBar CWake k)" "\<not> stop_phase (InBar CWake k)"
    by (cases k; simp add: is_wait_def)+
  then have n: "no_threads (bar s) = int (num s)" and nd: "\<not> doomed s i" for i
    using sz c by (auto simp: size_inv_def doomed_def)
  have "int (cnt (parked_on (active_sem_idx (bar s))) (threads s)) < int (length (threads s))"
    using g lt n c by (simp add: gen_inv_def)
  then obtain i where i: "i < num s" "\<not> parked_on (active_sem_idx (bar s)) (threads s ! i)"
    by (metis cnt_full_iff length_threads less_irrefl)
  moreover have "wpc (workers s ! i) \<noteq> WExited"
    using pool_invD(4) [OF inv] nd i by (auto simp: stop_inv_def)
  ultimately show ?thesis
    by (intro previous_generation_progress [OF inv na o, of i]) auto
qed

lemma joining_progress:
  assumes inv: "pool_inv s" and na: "\<not> aborted s" and o: "owner (bar s) = None"
    and i: "i < num s" "doomed s i" "swapped (ctl s)" and ne: "wpc (workers s ! i) \<noteq> WExited"
  shows "can_work s"
proof (rule previous_generation_progress [OF inv na o i(1) ne])
  have "way_out (1 - active_sem_idx (bar s)) (thread_running (workers s ! i)) (wpc (workers s ! i))"
    using stop_inv_way_out [OF pool_invD(4) [OF inv] i] .
  moreover have "active_sem_idx (bar s) < 2"
    using barrier_invD(2) [OF pool_invD(1) [OF inv]] by (simp add: gen_inv_def)
  then have "1 - active_sem_idx (bar s) \<noteq> active_sem_idx (bar s)" by arith
  ultimately show "wpc (workers s ! i) \<noteq> WWait (WtSemWait (active_sem_idx (bar s)))" by auto
qed

lemma pool_progress:
  assumes inv: "pool_inv s" and nr: "\<not> returned s"
  shows "can_work s"
proof (cases "owner (bar s) = None")
  case False
  then show ?thesis using mutex_held_progress [OF inv] nr by (simp add: returned_def)
next
  case o: True
  have na: "\<not> aborted s" using nr by (simp add: returned_def)
  show ?thesis
  proof (cases "caller_step s = None")
    case False
    then show ?thesis by (rule caller_can_work)
  next
    case st: True
    show ?thesis
    proof (cases "ctl s")
      case (InBar pc k)
      have "\<not> call_crit (Some pc)"
        using barrier_invD(1) [OF pool_invD(1) [OF inv]] o InBar by (simp add: mutex_inv_def)
      then have "pc = CWake \<and> cv_blocked (bar s)"
        using st o InBar by (cases pc) (auto simp: caller_step_def split: option.splits if_splits)
      then show ?thesis using sleeping_caller_progress [OF inv o] InBar by blast
    next
      case (AddPop x)
      have "num s > 0" using pool_invD(2) [OF inv] AddPop by (simp add: size_inv_def)
      then show ?thesis
        using st AddPop joining_progress [OF inv na o, of "num s - 1"]
        by (auto simp: caller_step_def doomed_def last_worker_def split: if_splits)
    next
      case (DtorJoin n)
      then show ?thesis
        using st joining_progress [OF inv na o, of n]
        by (auto simp: caller_step_def doomed_def split: if_splits)
    qed (use st nr in \<open>auto simp: caller_step_def returned_def aborted_def split: if_splits\<close>)
  qed
qed

interpretation pool_work: terminating_system pool_step "new_pool cs" pool_inv work_label budget returned for cs
  by unfold_locales (use work_budget pool_progress in \<open>auto simp: can_work_def\<close>)

end
