(* ===== verification/Pool_Runs.thy ===== *)
theory Pool_Runs
  imports Pool_Contract Pool_Liveness
begin

text \<open>
  Whole runs of the pool: what one wake-up does to every worker, from the host's call to
  its return, and a scheduler that produces concrete runs for examples.
\<close>

subsection \<open>One wake-up is one release\<close>

text \<open>A worker has arrived at the barrier and cannot pass before the next release.\<close>

definition at_barrier :: "pool \<Rightarrow> nat \<Rightarrow> bool" where
  "at_barrier s i \<longleftrightarrow> parked_on (active_sem_idx (bar s)) (thr (wpc (workers s ! i)))"

fun owed_release :: "ctl \<Rightarrow> nat" where
  "owed_release (InBar pc k) = (if host_release k \<and> before_swap pc then 1 else 0)"
| "owed_release _ = 0"

text \<open>
  While a call with continuation \<open>k\<close> runs, and after it until the next call, the releases
  done and owed add up to \<open>e\<close>, and the table of workers keeps its shape.
\<close>

definition during :: "kont \<Rightarrow> nat \<Rightarrow> nat list \<Rightarrow> pool \<Rightarrow> bool" where
  "during k e bs s \<longleftrightarrow>
     (ctl s = Host \<or> (\<exists>pc. ctl s = InBar pc k)) \<and> epoch s + owed_release (ctl s) = e
     \<and> map born (workers s) = bs"

definition simple_call :: "kont \<Rightarrow> bool" where
  "simple_call k \<longleftrightarrow> k = KIdle \<or> k = KWakeup \<or> k = KWakeWait"

lemma during_move:
  assumes st: "call_step pc (bar s) = Some (pc', b')" and ic: "in_code (kcall n k) pc"
    and k: "simple_call k" and nr: "pc \<noteq> CRet"
  shows "(if is_swap pc then 1 else 0) + owed_release (InBar pc' k) = owed_release (InBar pc k)"
proof (cases pc)
  case (CLock c)
  then have "c = kcall n k" using ic by simp
  then show ?thesis using CLock st k by (cases k) (auto simp: simple_call_def split: if_splits)
qed (use st ic k nr in \<open>auto simp: simple_call_def is_release_def is_wait_def split: if_splits\<close>)

lemma born_put:
  assumes "worker_step i go (ws ! i) b = Some (w', b')" and "i < length ws"
  shows "map born (ws[i := w']) = map born ws"
  using worker_thread_running [OF assms(1)] assms(2)
  by (intro nth_equalityI) (auto simp: nth_list_update)

lemma during_step:
  assumes st: "pool_step s l t" and inv: "pool_inv s" and d: "during k e bs s"
    and k: "simple_call k" and l: "\<not> is_call l"
  shows "during k e bs t"
  using st
proof cases
  case step_caller
  then obtain pc where c: "ctl s = InBar pc k"
    using d by (auto simp: during_def caller_step_def)
  show ?thesis
  proof (cases "pc = CRet")
    case True
    then have "t = resume k s" using step_caller c by (simp add: caller_step_def)
    then show ?thesis using d k c True by (auto simp: during_def simple_call_def)
  next
    case False
    then obtain pc' b' where m: "call_step pc (bar s) = Some (pc', b')" "t = move_caller pc' b' pc k s"
      using step_caller c by (auto simp: caller_step_def move_caller_def split: option.splits)
    have "in_code (kcall (int (num s)) k) pc" using pool_invD(2) [OF inv] c by (simp add: size_inv_def)
    from during_move [OF m(1) this k False] show ?thesis
      using d m c by (auto simp: during_def)
  qed
next
  case (step_worker i w b)
  then show ?thesis using d born_put [OF step_worker(5,4)] by (simp add: during_def)
next
  case (step_spurious b)
  then show ?thesis using d by (simp add: during_def)
next
  case (step_call c)
  then show ?thesis using l by simp
qed

lemma during_run:
  "run pool_step s ls t \<Longrightarrow> pool_inv s \<Longrightarrow> during k e bs s \<Longrightarrow> simple_call k \<Longrightarrow>
   \<forall>l \<in> set ls. \<not> is_call l \<Longrightarrow> during k e bs t"
  by (induction rule: run.induct) (auto intro: during_step pool_step_inv)

lemma host_inv_run_work:
  "run pool_step s ls t \<Longrightarrow> host_inv s \<Longrightarrow> \<forall>l \<in> set ls. \<not> is_call l \<Longrightarrow> host_inv t"
proof (induction rule: run.induct)
  case (run_cons s l t ls u)
  then have "allowed s l" by (cases l) auto
  then have "host_inv t" using run_cons host_inv_step by (auto simp: host_step_iff)
  then show ?case using run_cons by simp
qed simp

text \<open>When the host knows that the workers are idle, they all wait and have called back once per release.\<close>

lemma quiet_workers:
  assumes inv: "host_inv s" and h: "ctl s = Host" and q: "quiet s" and i: "i < num s"
  shows "at_barrier s i" and "calls (workers s ! i) + born (workers s ! i) = epoch s"
proof -
  have p: "pool_inv s" and f: "full s" using inv h q by (auto simp: host_inv_def quiet_inv_def)
  show a: "at_barrier s i"
    unfolding at_barrier_def using full_parked [OF pool_invD(1) [OF p] _ f i] h by simp
  have "active_sem_idx (bar s) < 2"
    using barrier_invD(2) [OF pool_invD(1) [OF p]] by (simp add: gen_inv_def)
  then have "1 - active_sem_idx (bar s) \<noteq> active_sem_idx (bar s)" by arith
  then have "\<not> owes_call (1 - active_sem_idx (bar s)) (wpc (workers s ! i))"
    using a unfolding at_barrier_def
    by (cases "wpc (workers s ! i)") (auto elim!: parked_on.elims)
  moreover have "calls (workers s ! i) + born (workers s ! i) +
      (if owes_call (1 - active_sem_idx (bar s)) (wpc (workers s ! i)) then 1 else 0) = epoch s"
    using pool_invD(5) [OF p] i unfolding hist_inv_def by blast
  ultimately show "calls (workers s ! i) + born (workers s ! i) = epoch s" by simp
qed

text \<open>A quiet host, a call of one of the three simple methods, and its return with quiet workers.\<close>

lemma quiet_to_quiet:
  assumes inv: "host_inv s" and h: "ctl s = Host" and q: "quiet s"
    and k: "simple_call k" and c: "ctl s' = InBar pc k" "epoch s' + owed_release (ctl s') = e"
      "workers s' = workers s" and inv': "host_inv s'"
    and r: "run pool_step s' ls t" "\<forall>l \<in> set ls. \<not> is_call l" and t: "ctl t = Host" "quiet t"
  shows "num t = num s \<and> (\<forall>i < num t. at_barrier t i \<and>
           calls (workers t ! i) + epoch s = calls (workers s ! i) + e)"
proof -
  have d: "during k e (map born (workers s)) s'" using c by (simp add: during_def)
  have d': "during k e (map born (workers s)) t"
    using during_run [OF r(1) _ d k r(2)] inv' by (simp add: host_inv_def)
  have it: "host_inv t" using host_inv_run_work [OF r(1) inv' r(2)] .
  have e: "epoch t = e" and b: "map born (workers t) = map born (workers s)"
    using d' t by (auto simp: during_def)
  then have n: "num t = num s" using length_map by metis
  have bi: "born (workers t ! i) = born (workers s ! i)" if "i < num s" for i
    using b n that by (metis nth_map)
  show ?thesis
    using quiet_workers [OF it t] quiet_workers [OF inv h q] n e bi by fastforce
qed

subsection \<open>Executable schedules\<close>

text \<open>
  A scheduler for examples: the owner moves while it can, then the first worker that can.
\<close>

definition next_label :: "pool \<Rightarrow> label option" where
  "next_label s =
     (if \<not> Option.is_none (caller_step s) then Some LCaller
      else map_option LWorker
             (List.find (\<lambda>i. \<not> Option.is_none (exec_step (LWorker i) s)) [0 ..< num s]))"

fun drive :: "nat \<Rightarrow> pool \<Rightarrow> label list \<times> pool" where
  "drive 0 s = ([], s)"
| "drive (Suc n) s =
     (case next_label s of
        None \<Rightarrow> ([], s)
      | Some l \<Rightarrow>
          (case exec_step l s of
             None \<Rightarrow> ([], s)
           | Some t \<Rightarrow> (let (ls, u) = drive n t in (l # ls, u))))"

lemma drive_run: "drive n s = (ls, t) \<Longrightarrow> run pool_step s ls t \<and> (\<forall>l \<in> set ls. work_label l)"
proof (induction n arbitrary: s ls t)
  case 0
  then show ?case by (auto intro: run.intros)
next
  case (Suc n)
  have w: "next_label s = Some l \<Longrightarrow> work_label l" for l
    by (auto simp: next_label_def split: if_splits)
  show ?case
    using Suc.prems Suc.IH w
    by (fastforce intro: run.intros simp: exec_step_iff split: option.splits prod.splits)
qed

lemma work_not_call: "work_label l \<Longrightarrow> \<not> is_call l"
  by (cases l) auto

subsection \<open>Example runs\<close>

definition call_and_run :: "nat \<Rightarrow> call \<Rightarrow> pool \<Rightarrow> pool" where
  "call_and_run n c s = snd (drive n (host_call c s))"

lemma host_run_reach:
  "run pool_step s ls t \<Longrightarrow> \<forall>l \<in> set ls. \<not> is_call l \<Longrightarrow> reach host_step s0 s \<Longrightarrow> reach host_step s0 t"
proof (induction rule: run.induct)
  case (run_cons s l t ls u)
  then have "allowed s l" by (cases l) auto
  then have "host_step s l t" using run_cons by (intro host_stepI)
  then have "reach host_step s0 t" using run_cons reach_step by (metis (full_types))
  then show ?case using run_cons by simp
qed simp

lemma host_call_reach:
  assumes "reach host_step s0 s" and "ctl s = Host" and "allowed s (LCall c)"
  shows "reach host_step s0 (host_call c s)"
  by (rule reach_step [OF assms(1)], rule host_stepI, rule assms(3), rule step_call, rule assms(2))

lemma call_and_run_reach:
  assumes "reach host_step s0 s" and "ctl s = Host" and "allowed s (LCall c)"
  shows "reach host_step s0 (call_and_run n c s)"
proof -
  obtain ls t where d: "drive n (host_call c s) = (ls, t)" by fastforce
  then have "\<forall>l \<in> set ls. \<not> is_call l" using drive_run work_not_call by blast
  then show ?thesis
    using host_run_reach [OF conjunct1 [OF drive_run [OF d]] _ host_call_reach [OF assms]] d
    by (simp add: call_and_run_def)
qed

definition two_cores :: "cpu_info list" where
  "two_cores = [\<lparr>cpu_id_of = 0, cpu_workers = 0\<rparr>, \<lparr>cpu_id_of = 1, cpu_workers = 0\<rparr>]"

definition good_args :: add_args where
  "good_args = \<lparr>arg_priority = 75, arg_cpu = None, os_affinity = 0, os_create = 0,
     ctor_status = ATS_OK, os_init = None\<rparr>"

text \<open>A pool of two cores after one and after two calls of \<open>add_worker\<close>.\<close>

definition pool1 :: pool where
  "pool1 = call_and_run 60 (AddWorker good_args) (new_pool two_cores)"

definition pool2 :: pool where
  "pool2 = call_and_run 60 (AddWorker good_args) pool1"

lemma pool1_host: "ctl pool1 = Host \<and> quiet pool1 \<and> num pool1 = 1"
  by code_simp

lemma pool2_host: "ctl pool2 = Host \<and> quiet pool2 \<and> num pool2 = 2 \<and> epoch pool2 = 0"
  by code_simp

lemma pool1_reach: "reach host_step (new_pool two_cores) pool1"
  unfolding pool1_def by (rule call_and_run_reach) (auto intro: reach.intros simp: new_pool_def)

lemma pool2_reach: "reach host_step (new_pool two_cores) pool2"
  unfolding pool2_def by (rule call_and_run_reach) (use pool1_reach pool1_host in auto)

end
