(* ===== verification/Pool_Spec.thy ===== *)
theory Pool_Spec
  imports Pool_Invariant
begin

text \<open>
  The abstract barrier: a list of workers, each active, parked or gone. Workers arrive one
  by one; a release is one step, needs every worker to be parked, and makes every worker
  active. The pool with its mutex, its condition variable and its two semaphores
  implements it.
\<close>

subsection \<open>The specification\<close>

datatype astat = Active | Parked | Exited

datatype event = Arrive nat | Release | Spawn | Leave nat | Retire

inductive spec_step :: "astat list \<Rightarrow> event \<Rightarrow> astat list \<Rightarrow> bool" where
  arrive: "i < length as \<Longrightarrow> as ! i = Active \<Longrightarrow> spec_step as (Arrive i) (as[i := Parked])"
| release: "\<forall>i < length as. as ! i = Parked \<Longrightarrow>
     spec_step as Release (replicate (length as) Active)"
| spawn: "spec_step as Spawn (as @ [Active])"
| leave: "i < length as \<Longrightarrow> as ! i = Active \<Longrightarrow> spec_step as (Leave i) (as[i := Exited])"
| retire: "as \<noteq> [] \<Longrightarrow> last as = Exited \<Longrightarrow> spec_step as Retire (butlast as)"

inductive_simps spec_release [simp]: "spec_step as Release bs"
inductive_simps spec_arrive [simp]: "spec_step as (Arrive i) bs"
inductive_simps spec_leave [simp]: "spec_step as (Leave i) bs"
inductive_simps spec_spawn [simp]: "spec_step as Spawn bs"
inductive_simps spec_retire [simp]: "spec_step as Retire bs"

subsection \<open>Abstraction\<close>

definition astat_of :: "nat \<Rightarrow> worker_pc \<Rightarrow> astat" where
  "astat_of a pc = (if pc = WExited then Exited else if parked_on a (thr pc) then Parked else Active)"

definition abs_pool :: "pool \<Rightarrow> astat list" where
  "abs_pool s = map (\<lambda>w. astat_of (active_sem_idx (bar s)) (wpc w)) (workers s)"

text \<open>The steps of the code that are steps of the specification.\<close>

fun event_of_worker :: "bool \<Rightarrow> nat \<Rightarrow> worker \<Rightarrow> event option" where
  "event_of_worker go i w =
     (case wpc w of
        WWait (WtInc _) \<Rightarrow> Some (Arrive i)
      | WWait WtRet \<Rightarrow> (if \<not> go then Some (Leave i) else None)
      | WCheckThread \<Rightarrow> (if \<not> thread_running w then Some (Leave i) else None)
      | _ \<Rightarrow> None)"

fun event_of_owner :: "ctl \<Rightarrow> event option" where
  "event_of_owner (InBar (CSwap _ _) _) = Some Release"
| "event_of_owner (AddExec a _) = (if errno_to_worker_status (run_worker a) = WPS_OK then Some Spawn else None)"
| "event_of_owner (AddPop _) = Some Retire"
| "event_of_owner _ = None"

fun event_of :: "pool \<Rightarrow> label \<Rightarrow> event option" where
  "event_of s LCaller = event_of_owner (ctl s)"
| "event_of s (LWorker i) = event_of_worker (pool_running s) i (workers s ! i)"
| "event_of s _ = None"

definition matches :: "event option \<Rightarrow> astat list \<Rightarrow> astat list \<Rightarrow> bool" where
  "matches ev as bs \<longleftrightarrow> (case ev of None \<Rightarrow> bs = as | Some m \<Rightarrow> spec_step as m bs)"

subsection \<open>Simulation\<close>

lemma length_abs_pool [simp]: "length (abs_pool s) = num s"
  by (simp add: abs_pool_def)

lemma nth_abs_pool: "i < num s \<Longrightarrow> abs_pool s ! i = astat_of (active_sem_idx (bar s)) (wpc (workers s ! i))"
  by (simp add: abs_pool_def)

lemma abs_put:
  "active_sem_idx b = active_sem_idx (bar s) \<Longrightarrow>
   abs_pool (put_worker i w b s) = (abs_pool s)[i := astat_of (active_sem_idx (bar s)) (wpc w)]"
  by (simp add: abs_pool_def map_update)

lemma abs_same: "bar t = bar s \<Longrightarrow> workers t = workers s \<Longrightarrow> abs_pool t = abs_pool s"
  by (simp add: abs_pool_def)

lemma worker_astat:
  assumes st: "worker_step i go w b = Some (w', b')" and ok: "sem_ok (active_sem_idx b) (thr (wpc w))"
    and z: "sems b (active_sem_idx b) = 0"
  shows "case event_of_worker go i w of
     None \<Rightarrow> astat_of (active_sem_idx b) (wpc w') = astat_of (active_sem_idx b) (wpc w)
   | Some m \<Rightarrow> astat_of (active_sem_idx b) (wpc w) = Active \<and>
       (m = Arrive i \<and> astat_of (active_sem_idx b) (wpc w') = Parked \<or>
        m = Leave i \<and> astat_of (active_sem_idx b) (wpc w') = Exited)"
  using st
proof (cases rule: worker_step_cases)
  case (wait p p')
  then show ?thesis using ok z
    by (cases p) (auto simp: astat_of_def Let_def split: if_splits)
qed (auto simp: astat_of_def)

lemma sim_worker:
  assumes inv: "pool_inv s" and i: "i < num s"
    and st: "worker_step i (pool_running s) (workers s ! i) (bar s) = Some (w', b')"
  shows "matches (event_of s (LWorker i)) (abs_pool s) (abs_pool (put_worker i w' b' s))"
proof -
  have g: "gen_inv (bar s) (threads s) (call_of s)" using barrier_invD(2) pool_invD(1) inv by blast
  then have ok: "sem_ok (active_sem_idx (bar s)) (thr (wpc (workers s ! i)))"
      "sems (bar s) (active_sem_idx (bar s)) = 0"
    using i by (auto simp: gen_inv_def dest: spec [of _ i])
  show ?thesis
    using worker_astat [OF st ok] i abs_put [OF worker_barrier_frame(2) [OF st], of i w']
    by (auto simp: matches_def nth_abs_pool [OF i, symmetric] split: option.splits
        simp del: event_of_worker.simps)
qed

lemma sim_swap:
  assumes inv: "pool_inv s" and c: "ctl s = InBar (CSwap f j) k"
    and st: "call_step (CSwap f j) (bar s) = Some (pc', b')"
  shows "spec_step (abs_pool s) Release (abs_pool (move_caller pc' b' (CSwap f j) k s))"
proof -
  have a: "active_sem_idx (bar s) < 2"
    using barrier_invD(2) [OF pool_invD(1) [OF inv]] by (simp add: gen_inv_def)
  then have "1 - active_sem_idx (bar s) \<noteq> active_sem_idx (bar s)" by arith
  then have w: "\<And>i. i < num s \<Longrightarrow> wpc (workers s ! i) = WWait (WtSemWait (active_sem_idx (bar s)))"
    and b: "active_sem_idx b' \<noteq> active_sem_idx (bar s)"
    using swap_all_waiting [OF pool_invD(1) [OF inv] c] call_step_idx [OF st] by auto
  have "abs_pool (move_caller pc' b' (CSwap f j) k s) = replicate (num s) Active"
    using w b by (intro nth_equalityI) (simp_all add: abs_pool_def astat_of_def)
  then show ?thesis using w by (simp add: nth_abs_pool astat_of_def)
qed

lemma sim_caller:
  assumes inv: "pool_inv s" and st: "caller_step s = Some t"
  shows "matches (event_of s LCaller) (abs_pool s) (abs_pool t)"
proof (cases "ctl s")
  case (InBar pc k)
  show ?thesis
  proof (cases "pc = CRet")
    case True
    then have "t = resume k s" using InBar st by (simp add: caller_step_def)
    then have "abs_pool t = abs_pool s" by (cases k) (auto intro!: abs_same)
    then show ?thesis using True InBar by (simp add: matches_def)
  next
    case False
    then obtain pc' b' where m: "call_step pc (bar s) = Some (pc', b')" "t = move_caller pc' b' pc k s"
      using st InBar by (auto simp: caller_step_def move_caller_def split: option.splits)
    show ?thesis
    proof (cases "is_swap pc")
      case True
      then obtain f j where pc: "pc = CSwap f j" by (rule is_swapE)
      then show ?thesis using sim_swap [OF inv] InBar m by (simp add: matches_def)
    next
      case False
      then have "abs_pool t = abs_pool s"
        using not_swap_idx [OF m(1)] m(2) by (simp add: abs_pool_def)
      moreover have "event_of s LCaller = None" using InBar False by (cases pc) auto
      ultimately show ?thesis by (simp add: matches_def)
    qed
  qed
next
  case (AddExec a c)
  then show ?thesis using st
    by (auto simp: caller_step_def add_exec_def matches_def abs_pool_def new_worker_def astat_of_def
        split: if_splits)
next
  case (AddStop c x)
  have "num s > 0" using pool_invD(2) [OF inv] AddStop by (simp add: size_inv_def)
  then have "abs_pool t = abs_pool s"
    using st AddStop
    by (intro nth_equalityI) (auto simp: caller_step_def abs_pool_def nth_list_update last_worker_def)
  then show ?thesis using AddStop by (simp add: matches_def)
next
  case (AddPop x)
  have pos: "num s > 0" using pool_invD(2) [OF inv] AddPop by (simp add: size_inv_def)
  have t: "abs_pool t = butlast (abs_pool s)" and e: "wpc (last_worker s) = WExited"
    using st AddPop by (auto simp: caller_step_def abs_pool_def map_butlast split: if_splits)
  have "abs_pool s \<noteq> []" using pos by (auto simp flip: length_greater_0_conv)
  moreover have "last (abs_pool s) = Exited"
    using e pos \<open>abs_pool s \<noteq> []\<close>
    by (simp add: last_conv_nth abs_pool_def last_worker_def astat_of_def)
  ultimately show ?thesis using AddPop t by (auto simp: matches_def intro: spec_step.retire)
qed (use st in \<open>auto simp: caller_step_def matches_def abs_pool_def split: if_splits\<close>)

lemma sim_pool_step:
  "pool_step s l t \<Longrightarrow> pool_inv s \<Longrightarrow> matches (event_of s l) (abs_pool s) (abs_pool t)"
proof (induction rule: pool_step.induct)
  case (step_worker s i w b)
  then show ?case using sim_worker [of s i] by (simp add: put_worker_def)
next
  case (step_spurious s b)
  then show ?case by (auto simp: matches_def abs_pool_def spurious_wakeup_def split: if_splits)
next
  case (step_call s c)
  then show ?case
    by (auto simp: matches_def host_call_def intro!: abs_same split: call.split option.split)
qed (use sim_caller in auto)

interpretation pool_spec: simulation pool_step "new_pool cs" pool_inv spec_step abs_pool event_of for cs
  by unfold_locales (use sim_pool_step in \<open>auto simp: matches_def\<close>)

end
