(* ===== verification/Pool_Properties.thy ===== *)
theory Pool_Properties
  imports Pool_Runs Pool_Spec
begin

text \<open>
  The properties of the worker pool: what one wake-up does, safety of the documented use,
  termination of every method, and the results of \<open>add_worker\<close>, all from the
  initial state of a new pool.
\<close>

subsection \<open>Shared facts\<close>

lemma call_and_run_run:
  obtains ls where "run pool_step (host_call c s) ls (call_and_run n c s)" "\<forall>l \<in> set ls. \<not> is_call l"
    "\<forall>l \<in> set ls. work_label l"
proof -
  obtain ls t where d: "drive n (host_call c s) = (ls, t)" by fastforce
  then have "call_and_run n c s = t" by (simp add: call_and_run_def)
  then show thesis using that drive_run [OF d] work_not_call by blast
qed

lemma pool_reach_inv: "reach pool_step (new_pool cs) s \<Longrightarrow> pool_inv s"
  by (rule pool_sys.inv_reach)

lemma host_reach_inv: "reach host_step (new_pool cs) s \<Longrightarrow> host_inv s"
  by (rule host_sys.inv_reach)

lemma waiting_call_quiet:
  "run pool_step s ls t \<Longrightarrow> pool_inv s \<Longrightarrow> during k e bs s \<Longrightarrow> k = KIdle \<or> k = KWakeWait \<Longrightarrow>
   \<forall>l \<in> set ls. \<not> is_call l \<Longrightarrow> (ctl s = Host \<longrightarrow> quiet s) \<Longrightarrow> ctl t = Host \<longrightarrow> quiet t"
proof (induction rule: run.induct)
  case (run_cons s l t ls u)
  have sk: "simple_call k" using run_cons.prems by (auto simp: simple_call_def)
  have d: "during k e bs t"
    using during_step [OF run_cons(1) _ _ sk] run_cons.prems by simp
  have "ctl t = Host \<longrightarrow> quiet t"
    using run_cons(1)
  proof cases
    case step_caller
    then show ?thesis using run_cons.prems
      by (auto simp: during_def caller_step_def split: if_splits option.splits)
  qed (use run_cons.prems in auto)
  then show ?case using run_cons d pool_step_inv by simp
qed simp

text \<open>From quiet workers to quiet workers, over any of the simple calls.\<close>

lemma quiet_pair:
  assumes s: "host_inv s" "ctl s = Host" "quiet s" and t: "host_inv t" "ctl t = Host" "quiet t"
    and b: "map born (workers t) = map born (workers s)" and i: "i < num t"
  shows "at_barrier t i" and "calls (workers t ! i) + epoch s = calls (workers s ! i) + epoch t"
proof -
  have n: "num t = num s" using b length_map by metis
  then have "born (workers t ! i) = born (workers s ! i)" using b i by (metis nth_map)
  then show "at_barrier t i" "calls (workers t ! i) + epoch s = calls (workers s ! i) + epoch t"
    using quiet_workers [OF s, of i] quiet_workers [OF t i] i n by simp_all
qed


lemma enter_during:
  assumes "ctl s = Host"
  shows "during KIdle (epoch s) (map born (workers s)) (host_call WaitForWorkersIdle s)"
    and "during KWakeup (epoch s + 1) (map born (workers s)) (host_call WakeupWorkers s)"
    and "during KWakeWait (epoch s + 1) (map born (workers s)) (host_call WakeupAndWait s)"
  by (simp_all add: during_def host_call_def)

lemma host_inv_call: "host_inv s \<Longrightarrow> ctl s = Host \<Longrightarrow> allowed s (LCall c) \<Longrightarrow> host_inv (host_call c s)"
  by (rule host_inv_step [OF host_stepI [OF _ step_call]])

text \<open>A waiting call, from entry to return.\<close>

lemma waiting_call:
  assumes inv: "host_inv s" and d: "during k e bs s" and k: "k = KIdle \<or> k = KWakeWait"
    and h: "ctl s \<noteq> Host" and r: "run pool_step s ls t" "\<forall>l \<in> set ls. \<not> is_call l"
    and t: "ctl t = Host"
  shows "host_inv t" and "quiet t" and "epoch t = e" and "map born (workers t) = bs"
proof -
  have sk: "simple_call k" using k by (auto simp: simple_call_def)
  have p: "pool_inv s" using inv by (simp add: host_inv_def)
  have "during k e bs t" using during_run [OF r(1) p d sk r(2)] .
  then show "epoch t = e" and "map born (workers t) = bs" using t by (auto simp: during_def)
  show "host_inv t" using host_inv_run_work [OF r(1) inv r(2)] .
  show "quiet t" using waiting_call_quiet [OF r(1) p d k r(2)] h t by simp
qed

subsection \<open>One wake-up, one callback per worker\<close>

lemma wakeup_and_wait_result:
  assumes inv: "host_inv s" and "ctl s = Host" and "quiet s"
    and "run pool_step (host_call WakeupAndWait s) ls t" and "\<forall>l \<in> set ls. \<not> is_call l" and "ctl t = Host"
  shows "num t = num s \<and> quiet t \<and>
    (\<forall>i < num t. calls (workers t ! i) = calls (workers s ! i) + 1 \<and> at_barrier t i)"
proof -
  have c: "host_inv (host_call WakeupAndWait s)" "ctl (host_call WakeupAndWait s) \<noteq> Host"
    using host_inv_call [OF inv assms(2), of WakeupAndWait] assms(3) by simp (simp add: host_call_def)
  note t = waiting_call [OF c(1) enter_during(3) [OF assms(2)] _ c(2) assms(4-6)]
  have q: "host_inv t" "ctl t = Host" "quiet t" and e: "epoch t = epoch s + 1"
    and b: "map born (workers t) = map born (workers s)"
    using t assms(6) by simp_all
  then show ?thesis
    using quiet_pair [OF inv assms(2,3) q b] map_eq_imp_length_eq [OF b] by simp
qed

text \<open>
  C1. \<open>wakeup_and_wait\<close>, called by a host that follows the documented use, in any
  interleaving of the threads: when it returns, every worker has run its callback exactly
  once more than before, waits at the barrier again, and no worker was added or lost.
\<close>

theorem wakeup_and_wait_runs_all:
  assumes "reach host_step (new_pool cs) s" and "ctl s = Host" and "quiet s"
    and "run pool_step (host_call WakeupAndWait s) ls t" and "\<forall>l \<in> set ls. \<not> is_call l"
    and "ctl t = Host"
  shows "num t = num s \<and> quiet t \<and>
    (\<forall>i < num t. calls (workers t ! i) = calls (workers s ! i) + 1 \<and> at_barrier t i)"
  by (rule wakeup_and_wait_result [OF host_reach_inv [OF assms(1)] assms(2-6)])

theorem wakeup_and_wait_runs_all_witness:
  "num (call_and_run 100 WakeupAndWait pool2) = 2 \<and>
   calls (workers (call_and_run 100 WakeupAndWait pool2) ! 0) = calls (workers pool2 ! 0) + 1 \<and>
   calls (workers (call_and_run 100 WakeupAndWait pool2) ! 1) = calls (workers pool2 ! 1) + 1"
proof -
  obtain ls where r: "run pool_step (host_call WakeupAndWait pool2) ls (call_and_run 100 WakeupAndWait pool2)"
      "\<forall>l \<in> set ls. \<not> is_call l"
    by (rule call_and_run_run)
  have h: "ctl (call_and_run 100 WakeupAndWait pool2) = Host" by code_simp
  show ?thesis
    using wakeup_and_wait_runs_all [OF pool2_reach _ _ r h] pool2_host by simp
qed

text \<open>
  \<open>wakeup_workers\<close> followed by \<open>wait_for_workers_idle\<close>, with the host free to do
  other work in between while the workers run: after the second call every worker has run
  its callback exactly once and waits at the barrier.
\<close>

theorem wakeup_then_wait_runs_all:
  assumes "reach host_step (new_pool cs) s" and "ctl s = Host" and "quiet s"
    and "run pool_step (host_call WakeupWorkers s) ls u" and "\<forall>l \<in> set ls. \<not> is_call l" and "ctl u = Host"
    and "run pool_step (host_call WaitForWorkersIdle u) ms t" and "\<forall>l \<in> set ms. \<not> is_call l" and "ctl t = Host"
  shows "num t = num s \<and> quiet t \<and>
    (\<forall>i < num t. calls (workers t ! i) = calls (workers s ! i) + 1 \<and> at_barrier t i)"
proof -
  have inv: "host_inv s" by (rule host_reach_inv [OF assms(1)])
  have cs: "host_inv (host_call WakeupWorkers s)" using host_inv_call [OF inv assms(2)] assms(3) by simp
  have u: "host_inv u" by (rule host_inv_run_work [OF assms(4) cs assms(5)])
  have "during KWakeup (epoch s + 1) (map born (workers s)) u"
    using during_run [OF assms(4) _ enter_during(2) [OF assms(2)] _ assms(5)] cs
    by (simp add: host_inv_def simple_call_def)
  then have eu: "epoch u = epoch s + 1" "map born (workers u) = map born (workers s)"
    using assms(6) by (auto simp: during_def)
  have c: "host_inv (host_call WaitForWorkersIdle u)" "ctl (host_call WaitForWorkersIdle u) \<noteq> Host"
    using host_inv_call [OF u assms(6), of WaitForWorkersIdle] by simp (simp add: host_call_def)
  note t = waiting_call [OF c(1) enter_during(1) [OF assms(6)] _ c(2) assms(7-9)]
  have q: "host_inv t" "ctl t = Host" "quiet t" and e: "epoch t = epoch s + 1"
    and b: "map born (workers t) = map born (workers s)"
    using t assms(9) eu by simp_all
  then show ?thesis
    using quiet_pair [OF inv assms(2,3) q b] map_eq_imp_length_eq [OF b] by simp
qed

theorem wakeup_then_wait_runs_all_witness:
  "num (call_and_run 60 WaitForWorkersIdle (call_and_run 60 WakeupWorkers pool2)) = 2 \<and>
   calls (workers (call_and_run 60 WaitForWorkersIdle (call_and_run 60 WakeupWorkers pool2)) ! 0) =
     calls (workers pool2 ! 0) + 1 \<and>
   calls (workers (call_and_run 60 WaitForWorkersIdle (call_and_run 60 WakeupWorkers pool2)) ! 1) =
     calls (workers pool2 ! 1) + 1"
proof -
  let ?u = "call_and_run 60 WakeupWorkers pool2"
  let ?t = "call_and_run 60 WaitForWorkersIdle ?u"
  obtain ls where r: "run pool_step (host_call WakeupWorkers pool2) ls ?u" "\<forall>l \<in> set ls. \<not> is_call l"
    by (rule call_and_run_run)
  obtain ms where r': "run pool_step (host_call WaitForWorkersIdle ?u) ms ?t" "\<forall>l \<in> set ms. \<not> is_call l"
    by (rule call_and_run_run)
  have h: "ctl ?u = Host" "ctl ?t = Host" by code_simp+
  show ?thesis
    using wakeup_then_wait_runs_all [OF pool2_reach _ _ r h(1) r' h(2)] pool2_host by simp
qed

subsection \<open>Safety of the documented use\<close>

lemma no_abort:
  assumes inv: "host_inv s" and ci: "core_inv n s"
  shows "\<not> aborted s"
proof -
  have "ctl s \<noteq> InBar CAbort k" for k
  proof
    assume a: "ctl s = InBar CAbort k"
    then have "in_code (kcall (int (num s)) k) CAbort" and "\<not> own_release k" and "\<not> host_release k"
      using inv by (auto simp: host_inv_def pool_inv_def size_inv_def full_inv_def quiet_inv_def)
    then show False by (cases k) (auto simp: is_release_def)
  qed
  then show ?thesis
    using ci by (auto simp: aborted_def core_inv_def split: ctl.splits call_pc.splits)
qed

text \<open>
  C2. A host that wakes the workers only when it knows that they are idle (after a call
  that has waited for them) never makes the pool abort: no interleaving fails the assertion
  of \<open>release_all\<close> or \<open>release_and_wait\<close>, and, if the pool has a core,
  \<open>add_worker\<close> never dereferences the end of the core list.
\<close>

theorem documented_use_never_aborts:
  assumes "reach host_step (new_pool cs) s" and "cs \<noteq> []"
  shows "\<not> aborted s"
  by (rule no_abort [OF host_reach_inv [OF assms(1)] core_inv_reach [OF host_reach_pool [OF assms(1)] assms(2)]])

theorem documented_use_never_aborts_witness: "\<not> aborted pool2"
  by (rule documented_use_never_aborts [OF pool2_reach]) (simp add: two_cores_def)

subsection \<open>Every method returns\<close>

definition spurious_count :: "label list \<Rightarrow> nat" where
  "spurious_count ls = length (filter (\<lambda>l. l = LSpurious) ls)"

lemma spurious_budget: "pool_step s LSpurious t \<Longrightarrow> budget t \<le> budget s + 4"
proof (elim spurious_stepE)
  fix b
  assume t: "t = s\<lparr>bar := b\<rparr>" and b: "spurious_wakeup (bar s) = Some b"
  then have "active_sem_idx b = active_sem_idx (bar s)" "no_threads b = no_threads (bar s)"
    and "\<not> cv_blocked (bar s) \<Longrightarrow> \<not> cv_blocked b"
    by (auto simp: spurious_wakeup_def split: if_splits)
  then show "budget t \<le> budget s + 4"
    using odist_unblock [of b "bar s" "num s" "ctl s"] t by (auto simp: budget_def split: if_splits)
qed

lemma run_budget:
  "run pool_step s ls t \<Longrightarrow> pool_inv s \<Longrightarrow> \<forall>l \<in> set ls. \<not> is_call l \<Longrightarrow>
   length ls + budget t \<le> budget s + 5 * spurious_count ls"
proof (induction rule: run.induct)
  case (run_cons s l t ls u)
  then have ih: "length ls + budget u \<le> budget t + 5 * spurious_count ls"
    using pool_step_inv by simp
  show ?case
  proof (cases "l = LSpurious")
    case True
    then show ?thesis using ih spurious_budget run_cons(1) by (fastforce simp: spurious_count_def)
  next
    case False
    then have "work_label l" using run_cons.prems by (cases l) auto
    then have "budget t < budget s" using work_budget run_cons by blast
    then show ?thesis using ih False by (simp add: spurious_count_def)
  qed
qed (simp add: spurious_count_def)

lemma wsum_le: "wsum a ws \<le> 13 * length ws"
proof (induction ws)
  case (Cons w ws)
  have "wdist a (wpc w) \<le> 13" by (cases "(a, wpc w)" rule: wdist.cases) auto
  then show ?case using Cons by (simp add: wsum_def)
qed (simp add: wsum_def)

lemma call_budget: "ctl s = Host \<Longrightarrow> budget (host_call c s) \<le> 29 * num s + 60"
  using wsum_le [of "active_sem_idx (bar s)" "workers s"]
  by (cases c) (auto simp: budget_def host_call_def split: option.splits)

text \<open>
  C3. No call of a method can hang, whatever the host has done before: however the threads
  are scheduled after the call, there are at most 29 steps per worker and 60 more, and five
  for every spurious wake-up of the condition variable; and until the method has returned
  (or the pool is destroyed, or the assertion has failed) some thread can move. So there is
  no deadlock and no lost wake-up, and no way to wait for ever.
\<close>

theorem every_method_returns:
  assumes "reach pool_step (new_pool cs) s" and "ctl s = Host"
    and "run pool_step (host_call c s) ls t" and "\<forall>l \<in> set ls. \<not> is_call l"
  shows "length ls \<le> 29 * num s + 60 + 5 * spurious_count ls \<and>
    (ctl t = Host \<or> ctl t = Gone \<or> aborted t \<or> (\<exists>l u. work_label l \<and> pool_step t l u))"
proof -
  have p: "pool_inv (host_call c s)"
    by (rule pool_step_inv [OF step_call [OF assms(2)] pool_reach_inv [OF assms(1)]])
  have "pool_inv t" using pool_sys.inv_run [OF assms(3) p] .
  then have "returned t \<or> can_work t" using pool_progress by blast
  moreover have "length ls \<le> 29 * num s + 60 + 5 * spurious_count ls"
    using run_budget [OF assms(3) p assms(4)] call_budget [OF assms(2), of c] by simp
  ultimately show ?thesis by (auto simp: returned_def can_work_def)
qed

theorem every_method_returns_witness:
  "\<exists>ls. run pool_step (host_call WakeupAndWait pool2) ls (call_and_run 100 WakeupAndWait pool2) \<and>
     length ls \<le> 29 * num pool2 + 60 + 5 * spurious_count ls"
proof -
  obtain ls where r: "run pool_step (host_call WakeupAndWait pool2) ls (call_and_run 100 WakeupAndWait pool2)"
      "\<forall>l \<in> set ls. \<not> is_call l"
    by (rule call_and_run_run)
  have "ctl pool2 = Host" using pool2_host by simp
  from every_method_returns [OF host_reach_pool [OF pool2_reach] this r] r(1) show ?thesis by blast
qed

subsection \<open>The results of add_worker\<close>

text \<open>
  C7. \<open>add_worker\<close> computes its sequential specification in every interleaving: the pair
  of statuses it returns, the use counts of the cores, and the affinity and priority of every
  worker of the pool are those of \<open>add_worker_spec\<close>, on every branch (unknown core, failed
  start, failed initialisation, success).
\<close>

theorem add_worker_outcome:
  assumes "reach pool_step (new_pool cs) s" and "ctl s = Host"
    and "run pool_step (host_call (AddWorker a) s) ls t" and "\<forall>l \<in> set ls. \<not> is_call l"
    and "ctl t = Host"
  shows "(ret t, cores t, map (\<lambda>w. (affinity w, priority w)) (workers t)) =
    add_worker_spec a (cores s) (map (\<lambda>w. (affinity w, priority w)) (workers s))"
proof -
  have p: "pool_inv (host_call (AddWorker a) s)"
    by (rule pool_step_inv [OF step_call [OF assms(2)] pool_reach_inv [OF assms(1)]])
  have "predict t = predict (host_call (AddWorker a) s)"
    using predict_run [OF assms(3) p assms(4)] assms(5) by simp
  then show ?thesis
    using predict_call [OF assms(2)] assms(5) by (simp add: predict_def outcome_of_def profile_def)
qed

theorem add_worker_outcome_witness:
  "ret pool2 = Some (WPS_OK, ATS_OK) \<and> map affinity (workers pool2) = [0, 1] \<and>
   map cpu_workers (cores pool2) = [1, 1]"
proof -
  obtain ls where r: "run pool_step (host_call (AddWorker good_args) pool1) ls pool2" "\<forall>l \<in> set ls. \<not> is_call l"
    unfolding pool2_def by (rule call_and_run_run)
  have "add_worker_spec good_args (cores pool1) (map (\<lambda>w. (affinity w, priority w)) (workers pool1)) =
      (Some (WPS_OK, ATS_OK),
       [\<lparr>cpu_id_of = 0, cpu_workers = 1\<rparr>, \<lparr>cpu_id_of = 1, cpu_workers = 1\<rparr>], [(0, 75), (1, 75)])"
    by code_simp
  then have "(ret pool2, cores pool2, map (\<lambda>w. (affinity w, priority w)) (workers pool2)) =
      (Some (WPS_OK, ATS_OK),
       [\<lparr>cpu_id_of = 0, cpu_workers = 1\<rparr>, \<lparr>cpu_id_of = 1, cpu_workers = 1\<rparr>], [(0, 75), (1, 75)])"
    using add_worker_outcome [OF host_reach_pool [OF pool1_reach] _ r] pool1_host pool2_host by simp
  then show ?thesis by auto
qed

end
