(* ===== verification/Pool_Protocol.thy ===== *)
theory Pool_Protocol
  imports Pool_Properties
begin

text \<open>
  The protocol inside the pool: the destructor, what the waiting methods guarantee, the
  accounting of callbacks, mutual exclusion, the two generations of the barrier, bounds of
  its counters, and the refinement of the abstract barrier.
\<close>

subsection \<open>The destructor\<close>

fun destroying :: "ctl \<Rightarrow> bool" where
  "destroying (InBar _ KDtorStop) = True"
| "destroying (InBar _ KDtorJoin) = True"
| "destroying DtorFlag = True"
| "destroying (DtorJoin _) = True"
| "destroying Gone = True"
| "destroying _ = False"

lemma destroying_step:
  assumes "pool_step s l t" and "destroying (ctl s)"
  shows "destroying (ctl t)"
  using assms(1)
proof cases
  case step_caller
  show ?thesis
  proof (cases "ctl s")
    case (InBar pc k)
    then show ?thesis using step_caller assms(2)
      by (cases k) (auto simp: caller_step_def split: if_splits option.splits)
  qed (use step_caller assms(2) in \<open>auto simp: caller_step_def split: if_splits\<close>)
qed (use assms(2) in auto)

lemma destroying_run: "run pool_step s ls t \<Longrightarrow> destroying (ctl s) \<Longrightarrow> destroying (ctl t)"
  by (induction rule: run.induct) (auto intro: destroying_step)

lemma destroying_no_abort:
  assumes "pool_inv s" and "destroying (ctl s)"
  shows "\<not> aborted s"
proof -
  have "ctl s \<noteq> InBar CAbort k" for k
  proof
    assume a: "ctl s = InBar CAbort k"
    then have "in_code (kcall (int (num s)) k) CAbort" and "\<not> own_release k"
      using assms(1) by (auto simp: pool_inv_def size_inv_def full_inv_def)
    then show False using assms(2) a by (cases k) (auto simp: is_release_def)
  qed
  then show ?thesis using assms(2)
    by (auto simp: aborted_def split: ctl.splits call_pc.splits)
qed

lemma gone_is_final:
  assumes inv: "pool_inv s" and g: "ctl s = Gone"
  shows "\<not> pool_step s l t"
proof
  assume "pool_step s l t"
  then show False
  proof cases
    case step_caller
    then show False using g by (simp add: caller_step_def)
  next
    case (step_worker i w b)
    then have "wpc (workers s ! i) = WExited"
      using pool_invD(4) [OF inv] g by (simp add: stop_inv_def)
    then show False using step_worker(5) by (simp add: worker_step_def)
  next
    case (step_spurious b)
    then have "cv_blocked (bar s)" by (simp add: spurious_wakeup_def split: if_splits)
    then show False using barrier_invD(3) [OF pool_invD(1) [OF inv]] g by (simp add: wake_inv_def)
  next
    case (step_call c)
    then show False using g by simp
  qed
qed

text \<open>
  C11. The destructor, called on any pool whose owner is between two calls, even with workers
  still in their callbacks: it never fails an assertion, some thread can move until it is
  done, and when it is done every worker thread has left its loop and been joined, and
  nothing can move any more: no thread uses the destroyed barrier.
\<close>

theorem destructor_joins_all:
  assumes "reach pool_step (new_pool cs) s" and "ctl s = Host"
    and "run pool_step (host_call Destroy s) ls t"
  shows "\<not> aborted t \<and> (if ctl t = Gone
     then (\<forall>i < num t. wpc (workers t ! i) = WExited) \<and> (\<forall>l u. \<not> pool_step t l u)
     else (\<exists>l u. work_label l \<and> pool_step t l u))"
proof -
  have p: "pool_inv (host_call Destroy s)"
    by (rule pool_step_inv [OF step_call [OF assms(2)] pool_reach_inv [OF assms(1)]])
  then have inv: "pool_inv t" using pool_sys.inv_run [OF assms(3)] by blast
  have "destroying (ctl (host_call Destroy s))" by (simp add: host_call_def)
  then have d: "destroying (ctl t)" using destroying_run [OF assms(3)] by blast
  have na: "\<not> aborted t" by (rule destroying_no_abort [OF inv d])
  show ?thesis
  proof (cases "ctl t = Gone")
    case True
    then have "\<forall>i < num t. wpc (workers t ! i) = WExited"
      using pool_invD(4) [OF inv] by (simp add: stop_inv_def)
    then show ?thesis using True na gone_is_final [OF inv True] by simp
  next
    case False
    then have "\<not> returned t" using d na by (auto simp: returned_def)
    then show ?thesis using False na pool_progress [OF inv] by (simp add: can_work_def)
  qed
qed

theorem destructor_joins_all_witness:
  "ctl (call_and_run 100 Destroy pool2) = Gone \<and>
   wpc (workers (call_and_run 100 Destroy pool2) ! 0) = WExited \<and>
   wpc (workers (call_and_run 100 Destroy pool2) ! 1) = WExited"
proof -
  obtain ls where r: "run pool_step (host_call Destroy pool2) ls (call_and_run 100 Destroy pool2)"
    by (rule call_and_run_run)
  have g: "ctl (call_and_run 100 Destroy pool2) = Gone" "num (call_and_run 100 Destroy pool2) = 2"
    by code_simp+
  show ?thesis
    using destructor_joins_all [OF host_reach_pool [OF pool2_reach] _ r] pool2_host g by simp
qed

subsection \<open>Points of one run of wakeup_and_wait, for the examples\<close>

definition midway :: "nat \<Rightarrow> pool" where
  "midway n = call_and_run n WakeupAndWait pool2"

lemma midway_reach: "reach pool_step (new_pool two_cores) (midway n)"
  unfolding midway_def using pool2_host
  by (intro host_reach_pool [OF call_and_run_reach [OF pool2_reach]]) auto

lemma drive_Suc:
  "snd (drive (Suc n) s) =
     (case next_label (snd (drive n s)) of None \<Rightarrow> snd (drive n s)
      | Some l \<Rightarrow> (case exec_step l (snd (drive n s)) of None \<Rightarrow> snd (drive n s) | Some t \<Rightarrow> t))"
proof (induction n arbitrary: s)
  case 0
  then show ?case by (auto split: option.splits)
next
  case (Suc n)
  show ?case
  proof (cases "next_label s")
    case (Some l)
    show ?thesis
    proof (cases "exec_step l s")
      case st: (Some t)
      have "snd (drive (Suc m) s) = snd (drive m t)" for m
        using Some st by (auto split: prod.splits)
      then show ?thesis using Suc.IH [of t] by metis
    qed (use Some in simp)
  qed simp
qed

lemma midway_step:
  assumes "next_label (midway n) = Some l"
  shows "pool_step (midway n) l (midway (Suc n))"
proof -
  have "exec_step l (midway n) \<noteq> None"
    using assms by (auto simp: next_label_def exec_step_def find_Some_iff Option.is_none_def split: if_splits option.splits)
  then obtain t where "exec_step l (midway n) = Some t" by blast
  moreover from this have "midway (Suc n) = t"
    using assms drive_Suc [of n "host_call WakeupAndWait pool2"] by (simp add: midway_def call_and_run_def del: drive.simps)
  ultimately show ?thesis by (simp add: exec_step_iff)
qed

subsection \<open>Waiting methods\<close>

text \<open>
  C21. When a method that waits (\<open>wait_for_workers_idle\<close>, \<open>wakeup_and_wait\<close>, and the
  waits inside \<open>add_worker\<close> and the destructor) returns from the barrier, every worker has
  arrived there: none is in its callback or on the way to it, and none of them can go on
  by itself past its semaphore.
\<close>

theorem waiting_returns_when_idle:
  assumes "reach pool_step (new_pool cs) s"
    and "ctl s = InBar CRet k" and "k = KIdle \<or> k = KWakeWait \<or> k = KAddIdle c \<or> k = KDtorStop"
    and "i < num s"
  shows "at_barrier s i \<and>
    (wpc (workers s ! i) = WWait (WtSemWait (active_sem_idx (bar s))) \<longrightarrow> (\<forall>t. \<not> pool_step s (LWorker i) t))"
proof -
  have inv: "pool_inv s" by (rule pool_reach_inv [OF assms(1)])
  then have "full s" using assms(2,3) by (auto simp: pool_inv_def full_inv_def)
  then have a: "at_barrier s i"
    unfolding at_barrier_def using full_parked [OF pool_invD(1) [OF inv]] assms(2,4) by simp
  have "\<not> pool_step s (LWorker i) t"
    if w: "wpc (workers s ! i) = WWait (WtSemWait (active_sem_idx (bar s)))" for t
  proof
    assume "pool_step s (LWorker i) t"
    then show False
      using parked_active_blocked [OF pool_invD(1) [OF inv], of i] w assms(4)
      by (auto elim!: worker_stepE simp: worker_step_def)
  qed
  with a show ?thesis by blast
qed

theorem waiting_returns_when_idle_witness:
  "ctl (midway 32) = InBar CRet KWakeWait \<and> at_barrier (midway 32) 1"
proof -
  have c: "ctl (midway 32) = InBar CRet KWakeWait" "num (midway 32) = 2" by code_simp+
  show ?thesis using waiting_returns_when_idle [OF midway_reach c(1), of 0 1] c by simp
qed

subsection \<open>Accounting of callbacks\<close>

text \<open>
  C20. At every moment, for every worker and whatever the host does: the callbacks the worker
  has completed, the releases before it was created, and one more if it has been released and
  has not called back yet, are the number of releases. No release is lost and none
  makes a worker call back twice.
\<close>

theorem one_callback_per_release:
  assumes "reach pool_step (new_pool cs) s" and "i < num s"
  shows "calls (workers s ! i) + born (workers s ! i) +
    (if owes_call (1 - active_sem_idx (bar s)) (wpc (workers s ! i)) then 1 else 0) = epoch s"
  using pool_invD(5) [OF pool_reach_inv [OF assms(1)]] assms(2) unfolding hist_inv_def by blast

theorem one_callback_per_release_witness:
  "epoch (midway 14) = 1 \<and> wpc (workers (midway 14) ! 0) = WCallback \<and> calls (workers (midway 14) ! 0) + 1 = 1"
proof -
  have c: "num (midway 14) = 2" "epoch (midway 14) = 1" "wpc (workers (midway 14) ! 0) = WCallback"
    "born (workers (midway 14) ! 0) = 0" by code_simp+
  show ?thesis using one_callback_per_release [OF midway_reach, of 0 14] c by simp
qed

subsection \<open>The barrier's protocol\<close>

text \<open>
  Mutual exclusion: at most one thread is between \<open>mutex_lock\<close> and \<open>mutex_unlock\<close>, the
  owner of the pool included.
\<close>

theorem mutual_exclusion:
  assumes "reach pool_step (new_pool cs) s"
  shows "(\<forall>i < num s. \<forall>j < num s. crit (threads s ! i) \<and> crit (threads s ! j) \<longrightarrow> i = j) \<and>
    (call_crit (call_of s) \<longrightarrow> (\<forall>i < num s. \<not> crit (threads s ! i)))"
proof -
  have m: "mutex_inv (bar s) (threads s) (call_of s)"
    using barrier_invD(1) pool_invD(1) pool_reach_inv [OF assms] by blast
  have w: "owner (bar s) = Some (Worker i)" if "i < num s" "crit (threads s ! i)" for i
    using m that unfolding mutex_inv_def length_threads by blast
  have "owner (bar s) = Some Caller" if "call_crit (call_of s)"
    using m that unfolding mutex_inv_def by blast
  then show ?thesis using w by (metis option.inject tid.distinct(1) tid.inject)
qed

theorem mutual_exclusion_witness:
  "call_crit (call_of (midway 5)) \<and> \<not> crit (threads (midway 5) ! 0) \<and> \<not> crit (threads (midway 5) ! 1)"
proof -
  have c: "num (midway 5) = 2" "call_crit (call_of (midway 5))" by code_simp+
  show ?thesis using mutual_exclusion [OF midway_reach, of 5] c by simp
qed

text \<open>
  The two semaphores keep the generations of a barrier apart. A worker that waits for the
  next release cannot pass, whatever the others do; and a worker that has been released but is
  still on the other semaphore finds a post there, once the release has posted all of them: a
  fast worker cannot take the post of a slow one.
\<close>

theorem generations_do_not_mix:
  assumes "reach pool_step (new_pool cs) s" and "\<not> aborted s" and "i < num s"
    and "wpc (workers s ! i) = WWait (WtSemWait k)"
  shows "if k = active_sem_idx (bar s) then \<not> (\<exists>t. pool_step s (LWorker i) t)
    else pending (no_threads (bar s)) (call_of s) = 0 \<longrightarrow> (\<exists>t. pool_step s (LWorker i) t)"
proof (cases "k = active_sem_idx (bar s)")
  case True
  then show ?thesis
    using parked_active_blocked [OF pool_invD(1) [OF pool_reach_inv [OF assms(1)]], of i] assms(3,4)
    by (auto elim!: worker_stepE simp: worker_step_def)
next
  case False
  have "sems (bar s) k > 0" if "pending (no_threads (bar s)) (call_of s) = 0"
    using parked_previous_enabled [OF pool_invD(1) [OF pool_reach_inv [OF assms(1)]], of i k]
      assms(3,4) False that by simp
  then have "pending (no_threads (bar s)) (call_of s) = 0 \<longrightarrow>
      worker_step i (pool_running s) (workers s ! i) (bar s) \<noteq> None"
    using assms(4) by (simp add: worker_step_def)
  then show ?thesis using False step_worker [OF assms(2,3)] by fastforce
qed

theorem generations_do_not_mix_witness:
  "(\<nexists>t. pool_step pool2 (LWorker 0) t) \<and> (\<exists>t. pool_step (midway 14) (LWorker 1) t)"
proof -
  have c: "num pool2 = 2" "\<not> aborted pool2" "wpc (workers pool2 ! 0) = WWait (WtSemWait 0)"
    "active_sem_idx (bar pool2) = 0" by code_simp+
  have d: "num (midway 14) = 2" "\<not> aborted (midway 14)" "wpc (workers (midway 14) ! 1) = WWait (WtSemWait 0)"
    "active_sem_idx (bar (midway 14)) = 1" "pending (no_threads (bar (midway 14))) (call_of (midway 14)) = 0"
    by code_simp+
  show ?thesis
    using generations_do_not_mix [OF host_reach_pool [OF pool2_reach] c(2) _ c(3)]
      generations_do_not_mix [OF midway_reach d(2) _ d(3)] c d by simp
qed

text \<open>
  C22. The counters of the barrier stay within the number of workers: the count is never
  negative nor larger than the number of threads, no semaphore holds more posts than there are
  workers, nobody posts to the active one, and the barrier's number of threads differs from the
  number of workers by at most one.
\<close>

theorem barrier_counters_bounded:
  assumes "reach pool_step (new_pool cs) s"
  shows "0 \<le> no_on_barrier (bar s) \<and> no_on_barrier (bar s) \<le> int (num s)
    \<and> active_sem_idx (bar s) < 2 \<and> sems (bar s) (active_sem_idx (bar s)) = 0
    \<and> sems (bar s) (1 - active_sem_idx (bar s)) \<le> num s
    \<and> \<bar>no_threads (bar s) - int (num s)\<bar> \<le> 1"
proof -
  note p = pool_reach_inv [OF assms]
  have b: "barrier_inv (bar s) (threads s) (call_of s)" by (rule pool_invD(1) [OF p])
  then have g: "gen_inv (bar s) (threads s) (call_of s)" by (rule barrier_invD)
  have "0 \<le> no_on_barrier (bar s) \<and> no_on_barrier (bar s) \<le> int (num s)"
  proof (cases "in_reset (call_of s)")
    case True
    then show ?thesis using g by (cases "call_of s" rule: in_reset.cases) (auto simp: gen_inv_def)
  next
    case False
    then show ?thesis using count_bounds [OF b] by simp
  qed
  moreover have "0 \<le> pending (no_threads (bar s)) (call_of s)"
    using g by (cases "(no_threads (bar s), call_of s)" rule: pending.cases) (auto simp: gen_inv_def)
  then have "sems (bar s) (1 - active_sem_idx (bar s)) \<le> num s"
    using g cnt_le_length [of "parked_on (1 - active_sem_idx (bar s))" "threads s"]
    by (auto simp: gen_inv_def)
  moreover have "\<bar>delta c\<bar> \<le> 1" for c by (cases c rule: delta.cases) auto
  then have "\<bar>no_threads (bar s) - int (num s)\<bar> \<le> 1"
    using pool_invD(2) [OF p] by (simp add: size_inv_def)
  ultimately show ?thesis using g by (simp add: gen_inv_def)
qed

theorem barrier_counters_bounded_witness:
  "sems (bar (midway 7)) (1 - active_sem_idx (bar (midway 7))) = 2 \<and> num (midway 7) = 2 \<and>
   sems (bar (midway 7)) (1 - active_sem_idx (bar (midway 7))) \<le> num (midway 7)"
proof -
  have c: "sems (bar (midway 7)) (1 - active_sem_idx (bar (midway 7))) = 2" "num (midway 7) = 2"
    by code_simp+
  show ?thesis using barrier_counters_bounded [OF midway_reach, of 7] c by simp
qed

text \<open>
  C19. The pool implements the abstract barrier of \<open>Pool_Spec\<close>: every reachable state maps to
  a reachable abstract state, and every step of any thread is one abstract step (an arrival,
  a release of all parked workers, a worker added, leaving, or retired) or changes nothing.
\<close>

theorem pool_refines_spec:
  assumes "reach pool_step (new_pool cs) s" and "pool_step s l t"
  shows "reach spec_step (abs_pool (new_pool cs)) (abs_pool s) \<and>
    (case event_of s l of None \<Rightarrow> abs_pool t = abs_pool s
     | Some e \<Rightarrow> spec_step (abs_pool s) e (abs_pool t))"
  using pool_spec.sim_reach [OF assms(1)] pool_spec.sim_step [OF pool_reach_inv [OF assms(1)] assms(2)] by blast


theorem pool_refines_spec_witness:
  "pool_step (midway 4) LCaller (midway 5) \<and> spec_step (abs_pool (midway 4)) Release (abs_pool (midway 5))"
proof -
  have n: "next_label (midway 4) = Some LCaller" by code_simp
  have "Suc 4 = 5" by simp
  then have st: "pool_step (midway 4) LCaller (midway 5)" using midway_step [OF n] by metis
  have "event_of (midway 4) LCaller = Some Release" by code_simp
  then show ?thesis using pool_refines_spec [OF midway_reach st] st by simp
qed

end
