(* ===== verification/Running_Pool.thy ===== *)
theory Running_Pool
  imports Helper_Barrier System_World Pool_Protocol
begin

text \<open>
  A pool whose threads run the barrier's code over a thread helper, and its refinement of the
  pool of \<open>Worker_Pool\<close>: the locale \<open>running_pool\<close> extends the contract of a helper with a
  fresh barrier object and gives two simulations, with and without the documented use; it is
  interpreted on the world of the system for the three libraries.
\<close>

subsection \<open>A pool that runs on a barrier object\<close>

text \<open>
  A pool, its barrier object and the world. Inside a method of the barrier the threads run
  the code above; all other steps are those of the pool, which do not touch the barrier. The field \<open>bar\<close>
  of the pool plays no part.
\<close>

type_synonym 'w running = "pool \<times> barrier_object \<times> 'w"

fun worker_in_barrier :: "worker_pc \<Rightarrow> bool" where
  "worker_in_barrier (WWait p) = (p \<noteq> WtRet)"
| "worker_in_barrier _ = False"

fun caller_in_barrier :: "ctl \<Rightarrow> bool" where
  "caller_in_barrier (InBar pc k) = (pc \<noteq> CRet)"
| "caller_in_barrier _ = False"

fun outside :: "pool \<Rightarrow> label \<Rightarrow> bool" where
  "outside s (LWorker i) = (\<not> worker_in_barrier (wpc (workers s ! i)))"
| "outside s LCaller = (\<not> caller_in_barrier (ctl s))"
| "outside s LSpurious = False"
| "outside s (LCall c) = True"

inductive running_step :: "'w thread_helper \<Rightarrow> (nat \<Rightarrow> tid \<Rightarrow> 'w \<Rightarrow> 'w) \<Rightarrow> 'w running \<Rightarrow> label \<Rightarrow> 'w running \<Rightarrow> bool"
  for H :: "'w thread_helper" and wake :: "nat \<Rightarrow> tid \<Rightarrow> 'w \<Rightarrow> 'w" where
  worker_in: "\<not> aborted s \<Longrightarrow> i < length (workers s) \<Longrightarrow> wpc (workers s ! i) = WWait p \<Longrightarrow> p \<noteq> WtRet \<Longrightarrow>
     wait_code H i p B w = Some (p', B', w') \<Longrightarrow>
     running_step H wake (s, B, w) (LWorker i)
       (s\<lparr>workers := (workers s)[i := (workers s ! i)\<lparr>wpc := WWait p'\<rparr>]\<rparr>, B', w')"
| caller_in: "ctl s = InBar pc k \<Longrightarrow> pc \<noteq> CRet \<Longrightarrow> call_code H pc B w = Some (pc', B', w') \<Longrightarrow>
     running_step H wake (s, B, w) LCaller
       (s\<lparr>ctl := InBar pc' k, epoch := (if is_swap pc then epoch s + 1 else epoch s)\<rparr>, B', w')"
| step_outside: "outside s l \<Longrightarrow> pool_step s l t \<Longrightarrow> running_step H wake (s, B, w) l (t, B, w)"
| step_wake: "\<not> aborted s \<Longrightarrow>
     running_step H wake (s, B, w) LSpurious (s, B, wake (calling_cond B) Caller w)"

definition seen :: "('w \<Rightarrow> sync) \<Rightarrow> 'w running \<Rightarrow> pool" where
  "seen view c = (case c of (s, B, w) \<Rightarrow> s\<lparr>bar := barrier_of (view w) B\<rparr>)"

subsection \<open>Steps outside the barrier do not see it\<close>

lemma worker_step_outside:
  "\<not> worker_in_barrier (wpc w) \<Longrightarrow>
   worker_step i go w b = map_option (\<lambda>(w', _). (w', b)) (worker_step i go w b') \<and>
   (\<forall>w' b''. worker_step i go w b' = Some (w', b'') \<longrightarrow> b'' = b')"
  by (cases "wpc w") (auto simp: worker_step_def)

lemma host_call_bar: "host_call c (s\<lparr>bar := b\<rparr>) = (host_call c s)\<lparr>bar := b\<rparr>"
  by (cases c) (auto simp: host_call_def split: option.splits)

lemma resume_bar: "resume k (s\<lparr>bar := b\<rparr>) = (resume k s)\<lparr>bar := b\<rparr>"
  by (cases k) auto

lemma caller_step_outside:
  "\<not> caller_in_barrier (ctl s) \<Longrightarrow> caller_step (s\<lparr>bar := b\<rparr>) = map_option (\<lambda>t. t\<lparr>bar := b\<rparr>) (caller_step s)"
  by (cases "ctl s")
    (auto simp: caller_step_def resume_bar add_exec_def last_worker_def Let_def)

lemma exec_outside:
  assumes "outside s l"
  shows "exec_step l (s\<lparr>bar := b\<rparr>) = map_option (\<lambda>t. t\<lparr>bar := b\<rparr>) (exec_step l s)"
proof (cases l)
  case (LWorker i)
  have o: "\<not> worker_in_barrier (wpc (workers s ! i))" using assms LWorker by simp
  show ?thesis
    using worker_step_outside [OF o, of i "pool_running s" b "bar s"] LWorker
    by (auto simp: exec_step_def aborted_def split: option.splits)
qed (use assms in \<open>auto simp: exec_step_def caller_step_outside host_call_bar\<close>)

lemma resume_keeps_bar: "bar (resume k s) = bar s"
  by (cases k) auto

lemma outside_frame:
  assumes "outside s l" and "pool_step s l t"
  shows "bar t = bar s"
  using assms(2)
proof cases
  case step_caller
  then show ?thesis using assms(1)
    by (auto simp: caller_step_def resume_keeps_bar add_exec_def Let_def split: ctl.splits if_splits option.splits prod.splits)
next
  case (step_worker i w b)
  have "b = bar s"
    using worker_step_outside [of "workers s ! i" i "pool_running s" b "bar s"] assms(1) step_worker by auto
  then show ?thesis using step_worker by simp
next
  case (step_call c)
  then show ?thesis by (cases c) (auto simp: host_call_def split: option.splits)
qed (use assms(1) in auto)

lemma pool_step_outside: "outside s l \<Longrightarrow> pool_step s l t \<Longrightarrow> pool_step (s\<lparr>bar := b\<rparr>) l (t\<lparr>bar := b\<rparr>)"
  using exec_outside [of s l b] by (simp flip: exec_step_iff)

lemma outside_bar [simp]: "outside (s\<lparr>bar := b\<rparr>) l = outside s l"
  by (cases l) auto

lemma pool_step_outside_back:
  assumes "outside s l" and "pool_step (s\<lparr>bar := b\<rparr>) l u"
  obtains t where "pool_step s l t" and "u = t\<lparr>bar := b\<rparr>"
proof -
  have "pool_step s l (u\<lparr>bar := bar s\<rparr>)"
    using pool_step_outside [OF _ assms(2), of "bar s"] assms(1) by simp
  moreover have "u = (u\<lparr>bar := bar s\<rparr>)\<lparr>bar := b\<rparr>"
    using outside_frame [OF _ assms(2)] assms(1) by simp
  ultimately show thesis by (rule that)
qed

subsection \<open>The simulation\<close>

lemma seen_simps [simp]:
  "bar (seen view (s, B, w)) = barrier_of (view w) B" "workers (seen view (s, B, w)) = workers s"
  "ctl (seen view (s, B, w)) = ctl s" "pool_running (seen view (s, B, w)) = pool_running s"
  "quiet (seen view (s, B, w)) = quiet s" "epoch (seen view (s, B, w)) = epoch s"
  "aborted (seen view (s, B, w)) = aborted s" "outside (seen view (s, B, w)) l = outside s l"
  by (simp_all add: seen_def aborted_def)

text \<open>What the invariant of the pool says about the program points in the barrier.\<close>

lemma worker_point:
  assumes p: "pool_inv s" and i: "i < num s" and w: "wpc (workers s ! i) = WWait pc"
  shows "index_ok pc" and "crit (Some pc) \<Longrightarrow> owner (bar s) = Some (Worker i)"
proof -
  note b = barrier_invD [OF pool_invD(1) [OF p]]
  have t: "threads s ! i = Some pc" using i w by simp
  have "sem_ok (active_sem_idx (bar s)) (threads s ! i)" using b(2) i by (simp add: gen_inv_def)
  then have "sem_ok (active_sem_idx (bar s)) (Some pc)" unfolding t .
  then show "index_ok pc" by (cases pc) simp_all
  show "owner (bar s) = Some (Worker i)" if "crit (Some pc)"
  proof -
    have "i < length (threads s)" "crit (threads s ! i)" unfolding t using i that by simp_all
    then show ?thesis using b(1) unfolding mutex_inv_def by blast
  qed
qed

lemma caller_point:
  assumes p: "pool_inv s" and c: "ctl s = InBar pc k"
  shows "call_index_ok pc" and "call_crit (Some pc) \<Longrightarrow> owner (bar s) = Some Caller"
proof -
  note b = barrier_invD [OF pool_invD(1) [OF p]]
  show "call_index_ok pc" using b(2) c by (cases pc) (auto simp: gen_inv_def)
  show "owner (bar s) = Some Caller" if "call_crit (Some pc)"
    using b(1) c that by (simp add: mutex_inv_def)
qed

definition running_inv :: "('w \<Rightarrow> sync) \<Rightarrow> 'w running \<Rightarrow> bool" where
  "running_inv view c \<longleftrightarrow> objs_ok (view (snd (snd c))) (fst (snd c)) \<and> pool_inv (seen view c)"

text \<open>A spurious wake-up of a thread that is not asleep changes nothing.\<close>

definition visible :: "('w \<Rightarrow> sync) \<Rightarrow> 'w running \<Rightarrow> label \<Rightarrow> label option" where
  "visible view c l =
     (if l = LSpurious \<and> \<not> cv_blocked (bar (seen view c)) then None else Some l)"

lemma set_awake [simp]: "\<not> c_asleep v c t \<Longrightarrow> set_asleep c t False v = v"
  by (simp add: set_asleep_def fun_upd_idem)

context helper_contract begin

lemma code_of_worker:
  assumes "running_inv view (s, B, w)" and "i < num s" and "wpc (workers s ! i) = WWait pc"
  shows "case wait_code H i pc B w of
      None \<Rightarrow> wait_step i pc (barrier_of (view w) B) = None
    | Some (pc', B', w') \<Rightarrow>
        wait_step i pc (barrier_of (view w) B) = Some (pc', barrier_of (view w') B') \<and> objs_ok (view w') B'"
  using assms worker_point [of "seen view (s, B, w)" i pc]
  by (intro wait_code_sim) (auto simp: running_inv_def)

lemma code_of_caller:
  assumes "running_inv view (s, B, w)" and "ctl s = InBar pc k"
  shows "case call_code H pc B w of
      None \<Rightarrow> call_step pc (barrier_of (view w) B) = None
    | Some (pc', B', w') \<Rightarrow>
        call_step pc (barrier_of (view w) B) = Some (pc', barrier_of (view w') B') \<and> objs_ok (view w') B'"
  using assms caller_point [of "seen view (s, B, w)" pc k]
  by (intro call_code_sim) (auto simp: running_inv_def)

lemma running_forward:
  assumes "running_step H wake c l c'" and inv: "running_inv view c"
  shows "objs_ok (view (snd (snd c'))) (fst (snd c')) \<and>
    (case visible view c l of None \<Rightarrow> seen view c' = seen view c | Some m \<Rightarrow> pool_step (seen view c) m (seen view c'))"
  using assms(1)
proof cases
  case (worker_in s i p B w p' B' w')
  have st: "wait_step i p (barrier_of (view w) B) = Some (p', barrier_of (view w') B')" "objs_ok (view w') B'"
    using code_of_worker [of s B w i p] worker_in inv by auto
  have "worker_step i (pool_running s) (workers s ! i) (barrier_of (view w) B) =
      Some ((workers s ! i)\<lparr>wpc := WWait p'\<rparr>, barrier_of (view w') B')"
    using worker_in st by (simp add: worker_step_def)
  then have "pool_step (seen view (s, B, w)) (LWorker i) ((seen view (s, B, w))\<lparr>bar := barrier_of (view w') B',
      workers := (workers s)[i := (workers s ! i)\<lparr>wpc := WWait p'\<rparr>]\<rparr>)"
    using step_worker [of "seen view (s, B, w)" i] worker_in(4,5) by simp
  moreover have "(seen view (s, B, w))\<lparr>bar := barrier_of (view w') B',
      workers := (workers s)[i := (workers s ! i)\<lparr>wpc := WWait p'\<rparr>]\<rparr> = seen view c'"
    unfolding worker_in(3) by (cases s) (simp add: seen_def)
  ultimately show ?thesis using worker_in st by (simp add: visible_def)
next
  case (caller_in s pc k B w pc' B' w')
  have st: "call_step pc (barrier_of (view w) B) = Some (pc', barrier_of (view w') B')" "objs_ok (view w') B'"
    using code_of_caller [of s B w pc k] caller_in inv by auto
  have "caller_step (seen view (s, B, w)) = Some (seen view (s\<lparr>ctl := InBar pc' k,
      epoch := (if is_swap pc then epoch s + 1 else epoch s)\<rparr>, B', w'))"
    using caller_in st by (simp add: caller_step_def seen_def)
  from step_caller [OF this] show ?thesis using caller_in st by (simp add: visible_def)
next
  case (step_outside s t B w)
  then have "l \<noteq> LSpurious" by auto
  then show ?thesis using step_outside inv
    by (auto simp: visible_def seen_def running_inv_def intro: pool_step_outside)
next
  case (step_wake s B w)
  have c: "c_live (view w) (calling_cond B)" and ok: "objs_ok (view w) B"
    using inv step_wake by (auto simp: running_inv_def objs_ok_def)
  show ?thesis
  proof (cases "c_asleep (view w) (calling_cond B) Caller")
    case True
    have "spurious_wakeup (bar (seen view (s, B, w))) = Some ((barrier_of (view w) B)\<lparr>cv_blocked := False\<rparr>)"
      using True by (simp add: spurious_wakeup_def)
    from step_spurious [OF _ this] show ?thesis
      using True step_wake c ok wake_wakes [OF c]
      by (simp add: visible_def seen_def barrier_of_asleep aborted_def)
  next
    case False
    then show ?thesis using step_wake c ok wake_wakes [OF c, of Caller] by (simp add: visible_def seen_def)
  qed
qed

lemma running_inv_step: "running_step H wake c l c' \<Longrightarrow> running_inv view c \<Longrightarrow> running_inv view c'"
  using running_forward [of c l c'] pool_step_inv [of "seen view c" l "seen view c'"]
  by (auto simp: running_inv_def visible_def split: if_splits)

text \<open>Conversely, the code can do every step of the pool.\<close>

lemma running_backward:
  assumes inv: "running_inv view (s, B, w)" and "pool_step (seen view (s, B, w)) l t"
  shows "\<exists>c'. running_step H wake (s, B, w) l c' \<and> seen view c' = t"
proof (cases "outside s l")
  case True
  then obtain u where "pool_step s l u" "t = seen view (u, B, w)"
    using pool_step_outside_back [OF True, of "barrier_of (view w) B" t] assms(2) by (auto simp: seen_def)
  then show ?thesis
    using running_step.step_outside [OF True, of u H wake B w] by blast
next
  case o: False
  show ?thesis
    using assms(2)
  proof cases
    case step_caller
    obtain pc k where pc: "ctl s = InBar pc k" "pc \<noteq> CRet" using o step_caller by (cases "ctl s") auto
    obtain pc' b' where st: "call_step pc (barrier_of (view w) B) = Some (pc', b')"
      and t: "t = (seen view (s, B, w))\<lparr>bar := b', ctl := InBar pc' k,
        epoch := (if is_swap pc then epoch s + 1 else epoch s)\<rparr>"
      using step_caller pc by (auto simp: caller_step_def split: option.splits)
    obtain B' w' where c: "call_code H pc B w = Some (pc', B', w')" and b: "b' = barrier_of (view w') B'"
      using code_of_caller [OF inv pc(1)] st by (cases "call_code H pc B w") auto
    have "seen view (s\<lparr>ctl := InBar pc' k, epoch := (if is_swap pc then epoch s + 1 else epoch s)\<rparr>, B', w') = t"
      unfolding t b by (cases s) (simp add: seen_def)
    then show ?thesis using caller_in [OF pc c, of wake] step_caller(1) by blast
  next
    case (step_worker i w' b)
    obtain p where p: "wpc (workers s ! i) = WWait p" "p \<noteq> WtRet"
      using o step_worker by (cases "wpc (workers s ! i)") auto
    have i: "i < num s" using step_worker by simp
    obtain p' where st: "wait_step i p (barrier_of (view w) B) = Some (p', b)"
      and w': "w' = (workers s ! i)\<lparr>wpc := WWait p'\<rparr>"
      using step_worker(5) p by (auto simp: worker_step_def split: option.splits)
    obtain B' v where c: "wait_code H i p B w = Some (p', B', v)" and b: "b = barrier_of (view v) B'"
      using code_of_worker [OF inv i p(1)] st by (cases "wait_code H i p B w") auto
    have "seen view (s\<lparr>workers := (workers s)[i := (workers s ! i)\<lparr>wpc := WWait p'\<rparr>]\<rparr>, B', v) = t"
      unfolding step_worker(2) b w' by (cases s) (simp add: seen_def)
    then show ?thesis using worker_in [OF _ i p c, of wake] step_worker by auto
  next
    case (step_spurious b)
    have c: "c_live (view w) (calling_cond B)" using inv by (auto simp: running_inv_def objs_ok_def)
    have "seen view (s, B, wake (calling_cond B) Caller w) = t"
      using step_spurious wake_wakes [OF c, of Caller]
      by (auto simp: seen_def spurious_wakeup_def barrier_of_asleep split: if_splits)
    then show ?thesis using step_wake [of s H wake B w] step_spurious by auto
  qed (use o in simp)
qed

end

subsection \<open>Runs\<close>

text \<open>The documented use, as for the pool: workers are woken when they are known to be idle.\<close>

definition running_host_step ::
  "'w thread_helper \<Rightarrow> (nat \<Rightarrow> tid \<Rightarrow> 'w \<Rightarrow> 'w) \<Rightarrow> 'w running \<Rightarrow> label \<Rightarrow> 'w running \<Rightarrow> bool" where
  "running_host_step H wake c l c' \<longleftrightarrow> allowed (fst c) l \<and> running_step H wake c l c'"

lemma seen_new:
  assumes "barrier_of (view w) B = new_barrier"
  shows "seen view (new_pool cs, B, w) = new_pool cs"
  using assms by (simp add: seen_def new_pool_def)

lemma allowed_seen: "allowed (seen view c) l = allowed (fst c) l"
  by (cases c; cases "(fst c, l)" rule: allowed.cases) auto

locale running_pool = helper_contract +
  fixes B :: barrier_object and w :: 'a and cs :: "cpu_info list"
  assumes objects: "objs_ok (view w) B" and idle: "barrier_of (view w) B = new_barrier"

sublocale running_pool \<subseteq> code: simulation
  "running_step H wake" "(new_pool cs, B, w)" "running_inv view" pool_step "seen view" "visible view"
proof unfold_locales
  show "running_inv view (new_pool cs, B, w)"
    using objects seen_new [of view w B cs] idle pool_inv_new by (simp add: running_inv_def)
  show "running_inv view t" if "running_step H wake s l t" "running_inv view s" for s l t
    using running_inv_step that .
  show "case visible view s l of None \<Rightarrow> seen view t = seen view s | Some m \<Rightarrow> pool_step (seen view s) m (seen view t)"
    if "running_inv view s" "running_step H wake s l t" for s l t
    using running_forward [OF that(2,1)] by blast
qed

sublocale running_pool \<subseteq> hosted: simulation
  "running_host_step H wake" "(new_pool cs, B, w)" "running_inv view" host_step "seen view" "visible view"
proof unfold_locales
  show "running_inv view t" if "running_host_step H wake s l t" "running_inv view s" for s l t
    using running_inv_step that unfolding running_host_step_def by blast
  show "case visible view s l of None \<Rightarrow> seen view t = seen view s | Some m \<Rightarrow> host_step (seen view s) m (seen view t)"
    if "running_inv view s" "running_host_step H wake s l t" for s l t
    using running_forward [of s l t] that
    by (auto simp: running_host_step_def host_step_iff allowed_seen visible_def split: if_splits)
qed (rule code.inv_start)

context running_pool begin

lemma reach_seen: "reach (running_step H wake) (new_pool cs, B, w) c \<Longrightarrow> reach pool_step (new_pool cs) (seen view c)"
  using code.sim_reach seen_new [of view w B cs] idle by simp

lemma host_reach_seen:
  "reach (running_host_step H wake) (new_pool cs, B, w) c \<Longrightarrow> reach host_step (new_pool cs) (seen view c)"
  using hosted.sim_reach seen_new [of view w B cs] idle by simp

lemma hosted_inv: "reach (running_host_step H wake) (new_pool cs, B, w) c \<Longrightarrow> running_inv view c"
  by (rule hosted.inv_reach)

lemma step_seen:
  assumes "reach (running_step H wake) (new_pool cs, B, w) c" and "running_step H wake c l c'"
  shows "seen view c' = seen view c \<or> pool_step (seen view c) l (seen view c')"
  using running_forward [OF assms(2) code.inv_reach [OF assms(1)]] by (auto simp: visible_def split: if_splits)

lemma step_possible:
  assumes "reach (running_step H wake) (new_pool cs, B, w) c" and "pool_step (seen view c) l t"
  shows "\<exists>c'. running_step H wake c l c' \<and> seen view c' = t"
  using code.inv_reach [OF assms(1)] assms(2) running_backward by (cases c) blast

lemma reach_possible:
  "reach pool_step (new_pool cs) t \<Longrightarrow> \<exists>c. reach (running_step H wake) (new_pool cs, B, w) c \<and> seen view c = t"
proof (induction rule: reach.induct)
  case reach_init
  show ?case
    by (intro exI [of _ "(new_pool cs, B, w)"] conjI reach.reach_init seen_new idle)
next
  case (reach_step s l t)
  then obtain c where c: "reach (running_step H wake) (new_pool cs, B, w) c" "seen view c = s" by blast
  then obtain c' where "running_step H wake c l c'" "seen view c' = t"
    using step_possible [OF c(1), of l t] reach_step.hyps(2) by blast
  then show ?case using reach.reach_step [OF c(1)] by blast
qed

lemma host_reach_possible:
  "reach host_step (new_pool cs) t \<Longrightarrow> \<exists>c. reach (running_host_step H wake) (new_pool cs, B, w) c \<and> seen view c = t"
proof (induction rule: reach.induct)
  case reach_init
  show ?case
    by (intro exI [of _ "(new_pool cs, B, w)"] conjI reach.reach_init seen_new idle)
next
  case (reach_step s l t)
  then obtain c where c: "reach (running_host_step H wake) (new_pool cs, B, w) c" "seen view c = s" by blast
  then have inv: "running_inv view c" using hosted.inv_reach by blast
  have "allowed (fst c) l" "pool_step (seen view c) l t"
    using reach_step.hyps(2) c(2) allowed_seen [of view c l] by (auto simp: host_step_iff)
  then obtain c' where "running_step H wake c l c'" "seen view c' = t"
    using running_backward inv by (cases c) blast
  moreover from this have "running_host_step H wake c l c'"
    using \<open>allowed (fst c) l\<close> by (simp add: running_host_step_def)
  ultimately show ?case using reach.reach_step [OF c(1)] by blast
qed

end

text \<open>A barrier that its constructor has made can run a pool.\<close>

lemma ctor_running_pool:
  assumes "helper_contract H view wake" and "unread_results H w0 = (0, 0)" and "barrier_ctor H w0 = (Inr B, w)"
  shows "running_pool H view wake B w"
  using fresh_barrier_ok [OF helper_contract.barrier_ctor_fresh_objects [OF assms(1,3,2)]] assms(1)
  by (simp add: running_pool_def running_pool_axioms_def)

subsection \<open>On the world of the system\<close>

definition sys_barrier :: "thread_type \<Rightarrow> barrier_object \<times> sys" where
  "sys_barrier type = (case barrier_ctor (helper_of type) (new_sys []) of (r, w) \<Rightarrow> (projr r, w))"

lemma sys_barrier_ctor:
  "barrier_ctor (helper_of type) (new_sys []) = (Inr (fst (sys_barrier type)), snd (sys_barrier type))"
  by (induct type; code_simp)

lemma sys_unread: "unread_results (helper_of type) (new_sys []) = (0, 0)"
  by (induct type; code_simp)

interpretation sys_running: running_pool "helper_of type" sys_view cond_wake "fst (sys_barrier type)" "snd (sys_barrier type)" cs
  for type cs
  by (rule ctor_running_pool [OF sys_helper.helper_contract_axioms sys_unread sys_barrier_ctor])

end
