(* ===== verification/Pool_Cores.thy ===== *)
theory Pool_Cores
  imports Pool_Properties
begin

text \<open>
  The cores of a pool: which core \<open>add_worker\<close> chooses, what \<open>core_info\<close> says about the
  workers, and how the workers are distributed.
\<close>

subsection \<open>Choosing a core\<close>

lemma min_loop_least:
  assumes "best < i" and "i \<le> length all" and "cs = drop i all" and "least = cpu_workers (all ! best)"
    and "\<forall>j < i. least \<le> cpu_workers (all ! j)" and "\<forall>j < best. least < cpu_workers (all ! j)"
  shows "let m = min_loop cs i best least in m < length all
    \<and> (\<forall>j < length all. cpu_workers (all ! m) \<le> cpu_workers (all ! j))
    \<and> (\<forall>j < m. cpu_workers (all ! m) < cpu_workers (all ! j))"
  using assms
proof (induction cs i best least rule: min_loop.induct)
  case (1 i best least)
  then show ?case by auto
next
  case (2 c cs i best least)
  then have i: "i < length all" by (metis drop_eq_Nil leI list.distinct(1))
  then have c: "c = all ! i" and cs: "cs = drop (Suc i) all"
    using Cons_nth_drop_Suc [OF i] "2.prems"(3) by (metis list.inject)+
  show ?case
  proof (cases "cpu_workers c < least")
    case True
    have "\<forall>j < i. cpu_workers c < cpu_workers (all ! j)"
      using True "2.prems"(5) by force
    moreover from this have "\<forall>j < Suc i. cpu_workers c \<le> cpu_workers (all ! j)"
      using c less_Suc_eq less_imp_le by auto
    ultimately show ?thesis using "2.IH"(1) True i c cs by (simp add: Let_def)
  next
    case False
    then have "\<forall>j < Suc i. least \<le> cpu_workers (all ! j)"
      using "2.prems"(5) c less_Suc_eq by auto
    then show ?thesis
      using "2.IH"(2) [OF False] False i cs "2.prems"(1,4,6) unfolding min_loop.simps by auto
  qed
qed

lemma min_core_least:
  assumes "cs \<noteq> []"
  shows "min_core cs < length cs"
    and "j < length cs \<Longrightarrow> cpu_workers (cs ! min_core cs) \<le> cpu_workers (cs ! j)"
    and "j < min_core cs \<Longrightarrow> cpu_workers (cs ! min_core cs) < cpu_workers (cs ! j)"
proof -
  obtain c cs' where cs: "cs = c # cs'" using assms by (cases cs) auto
  then have "let m = min_loop cs' 1 0 (cpu_workers c) in m < length cs
      \<and> (\<forall>j < length cs. cpu_workers (cs ! m) \<le> cpu_workers (cs ! j))
      \<and> (\<forall>j < m. cpu_workers (cs ! m) < cpu_workers (cs ! j))"
    by (intro min_loop_least) auto
  then show "min_core cs < length cs"
    and "j < length cs \<Longrightarrow> cpu_workers (cs ! min_core cs) \<le> cpu_workers (cs ! j)"
    and "j < min_core cs \<Longrightarrow> cpu_workers (cs ! min_core cs) < cpu_workers (cs ! j)"
    using cs by (auto simp: Let_def)
qed

lemma find_core_spec:
  "find_core k cs < length cs \<Longrightarrow> cpu_id_of (cs ! find_core k cs) = k \<and> (\<forall>j < find_core k cs. cpu_id_of (cs ! j) \<noteq> k)"
  by (induction cs) (auto simp: less_Suc_eq_0_disj)

lemma find_core_absent: "find_core k cs = length cs \<longleftrightarrow> k \<notin> cpu_id_of ` set cs"
  by (induction cs) auto


text \<open>
  The core \<open>add_worker\<close> chooses: for a given id the core with that id, found if and only
  if there is one; otherwise a core with the fewest workers, and the first of them.
\<close>

theorem chosen_core:
  assumes "cs \<noteq> []"
  shows "(find_core k cs < length cs \<longleftrightarrow> k \<in> cpu_id_of ` set cs)
    \<and> (find_core k cs < length cs \<longrightarrow> cpu_id_of (cs ! find_core k cs) = k)
    \<and> min_core cs < length cs
    \<and> (\<forall>j < length cs. cpu_workers (cs ! min_core cs) \<le> cpu_workers (cs ! j))
    \<and> (\<forall>j < min_core cs. cpu_workers (cs ! min_core cs) < cpu_workers (cs ! j))"
  using min_core_least [OF assms] find_core_spec [of k cs] find_core_absent [of k cs] find_core_le [of k cs]
  by auto

theorem chosen_core_witness:
  "find_core 1 two_cores = 1 \<and> cpu_id_of (two_cores ! 1) = 1 \<and> min_core two_cores = 0 \<and>
   cpu_workers (two_cores ! 0) \<le> cpu_workers (two_cores ! 1)"
proof -
  have "find_core 1 two_cores = 1" "min_core two_cores = 0" "two_cores \<noteq> []" "length two_cores = 2"
    by code_simp+
  then show ?thesis using chosen_core [of two_cores 1] by simp
qed

subsection \<open>Invariants of the outcome of a whole history of calls\<close>

text \<open>The arguments of the calls of \<open>add_worker\<close> in a schedule.\<close>

fun calls_ok :: "(add_args \<Rightarrow> bool) \<Rightarrow> label list \<Rightarrow> bool" where
  "calls_ok P [] = True"
| "calls_ok P (LCall (AddWorker a) # ls) = (P a \<and> calls_ok P ls)"
| "calls_ok P (_ # ls) = calls_ok P ls"

lemma predict_other_call:
  "ctl s = Host \<Longrightarrow> (\<And>a. c \<noteq> AddWorker a) \<Longrightarrow> predict (host_call c s) = predict s"
  by (cases c) (auto simp: host_call_def predict_def outcome_of_def profile_def)

text \<open>
  What holds of a new pool's cores and workers, and is kept by the specification of
  \<open>add_worker\<close>, holds whenever the owner is outside the methods.
\<close>

lemma outcome_invariant:
  assumes "run pool_step s ls t" and "pool_inv s" and "core_inv n s" and "0 < n"
    and "calls_ok P ls" and "Q (predict s)"
    and Q: "\<And>a r cs ws. P a \<Longrightarrow> Q (r, cs, ws) \<Longrightarrow> length cs = n \<Longrightarrow> Q (add_worker_spec a cs ws)"
  shows "Q (predict t)"
  using assms(1-6)
proof (induction rule: run.induct)
  case (run_cons s l t ls u)
  have inv: "pool_inv t" "core_inv n t"
    using run_cons pool_step_inv core_inv_step by blast+
  have "Q (predict t)"
  proof (cases "is_call l")
    case False
    then have "predict t = predict s"
      using predict_step [OF run_cons(1) _ False] run_cons.prems inv by (auto simp: core_inv_def)
    then show ?thesis using run_cons.prems by simp
  next
    case True
    then obtain c where l: "l = LCall c" by (cases l) auto
    then have h: "ctl s = Host" and t: "t = host_call c s" using run_cons(1) by (auto elim: call_stepE)
    show ?thesis
    proof (cases c)
      case (AddWorker a)
      then have "P a" using run_cons.prems(4) l by simp
      moreover have "Q (ret s, cores s, profile s)" using run_cons.prems(5) h
        by (simp add: predict_def outcome_of_def)
      moreover have "length (cores s) = n" using run_cons.prems by (simp add: core_inv_def)
      ultimately show ?thesis using predict_call [OF h, of a] Q t AddWorker by simp
    qed (use t predict_other_call [OF h, of c] run_cons.prems in auto)
  qed
  moreover have "calls_ok P ls" using run_cons.prems(4) by (cases "(P, l # ls)" rule: calls_ok.cases) auto
  ultimately show ?case using run_cons inv by blast
qed simp

lemma new_pool_outcome: "predict (new_pool cs) = (None, cs, [])"
  by (simp add: predict_def outcome_of_def profile_def new_pool_def)

lemma host_outcome: "ctl s = Host \<Longrightarrow> predict s = (ret s, cores s, profile s)"
  by (simp add: predict_def outcome_of_def)

text \<open>The calls that made the example pool.\<close>

lemma calls_ok_work: "\<forall>l \<in> set ls. \<not> is_call l \<Longrightarrow> calls_ok P (ls @ ms) = calls_ok P ms"
  by (induction P ls rule: calls_ok.induct) auto

lemma pool2_history:
  assumes "P good_args"
  obtains ls where "run pool_step (new_pool two_cores) ls pool2" "calls_ok P ls"
proof -
  obtain l1 where r1: "run pool_step (host_call (AddWorker good_args) (new_pool two_cores)) l1 pool1"
      "\<forall>l \<in> set l1. \<not> is_call l"
    unfolding pool1_def by (rule call_and_run_run)
  obtain l2 where r2: "run pool_step (host_call (AddWorker good_args) pool1) l2 pool2"
      "\<forall>l \<in> set l2. \<not> is_call l"
    unfolding pool2_def by (rule call_and_run_run)
  let ?c = "LCall (AddWorker good_args)"
  have "run pool_step (new_pool two_cores) (?c # l1) pool1"
    by (rule run.run_cons [OF _ r1(1)], rule step_call) (simp add: new_pool_def)
  moreover have "run pool_step pool1 (?c # l2) pool2"
    by (rule run.run_cons [OF _ r2(1)], rule step_call) (simp add: pool1_host)
  ultimately have "run pool_step (new_pool two_cores) ((?c # l1) @ (?c # l2)) pool2"
    by (rule run_append)
  moreover have "calls_ok P ((?c # l1) @ (?c # l2))"
    using assms r1(2) calls_ok_work [OF r2(2), of P "[]"] by (simp add: calls_ok_work)
  ultimately show thesis by (rule that)
qed

subsection \<open>What core_info counts\<close>

definition on_core :: "int \<Rightarrow> (int \<times> int) list \<Rightarrow> nat" where
  "on_core k ws = length (filter (\<lambda>w. fst w = k) ws)"

text \<open>
  The ids never change, every worker is bound to one of them with a priority in range, and the
  use counts are related to the numbers of workers by \<open>R\<close>.
\<close>

definition accounted :: "(int \<Rightarrow> int \<Rightarrow> bool) \<Rightarrow> int list \<Rightarrow> outcome \<Rightarrow> bool" where
  "accounted R ids out \<longleftrightarrow> (case out of (r, cs, ws) \<Rightarrow>
     map cpu_id_of cs = ids \<and>
     (\<forall>w \<in> set ws. fst w \<in> set ids \<and> 0 \<le> snd w \<and> snd w \<le> 100) \<and>
     (\<forall>c < length cs. R (int (on_core (cpu_id_of (cs ! c)) ws)) (cpu_workers (cs ! c))))"

lemma add_core_ids [simp]: "map cpu_id_of (add_core_workers c d cs) = map cpu_id_of cs"
proof (cases "c < length cs")
  case True
  then show ?thesis
    by (intro nth_equalityI) (auto simp: add_core_workers_def nth_list_update)
qed (simp add: add_core_workers_def list_update_beyond)

lemma length_add_core [simp]: "length (add_core_workers c d cs) = length cs"
  by (simp add: add_core_workers_def)

lemma add_core_nth:
  "c < length cs \<Longrightarrow> add_core_workers c d cs ! j = (if j = c then (cs ! c)\<lparr>cpu_workers := cpu_workers (cs ! c) + d\<rparr> else cs ! j)"
  by (simp add: add_core_workers_def)

lemma run_ok_priority:
  "errno_to_worker_status (run_worker a) = WPS_OK \<Longrightarrow> 0 \<le> arg_priority a \<and> arg_priority a \<le> 100"
  by (auto simp: run_worker_def split: if_splits)

lemma accounted_start:
  assumes acc: "accounted R ids (r, cs, ws)" and c: "c < length cs" and d: "distinct ids"
    and R: "\<And>n m. R n m \<Longrightarrow> R (n + 1) (m + 1)"
    and fail: "errno_to_worker_status (run_worker a) \<noteq> WPS_OK \<Longrightarrow> (\<And>n m. R n m \<Longrightarrow> R n (m + 1))"
  shows "accounted R ids (start_spec a c (add_core_workers c 1 cs) ws)"
proof -
  have ids: "map cpu_id_of cs = ids" using acc by (simp add: accounted_def)
  have idn: "j \<noteq> c \<Longrightarrow> cpu_id_of (cs ! c) \<noteq> cpu_id_of (cs ! j)" if "j < length cs" for j
    using d ids that c by (metis length_map nth_eq_iff_index_eq nth_map)
  have idc: "cpu_id_of (cs ! c) \<in> set ids" using ids c by auto
  consider (fail) "errno_to_worker_status (run_worker a) \<noteq> WPS_OK"
    | (init) "errno_to_worker_status (run_worker a) = WPS_OK" "final_status a \<noteq> ATS_OK"
    | (ok) "errno_to_worker_status (run_worker a) = WPS_OK" "final_status a = ATS_OK" by blast
  then show ?thesis
  proof cases
    case fail
    then show ?thesis using acc assms(5) c
      by (simp add: start_spec_def accounted_def add_core_nth)
  next
    case init
    then show ?thesis using acc core_add_undo [OF c] by (simp add: start_spec_def accounted_def)
  next
    case ok
    then show ?thesis using acc c idn idc R run_ok_priority [OF ok(1)]
      by (auto simp: start_spec_def accounted_def add_core_nth on_core_def)
  qed
qed

lemma accounted_add:
  assumes acc: "accounted R ids (r, cs, ws)" and "cs \<noteq> []" and "distinct ids"
    and "\<And>n m. R n m \<Longrightarrow> R (n + 1) (m + 1)"
    and "errno_to_worker_status (run_worker a) \<noteq> WPS_OK \<Longrightarrow> (\<And>n m. R n m \<Longrightarrow> R n (m + 1))"
  shows "accounted R ids (add_worker_spec a cs ws)"
proof (cases "arg_cpu a")
  case None
  then show ?thesis
    using accounted_start [OF acc min_core_least(1) [OF assms(2)] assms(3-5)] by (simp add: add_worker_spec_def)
next
  case (Some k)
  show ?thesis
  proof (cases "find_core k cs = length cs")
    case True
    then show ?thesis using Some acc by (simp add: add_worker_spec_def accounted_def)
  next
    case False
    then have "find_core k cs < length cs" using find_core_le [of k cs] by simp
    then show ?thesis
      using Some False accounted_start [OF acc _ assms(3-5)] by (simp add: add_worker_spec_def)
  qed
qed

lemma accounted_run:
  assumes r: "run pool_step (new_pool cs) ls s" and "cs \<noteq> []" and d: "distinct (map cpu_id_of cs)"
    and z: "\<forall>c \<in> set cs. cpu_workers c = 0" and "calls_ok P ls" and "R 0 0"
    and "\<And>n m. R n m \<Longrightarrow> R (n + 1) (m + 1)"
    and "\<And>a n m. P a \<Longrightarrow> errno_to_worker_status (run_worker a) \<noteq> WPS_OK \<Longrightarrow> R n m \<Longrightarrow> R n (m + 1)"
  shows "accounted R (map cpu_id_of cs) (predict s)"
proof (rule outcome_invariant [OF r pool_inv_new core_inv_new _ assms(5)])
  show "accounted R (map cpu_id_of cs) (predict (new_pool cs))"
    using z assms(6) by (auto simp: new_pool_outcome accounted_def on_core_def)
  show "accounted R (map cpu_id_of cs) (add_worker_spec a cs' ws)"
    if "P a" "accounted R (map cpu_id_of cs) (r, cs', ws)" "length cs' = length cs" for a r cs' ws
    using accounted_add [OF that(2) _ d] that assms(2,7,8) by (metis length_0_conv)
qed (use assms(2) in simp)

text \<open>
  C24. What \<open>core_info\<close> reports, after any history of calls on a pool whose cores have
  distinct ids: the ids are those of the start, every worker of the pool is bound to one of
  them and has a priority from 0 to 100, and the use count of a core is at least the number
  of workers bound to it; and it is exactly that number if every thread that
  \<open>add_worker\<close> started could be started (workers whose initialisation failed included).
\<close>

theorem core_info_accounts:
  assumes "run pool_step (new_pool cs) ls s" and "cs \<noteq> []" and "distinct (map cpu_id_of cs)"
    and "\<forall>c \<in> set cs. cpu_workers c = 0" and "ctl s = Host"
  shows "map cpu_id_of (core_info s) = map cpu_id_of cs
    \<and> (\<forall>w \<in> set (workers s). affinity w \<in> cpu_id_of ` set cs \<and> 0 \<le> priority w \<and> priority w \<le> 100)
    \<and> (\<forall>c \<in> set (core_info s).
         int (length (filter (\<lambda>w. affinity w = cpu_id_of c) (workers s))) \<le> cpu_workers c)
    \<and> (calls_ok (\<lambda>a. errno_to_worker_status (run_worker a) = WPS_OK) ls \<longrightarrow>
       (\<forall>c \<in> set (core_info s).
          int (length (filter (\<lambda>w. affinity w = cpu_id_of c) (workers s))) = cpu_workers c))"
proof -
  have any: "calls_ok (\<lambda>a. True) ms" for ms
    by (induction "\<lambda>a::add_args. True" ms rule: calls_ok.induct) auto
  have n: "on_core k (profile s) = length (filter (\<lambda>w. affinity w = k) (workers s))" for k
    by (simp add: on_core_def profile_def filter_map o_def)
  have le: "accounted (\<le>) (map cpu_id_of cs) (predict s)"
    by (rule accounted_run [OF assms(1-4) any]) auto
  have eq: "accounted (=) (map cpu_id_of cs) (predict s)"
    if "calls_ok (\<lambda>a. errno_to_worker_status (run_worker a) = WPS_OK) ls"
    by (rule accounted_run [OF assms(1-4) that]) auto
  show ?thesis
    using le eq unfolding host_outcome [OF assms(5)] accounted_def core_info_def
    by (auto simp: n in_set_conv_nth) (auto simp: profile_def)
qed

theorem core_info_accounts_witness:
  "map cpu_workers (core_info pool2) = [1, 1] \<and>
   int (length (filter (\<lambda>w. affinity w = cpu_id_of (core_info pool2 ! 0)) (workers pool2))) =
     cpu_workers (core_info pool2 ! 0) \<and>
   int (length (filter (\<lambda>w. affinity w = cpu_id_of (core_info pool2 ! 1)) (workers pool2))) =
     cpu_workers (core_info pool2 ! 1)"
proof -
  obtain ls where r: "run pool_step (new_pool two_cores) ls pool2"
      "calls_ok (\<lambda>a. errno_to_worker_status (run_worker a) = WPS_OK) ls"
    by (rule pool2_history [of "\<lambda>a. errno_to_worker_status (run_worker a) = WPS_OK"])
      (simp add: good_args_def run_worker_def)
  have "two_cores \<noteq> []" "distinct (map cpu_id_of two_cores)" "\<forall>c \<in> set two_cores. cpu_workers c = 0"
    by (simp_all add: two_cores_def)
  from core_info_accounts [OF r(1) this] pool2_host r(2)
  have "\<forall>c \<in> set (core_info pool2).
      int (length (filter (\<lambda>w. affinity w = cpu_id_of c) (workers pool2))) = cpu_workers c" by blast
  moreover have n: "length (core_info pool2) = 2" and m: "map cpu_workers (core_info pool2) = [1, 1]"
    by code_simp+
  ultimately have c: "int (length (filter (\<lambda>w. affinity w = cpu_id_of (core_info pool2 ! i)) (workers pool2))) =
     cpu_workers (core_info pool2 ! i)" if "i < 2" for i
    using that by simp
  show ?thesis using m c [of 0] c [of 1] by simp
qed

subsection \<open>Distribution\<close>

definition balanced :: "cpu_info list \<Rightarrow> bool" where
  "balanced cs \<longleftrightarrow> (\<forall>i < length cs. \<forall>j < length cs. cpu_workers (cs ! i) \<le> cpu_workers (cs ! j) + 1)"

lemma balanced_pick:
  assumes "cs \<noteq> []" and "balanced cs"
  shows "balanced (add_core_workers (min_core cs) 1 cs)"
proof -
  let ?m = "min_core cs"
  have m: "?m < length cs" and le: "\<And>j. j < length cs \<Longrightarrow> cpu_workers (cs ! ?m) \<le> cpu_workers (cs ! j)"
    using min_core_least [OF assms(1)] by auto
  have "cpu_workers (cs ! j) \<le> cpu_workers (cs ! ?m) + 1" if "j < length cs" for j
    using assms(2) that m by (simp add: balanced_def)
  then show ?thesis
    using assms(2) m le by (fastforce simp: balanced_def add_core_nth)
qed

lemma balanced_add:
  assumes "arg_cpu a = None" and "cs \<noteq> []" and "balanced cs"
  shows "balanced (fst (snd (add_worker_spec a cs ws)))"
  using balanced_pick [OF assms(2,3)] core_add_undo [OF min_core_least(1) [OF assms(2)]] assms
  by (simp add: add_worker_spec_def start_spec_def Let_def)

text \<open>
  C25. Workers added without a core are spread evenly: after any history in which no call of
  \<open>add_worker\<close> names a core, whether the calls succeed or fail, the use counts of any two
  cores differ by at most one.
\<close>

theorem workers_spread_evenly:
  assumes "run pool_step (new_pool cs) ls s" and "cs \<noteq> []" and "\<forall>c \<in> set cs. cpu_workers c = 0"
    and "calls_ok (\<lambda>a. arg_cpu a = None) ls" and "ctl s = Host"
  shows "\<forall>c \<in> set (core_info s). \<forall>d \<in> set (core_info s). cpu_workers c \<le> cpu_workers d + 1"
proof -
  have "balanced (fst (snd (predict s)))"
  proof (rule outcome_invariant [OF assms(1) pool_inv_new core_inv_new _ assms(4), where Q = "\<lambda>q. balanced (fst (snd q))"])
    show "balanced (fst (snd (predict (new_pool cs))))"
      using assms(3) by (simp add: new_pool_outcome balanced_def)
    show "balanced (fst (snd (add_worker_spec a cs' ws)))"
      if "arg_cpu a = None" "balanced (fst (snd (r, cs', ws)))" "length cs' = length cs"
      for a cs' ws and r :: "(worker_pool_status \<times> apple_status) option"
      using balanced_add [OF that(1), of cs' ws] that(2,3) assms(2) by (metis fst_conv length_0_conv snd_conv)
  qed (use assms(2) in simp)
  then show ?thesis
    unfolding host_outcome [OF assms(5)] by (auto simp: balanced_def core_info_def in_set_conv_nth)
qed

theorem workers_spread_evenly_witness:
  "cpu_workers (core_info pool2 ! 0) \<le> cpu_workers (core_info pool2 ! 1) + 1 \<and>
   cpu_workers (core_info pool2 ! 1) \<le> cpu_workers (core_info pool2 ! 0) + 1"
proof -
  have n: "length (core_info pool2) = 2" by code_simp
  obtain ls where r: "run pool_step (new_pool two_cores) ls pool2" "calls_ok (\<lambda>a. arg_cpu a = None) ls"
    by (rule pool2_history [of "\<lambda>a. arg_cpu a = None"]) (simp add: good_args_def)
  have "\<forall>c \<in> set (core_info pool2). \<forall>d \<in> set (core_info pool2). cpu_workers c \<le> cpu_workers d + 1"
    by (rule workers_spread_evenly [OF r(1) _ _ r(2)])
      (use pool2_host in \<open>simp_all add: two_cores_def\<close>)
  then show ?thesis using n by (simp add: nth_mem)
qed

end
