(* ===== verification/Pool_Host.thy ===== *)
theory Pool_Host
  imports Pool_Protocol Pool_Cores
begin

text \<open>
  The pool as its host sees it: what holds between two calls, that the workers become idle by
  themselves after a call that does not wait for them, that the results of a call do not
  depend on the schedule, and what a host gets that wakes the workers once per period.
\<close>

subsection \<open>Between two calls\<close>

lemma host_worker_alive:
  assumes "pool_inv s" and "ctl s = Host" and "i < num s"
  shows "wpc (workers s ! i) \<noteq> WExited" and "thread_running (workers s ! i)"
  using pool_invD(4) [OF assms(1)] assms(2,3) by (auto simp: stop_inv_def doomed_def)

text \<open>
  C23. The state of a pool between two calls, whatever the schedule was: the pool, the barrier and the table
  agree on the number of workers; the running flags of the pool and of every worker are set
  and no thread has left its loop; the owner neither holds the mutex nor sleeps; and a worker
  that has come to the barrier has stored the status of its initialisation.
\<close>

theorem between_calls:
  assumes "reach pool_step (new_pool cs) s" and "ctl s = Host"
  shows "no_workers s = int (num s) \<and> no_threads (bar s) = int (num s) \<and> pool_running s
    \<and> owner (bar s) \<noteq> Some Caller \<and> \<not> cv_blocked (bar s)
    \<and> (\<forall>i < num s. thread_running (workers s ! i) \<and> wpc (workers s ! i) \<noteq> WExited
         \<and> (wpc (workers s ! i) \<noteq> WInit \<longrightarrow> resolved (workers s ! i) = status (workers s ! i)))"
proof -
  note p = pool_reach_inv [OF assms(1)]
  have "no_workers s = int (num s) \<and> no_threads (bar s) = int (num s)"
    using pool_invD(2) [OF p] assms(2) by (simp add: size_inv_def)
  moreover have "pool_running s" using pool_invD(4) [OF p] assms(2) by (simp add: stop_inv_def)
  moreover have "owner (bar s) \<noteq> Some Caller" "\<not> cv_blocked (bar s)"
    using barrier_invD(1,3) [OF pool_invD(1) [OF p]] assms(2) by (auto simp: mutex_inv_def wake_inv_def)
  moreover have "resolved (workers s ! i) = status (workers s ! i)"
    if "i < num s" "wpc (workers s ! i) \<noteq> WInit" for i
    using pool_invD(6) [OF p] that by (auto simp: status_inv_def resolved_def split: option.splits)
  ultimately show ?thesis using host_worker_alive [OF p assms(2)] by blast
qed

theorem between_calls_witness:
  "no_workers pool2 = 2 \<and> no_threads (bar pool2) = 2 \<and> thread_running (workers pool2 ! 1)"
  using between_calls [OF host_reach_pool [OF pool2_reach]] pool2_host by simp

subsection \<open>Workers become idle\<close>

lemma host_blocked_idle:
  assumes inv: "pool_inv s" and h: "ctl s = Host" and nw: "\<not> can_work s" and i: "i < num s"
  shows "at_barrier s i" and "calls (workers s ! i) + born (workers s ! i) = epoch s"
proof -
  have na: "\<not> aborted s" using h by (simp add: aborted_def)
  have o: "owner (bar s) = None" using mutex_held_progress [OF inv na] nw by blast
  have w: "wpc (workers s ! i) = WWait (WtSemWait (active_sem_idx (bar s)))"
    using previous_generation_progress [OF inv na o i host_worker_alive(1) [OF inv h i]] nw by blast
  then show "at_barrier s i" by (simp add: at_barrier_def)
  have "active_sem_idx (bar s) < 2"
    using barrier_invD(2) [OF pool_invD(1) [OF inv]] by (simp add: gen_inv_def)
  then have "1 - active_sem_idx (bar s) \<noteq> active_sem_idx (bar s)" by arith
  then have "\<not> owes_call (1 - active_sem_idx (bar s)) (wpc (workers s ! i))" using w by auto
  then show "calls (workers s ! i) + born (workers s ! i) = epoch s"
    using pool_invD(5) [OF inv] i unfolding hist_inv_def by (metis add.right_neutral)
qed

lemma host_step_frame:
  assumes "pool_step s l t" and "pool_inv s" and "ctl s = Host" and "\<not> is_call l"
  shows "ctl t = Host \<and> epoch t = epoch s \<and> map born (workers t) = map born (workers s) \<and> l \<noteq> LSpurious"
  using assms(1)
proof cases
  case (step_worker i w b)
  then show ?thesis using born_put [OF step_worker(5,4)] assms(3) by simp
next
  case (step_spurious b)
  then show ?thesis using assms(2,3) barrier_invD(3) [OF pool_invD(1) [OF assms(2)]]
    by (auto simp: spurious_wakeup_def wake_inv_def split: if_splits)
qed (use assms(3,4) in \<open>auto simp: caller_step_def\<close>)

lemma host_run_frame:
  "run pool_step s ls t \<Longrightarrow> pool_inv s \<Longrightarrow> ctl s = Host \<Longrightarrow> \<forall>l \<in> set ls. \<not> is_call l \<Longrightarrow>
   ctl t = Host \<and> epoch t = epoch s \<and> map born (workers t) = map born (workers s) \<and> spurious_count ls = 0"
proof (induction rule: run.induct)
  case (run_cons s l t ls u)
  then show ?case using host_step_frame [OF run_cons(1)] pool_step_inv [OF run_cons(1)]
    by (simp add: spurious_count_def)
qed (simp add: spurious_count_def)

lemma host_budget: "ctl s = Host \<Longrightarrow> budget s \<le> 13 * num s"
  using wsum_le [of "active_sem_idx (bar s)" "workers s"] by (simp add: budget_def)

lemma runs_out: "pool_inv s \<Longrightarrow> \<exists>ls t. run pool_step s ls t \<and> (\<forall>l \<in> set ls. work_label l) \<and> \<not> can_work t"
proof (induction "budget s" arbitrary: s rule: less_induct)
  case less
  show ?case
  proof (cases "can_work s")
    case True
    then obtain l t where l: "work_label l" "pool_step s l t" by (auto simp: can_work_def)
    then obtain ls u where "run pool_step t ls u" "\<forall>l \<in> set ls. work_label l" "\<not> can_work u"
      using less.hyps [of t] work_budget [OF less.prems l(2,1)] pool_step_inv [OF l(2) less.prems] by blast
    then show ?thesis using run.run_cons [of pool_step s l t ls u] l
      by (intro exI [of _ "l # ls"] exI [of _ u]) simp
  next
    case False
    then show ?thesis by (intro exI [of _ "[]"] exI [of _ s]) (simp add: run.run_nil)
  qed
qed

text \<open>
  C9. After a call that does not wait, such as \<open>wakeup_workers\<close>, the workers become idle by themselves: while the
  host does nothing, the threads make at most 13 steps per worker in any schedule, and a
  schedule that goes on as long as some thread can move ends with every worker waiting at the
  barrier and having called back once for every release since it was added; from everywhere
  there is such a schedule.
\<close>

theorem workers_become_idle:
  assumes "reach pool_step (new_pool cs) s" and "ctl s = Host"
    and "run pool_step s ls t" and "\<forall>l \<in> set ls. \<not> is_call l"
  shows "length ls \<le> 13 * num s
    \<and> ((\<exists>l u. work_label l \<and> pool_step t l u) \<or>
       (\<forall>i < num s. at_barrier t i \<and> calls (workers t ! i) + born (workers s ! i) = epoch s))
    \<and> (\<exists>ms u. run pool_step t ms u \<and> (\<forall>l \<in> set ms. work_label l) \<and>
         (\<forall>i < num s. at_barrier u i \<and> calls (workers u ! i) + born (workers s ! i) = epoch s))"
proof -
  note p = pool_reach_inv [OF assms(1)]
  have idle: "\<forall>i < num s. at_barrier u i \<and> calls (workers u ! i) + born (workers s ! i) = epoch s"
    if r: "run pool_step s ms u" "\<forall>l \<in> set ms. \<not> is_call l" and nw: "\<not> can_work u" for ms u
  proof -
    note f = host_run_frame [OF r(1) p assms(2) r(2)]
    have n: "num u = num s" using f length_map by metis
    have "born (workers u ! i) = born (workers s ! i)" if "i < num s" for i using f n that by (metis nth_map)
    then show ?thesis
      using host_blocked_idle [OF pool_sys.inv_run [OF r(1) p] _ nw] f n by simp
  qed
  have "length ls \<le> 13 * num s"
    using run_budget [OF assms(3) p assms(4)] host_budget [OF assms(2)] host_run_frame [OF assms(3) p assms(2,4)]
    by simp
  moreover obtain ms u where w: "run pool_step t ms u" "\<forall>l \<in> set ms. work_label l" "\<not> can_work u"
    using runs_out [OF pool_sys.inv_run [OF assms(3) p]] by blast
  have "\<forall>l \<in> set (ls @ ms). \<not> is_call l" using assms(4) w(2) work_not_call by auto
  then have "\<forall>i < num s. at_barrier u i \<and> calls (workers u ! i) + born (workers s ! i) = epoch s"
    by (rule idle [OF run_append [OF assms(3) w(1)] _ w(3)])
  ultimately show ?thesis using idle [OF assms(3,4)] w(1,2) unfolding can_work_def by blast
qed

text \<open>Two workers, woken and left alone.\<close>

theorem workers_become_idle_witness:
  "\<exists>ms u. run pool_step (call_and_run 10 WakeupWorkers pool2) ms u
     \<and> at_barrier u 0 \<and> calls (workers u ! 0) = 1 \<and> at_barrier u 1 \<and> calls (workers u ! 1) = 1"
proof -
  let ?s = "call_and_run 10 WakeupWorkers pool2"
  have c: "ctl ?s = Host" "num ?s = 2" "map born (workers ?s) = [0, 0]" "epoch ?s = 1" by code_simp+
  have b: "born (workers ?s ! 0) = 0" "born (workers ?s ! 1) = 0"
    using c(2,3) nth_map [of 0 "workers ?s" born] nth_map [of 1 "workers ?s" born] by simp_all
  have "reach pool_step (new_pool two_cores) ?s"
    using pool2_host by (intro host_reach_pool [OF call_and_run_reach [OF pool2_reach]]) auto
  from workers_become_idle [OF this c(1) run.run_nil]
  obtain ms u where r: "run pool_step ?s ms u"
      and u: "\<forall>i < num ?s. at_barrier u i \<and> calls (workers u ! i) + born (workers ?s ! i) = epoch ?s" by auto
  have "at_barrier u i \<and> calls (workers u ! i) + born (workers ?s ! i) = 1" if "i < 2" for i
    using u that unfolding c(2,4) by blast
  from this [of 0] this [of 1] show ?thesis using r b by (intro exI [of _ ms] exI [of _ u]) simp
qed

subsection \<open>The schedule does not matter\<close>

lemma call_outcome:
  assumes "pool_inv s" and "ctl s = Host" and "run pool_step (host_call c s) ls t"
    and "\<forall>l \<in> set ls. \<not> is_call l" and "ctl t = Host"
  shows "(ret t, cores t, profile t) = predict (host_call c s)"
  using predict_run [OF assms(3) pool_step_inv [OF step_call [OF assms(2)] assms(1)] assms(4)] assms(5)
    host_outcome [OF assms(5)] by simp

lemma wake_wait_return:
  assumes "host_inv s" and "ctl s = Host" and "quiet s"
    and "run pool_step (host_call WakeupAndWait s) ls t" and "\<forall>l \<in> set ls. \<not> is_call l" and "ctl t = Host"
  shows "host_inv t" and "quiet t" and "num t = num s"
    and "i < num t \<Longrightarrow> at_barrier t i \<and> calls (workers t ! i) = calls (workers s ! i) + 1"
proof -
  have c: "host_inv (host_call WakeupAndWait s)" "ctl (host_call WakeupAndWait s) \<noteq> Host"
    using host_inv_call [OF assms(1,2), of WakeupAndWait] assms(3) by simp (simp add: host_call_def)
  note t = waiting_call [OF c(1) enter_during(3) [OF assms(2)] _ c(2) assms(4-6)]
  show q: "host_inv t" "quiet t" using t by simp_all
  have b: "map born (workers t) = map born (workers s)" and e: "epoch t = epoch s + 1" using t by simp_all
  show "num t = num s" using map_eq_imp_length_eq [OF b] .
  show "at_barrier t i \<and> calls (workers t ! i) = calls (workers s ! i) + 1" if "i < num t"
    using quiet_pair [OF assms(1-3) q(1) assms(6) q(2) b that] e by simp
qed

text \<open>
  C10. What the host sees of a call does not depend on the schedule: two runs of the same call
  from the same state, under any two interleavings, return the same statuses, the same list of
  cores and the same workers on the same cores; and after \<open>wakeup_and_wait\<close> every worker has
  called back the same number of times.
\<close>

theorem schedule_independent:
  assumes "reach host_step (new_pool cs) s" and "ctl s = Host" and "allowed s (LCall c)"
    and "run pool_step (host_call c s) ls t" and "\<forall>l \<in> set ls. \<not> is_call l" and "ctl t = Host"
    and "run pool_step (host_call c s) ms u" and "\<forall>l \<in> set ms. \<not> is_call l" and "ctl u = Host"
  shows "ret t = ret u \<and> core_info t = core_info u
    \<and> map (\<lambda>w. (affinity w, priority w)) (workers t) = map (\<lambda>w. (affinity w, priority w)) (workers u)
    \<and> (c = WakeupAndWait \<longrightarrow> map calls (workers t) = map calls (workers u))"
proof -
  have inv: "host_inv s" by (rule host_reach_inv [OF assms(1)])
  then have p: "pool_inv s" by (simp add: host_inv_def)
  have o: "(ret t, cores t, profile t) = (ret u, cores u, profile u)"
    using call_outcome [OF p assms(2,4-6)] call_outcome [OF p assms(2,7-9)] by simp
  have "map calls (workers t) = map calls (workers u)" if c: "c = WakeupAndWait"
  proof -
    have q: "quiet s" using assms(3) c by simp
    note t = wake_wait_return [OF inv assms(2) q assms(4) [unfolded c] assms(5,6)]
    note u = wake_wait_return [OF inv assms(2) q assms(7) [unfolded c] assms(8,9)]
    show ?thesis using t(3,4) u(3,4) by (intro nth_equalityI) auto
  qed
  then show ?thesis using o by (simp add: core_info_def profile_def)
qed

text \<open>Another schedule than that of \<open>drive\<close>: the second worker runs before the first.\<close>

definition second_first :: "label list" where
  "second_first = replicate 11 LCaller @ replicate 8 (LWorker 1) @ replicate 9 (LWorker 0) @ replicate 5 LCaller"

theorem schedule_independent_witness:
  "exec second_first (host_call WakeupAndWait pool2) \<noteq> None
   \<and> core_info (the (exec second_first (host_call WakeupAndWait pool2))) = core_info (call_and_run 100 WakeupAndWait pool2)
   \<and> map calls (workers (the (exec second_first (host_call WakeupAndWait pool2)))) =
       map calls (workers (call_and_run 100 WakeupAndWait pool2))"
proof -
  let ?u = "call_and_run 100 WakeupAndWait pool2"
  have "exec second_first (host_call WakeupAndWait pool2) \<noteq> None" by code_simp
  then obtain t where t: "exec second_first (host_call WakeupAndWait pool2) = Some t" by blast
  have ht: "ctl (the (exec second_first (host_call WakeupAndWait pool2))) = Host" and hu: "ctl ?u = Host"
    by code_simp+
  have l: "\<forall>l \<in> set second_first. \<not> is_call l" by code_simp
  obtain ls where r: "run pool_step (host_call WakeupAndWait pool2) ls ?u" "\<forall>l \<in> set ls. \<not> is_call l"
    by (rule call_and_run_run)
  show ?thesis
    using schedule_independent [OF pool2_reach _ _ exec_run [OF t] l _ r hu] pool2_host ht t by simp
qed

subsection \<open>A host that wakes the workers once per period\<close>

inductive periods :: "nat \<Rightarrow> pool \<Rightarrow> pool \<Rightarrow> bool" where
  no_period: "periods 0 s s"
| next_period: "run pool_step (host_call WakeupAndWait s) ls t \<Longrightarrow> \<forall>l \<in> set ls. \<not> is_call l \<Longrightarrow> ctl t = Host \<Longrightarrow>
     periods n t u \<Longrightarrow> periods (Suc n) s u"

lemma periods_calls:
  assumes "periods n s t" and "host_inv s" and "ctl s = Host" and "quiet s"
  shows "host_inv t \<and> ctl t = Host \<and> quiet t \<and> num t = num s
    \<and> (\<forall>i < num t. calls (workers t ! i) = calls (workers s ! i) + n)"
  using assms
proof (induction rule: periods.induct)
  case (next_period s ls t n u)
  note r = wake_wait_return [OF next_period.prems next_period.hyps(1-3)]
  show ?case using next_period.IH [OF r(1) next_period.hyps(3) r(2)] r(3,4) by simp
qed simp

lemma core_inv_run: "run pool_step s ls t \<Longrightarrow> 0 < n \<Longrightarrow> core_inv n s \<Longrightarrow> core_inv n t"
  by (induction rule: run.induct) (auto intro: core_inv_step)

lemma wake_wait_returns:
  assumes inv: "host_inv s" and h: "ctl s = Host" and q: "quiet s" and n: "0 < n" and c: "core_inv n s"
  obtains ls t where "run pool_step (host_call WakeupAndWait s) ls t" "\<forall>l \<in> set ls. \<not> is_call l" "ctl t = Host"
    "core_inv n t"
proof -
  let ?s = "host_call WakeupAndWait s"
  have inv': "host_inv ?s" using host_inv_call [OF inv h, of WakeupAndWait] q by simp
  then have p: "pool_inv ?s" by (simp add: host_inv_def)
  obtain ls t where r: "run pool_step ?s ls t" "\<forall>l \<in> set ls. work_label l" "returned t"
    using pool_work.finishes [OF p] by blast
  have l: "\<forall>l \<in> set ls. \<not> is_call l" using r(2) work_not_call by blast
  have "core_inv n ?s" using core_inv_step [OF step_call [OF h] n c] .
  then have ci: "core_inv n t" by (rule core_inv_run [OF r(1) n])
  have na: "\<not> aborted t" by (rule no_abort [OF host_inv_run_work [OF r(1) inv' l] ci])
  have "during KWakeWait (epoch s + 1) (map born (workers s)) t"
    by (rule during_run [OF r(1) p enter_during(3) [OF h] _ l]) (simp add: simple_call_def)
  then have "ctl t = Host" using r(3) na by (auto simp: during_def returned_def)
  then show thesis using that r(1) l ci by blast
qed

lemma periods_possible:
  "host_inv s \<Longrightarrow> ctl s = Host \<Longrightarrow> quiet s \<Longrightarrow> 0 < m \<Longrightarrow> core_inv m s \<Longrightarrow> \<exists>t. periods n s t"
proof (induction n arbitrary: s)
  case (Suc n)
  obtain ls t where t: "run pool_step (host_call WakeupAndWait s) ls t" "\<forall>l \<in> set ls. \<not> is_call l" "ctl t = Host"
    "core_inv m t" using wake_wait_returns [OF Suc.prems] .
  note r = wake_wait_return [OF Suc.prems(1-3) t(1-3)]
  obtain u where "periods n t u" using Suc.IH [OF r(1) t(3) r(2) Suc.prems(4) t(4)] by blast
  then show ?case using next_period [OF t(1-3)] by blast
qed (blast intro: no_period)

text \<open>
  C6. An audio host: it calls \<open>wakeup_and_wait\<close> once per period. It can always go through any number
  \<open>n\<close> of periods, and whatever the interleavings were, after \<open>n\<close> periods every worker has called
  back exactly \<open>n\<close> times more, waits at the barrier, and no worker was added or lost.
\<close>

theorem one_callback_per_period:
  assumes "reach host_step (new_pool cs) s" and "ctl s = Host" and "quiet s" and "cs \<noteq> []"
  shows "(\<exists>t. periods n s t)
    \<and> (\<forall>t. periods n s t \<longrightarrow> ctl t = Host \<and> num t = num s
         \<and> (\<forall>i < num s. calls (workers t ! i) = calls (workers s ! i) + n \<and> at_barrier t i))"
proof -
  have inv: "host_inv s" by (rule host_reach_inv [OF assms(1)])
  have ci: "core_inv (length cs) s" using core_inv_reach [OF host_reach_pool [OF assms(1)] assms(4)] .
  have "ctl t = Host \<and> num t = num s \<and> (\<forall>i < num s. calls (workers t ! i) = calls (workers s ! i) + n \<and> at_barrier t i)"
    if "periods n s t" for t
    using periods_calls [OF that inv assms(2,3)] quiet_workers(1) [of t] by simp
  moreover have "\<exists>t. periods n s t"
    using periods_possible [OF inv assms(2,3) _ ci] assms(4) by simp
  ultimately show ?thesis by blast
qed

theorem one_callback_per_period_witness:
  "\<exists>t. periods 480 pool2 t \<and> calls (workers t ! 0) = calls (workers pool2 ! 0) + 480
     \<and> calls (workers t ! 1) = calls (workers pool2 ! 1) + 480"
proof -
  have "two_cores \<noteq> []" "num pool2 = 2" by code_simp+
  moreover obtain t where "periods 480 pool2 t"
    using one_callback_per_period [OF pool2_reach, of 480] pool2_host \<open>two_cores \<noteq> []\<close> by blast
  moreover from this have "\<forall>i < num pool2. calls (workers t ! i) = calls (workers pool2 ! i) + 480"
    using one_callback_per_period [OF pool2_reach, of 480] pool2_host \<open>two_cores \<noteq> []\<close> by blast
  ultimately show ?thesis by (intro exI [of _ t]) simp
qed

end
