(* ===== verification/Running_Host.thy ===== *)
theory Running_Host
  imports Running_Pool Pool_Host
begin

text \<open>
  Whole calls of a pool that runs the barrier's code over a thread helper: its runs are the
  runs of the pool in the model, with more spurious wake-ups, and one call of \<open>wakeup_and_wait\<close>
  on the code, from the call to the return.
\<close>

subsection \<open>Runs of the code\<close>

lemma seen_fields [simp]:
  "ctl (seen view c) = ctl (fst c)" "workers (seen view c) = workers (fst c)" "quiet (seen view c) = quiet (fst c)"
  "aborted (seen view c) = aborted (fst c)"
  by (cases c; simp add: seen_def aborted_def)+

lemma seen_call: "seen view (host_call k (fst c), snd c) = host_call k (seen view c)"
  by (cases c) (simp add: seen_def host_call_bar)

text \<open>The steps of a run that no spurious wake-up makes.\<close>

definition thread_steps :: "label list \<Rightarrow> nat" where
  "thread_steps ls = length ls - spurious_count ls"

lemma spurious_count_le: "spurious_count ls \<le> length ls"
  by (simp add: spurious_count_def)

lemma count_simps [simp]:
  "spurious_count [] = 0" "spurious_count (LSpurious # ls) = Suc (spurious_count ls)"
  "l \<noteq> LSpurious \<Longrightarrow> spurious_count (l # ls) = spurious_count ls"
  "thread_steps [] = 0" "thread_steps (LSpurious # ls) = thread_steps ls"
  "l \<noteq> LSpurious \<Longrightarrow> thread_steps (l # ls) = Suc (thread_steps ls)"
  using spurious_count_le [of ls] by (simp_all add: spurious_count_def thread_steps_def Suc_diff_le)

context helper_contract begin

lemma run_inv: "run (running_step H wake) c ls d \<Longrightarrow> running_inv view c \<Longrightarrow> running_inv view d"
  by (induction rule: run.induct) (auto intro: running_inv_step)

lemma run_seen:
  "run (running_step H wake) c ls d \<Longrightarrow> running_inv view c \<Longrightarrow>
   \<exists>ms. run pool_step (seen view c) ms (seen view d) \<and> set ms \<subseteq> set ls
     \<and> thread_steps ms = thread_steps ls \<and> spurious_count ms \<le> spurious_count ls"
proof (induction rule: run.induct)
  case (run_nil c)
  show ?case by (intro exI [of _ "[]"]) (simp add: run.run_nil)
next
  case (run_cons c l d ls e)
  then obtain ms where ms: "run pool_step (seen view d) ms (seen view e)" "set ms \<subseteq> set ls"
      "thread_steps ms = thread_steps ls" "spurious_count ms \<le> spurious_count ls"
    using running_inv_step by blast
  have st: "case visible view c l of None \<Rightarrow> seen view d = seen view c | Some m \<Rightarrow> pool_step (seen view c) m (seen view d)"
    using running_forward [OF run_cons(1,4)] by simp
  consider "visible view c l = None" "l = LSpurious" | "visible view c l = Some l"
    by (cases "l = LSpurious \<and> \<not> cv_blocked (bar (seen view c))") (auto simp: visible_def)
  then show ?case
  proof cases
    case 1
    then show ?thesis using st ms by (intro exI [of _ ms]) auto
  next
    case 2
    then have "run pool_step (seen view c) (l # ms) (seen view e)" using st ms(1) by (auto intro: run.run_cons)
    then show ?thesis using ms(2-4) by (intro exI [of _ "l # ms"]) (cases "l = LSpurious"; auto)
  qed
qed

lemma run_possible:
  "run pool_step s ms t \<Longrightarrow> running_inv view c \<Longrightarrow> seen view c = s \<Longrightarrow>
   \<exists>d. run (running_step H wake) c ms d \<and> seen view d = t"
proof (induction arbitrary: c rule: run.induct)
  case (run_nil s)
  then show ?case by (intro exI [of _ c]) (simp add: run.run_nil)
next
  case (run_cons s l t ms u)
  then obtain c' where c': "running_step H wake c l c'" "seen view c' = t"
    using running_backward [of "fst c" "fst (snd c)" "snd (snd c)" l t] by auto
  then obtain d where "run (running_step H wake) c' ms d" "seen view d = u"
    using run_cons.IH [OF running_inv_step [OF c'(1) run_cons.prems(1)]] by blast
  then show ?case using run.run_cons [of "running_step H wake", OF c'(1)] by metis
qed

end

subsection \<open>A period\<close>

lemma wake_wait_total:
  assumes inv: "host_inv s" and h: "ctl s = Host" and q: "quiet s" and n: "0 < n" and c: "core_inv n s"
    and r: "run pool_step (host_call WakeupAndWait s) ls t" "\<forall>l \<in> set ls. \<not> is_call l"
  shows "length ls \<le> 29 * num s + 60 + 5 * spurious_count ls \<and> \<not> aborted t \<and> (ctl t = Host \<or> can_work t)"
proof -
  let ?s = "host_call WakeupAndWait s"
  have inv': "host_inv ?s" using host_inv_call [OF inv h, of WakeupAndWait] q by simp
  then have p: "pool_inv ?s" by (simp add: host_inv_def)
  have "core_inv n ?s" using core_inv_step [OF step_call [OF h] n c] .
  then have na: "\<not> aborted t"
    using no_abort [OF host_inv_run_work [OF r(1) inv' r(2)] core_inv_run [OF r(1) n]] by blast
  have "during KWakeWait (epoch s + 1) (map born (workers s)) t"
    by (rule during_run [OF r(1) p enter_during(3) [OF h] _ r(2)]) (simp add: simple_call_def)
  then have "returned t \<Longrightarrow> ctl t = Host" using na by (auto simp: during_def returned_def)
  then show ?thesis
    using run_budget [OF r(1) p r(2)] call_budget [OF h, of WakeupAndWait] na
      pool_progress [OF pool_sys.inv_run [OF r(1) p]] by auto
qed

context helper_contract begin

lemma period_on_code:
  assumes ri: "running_inv view c" and inv: "host_inv (seen view c)" and ci: "core_inv n (seen view c)" and n: "0 < n"
    and h: "ctl (fst c) = Host" and q: "quiet (fst c)"
    and r: "run (running_step H wake) (host_call WakeupAndWait (fst c), snd c) ls d" and nc: "\<forall>l \<in> set ls. \<not> is_call l"
  shows "thread_steps ls \<le> 29 * num (fst c) + 60 + 5 * spurious_count ls" and "\<not> aborted (fst d)"
    and "ctl (fst d) = Host \<Longrightarrow> num (fst d) = num (fst c) \<and> quiet (fst d)
         \<and> (\<forall>i < num (fst d). calls (workers (fst d) ! i) = calls (workers (fst c) ! i) + 1)"
    and "ctl (fst d) \<noteq> Host \<Longrightarrow> \<exists>l e. work_label l \<and> running_step H wake d l e"
proof -
  let ?s = "seen view c" and ?c = "(host_call WakeupAndWait (fst c), snd c)"
  have rc: "running_inv view ?c"
    using ri pool_step_inv [OF step_call [of ?s WakeupAndWait]] h by (simp add: running_inv_def seen_call)
  obtain ms where ms: "run pool_step (host_call WakeupAndWait ?s) ms (seen view d)" "set ms \<subseteq> set ls"
      "thread_steps ms = thread_steps ls" "spurious_count ms \<le> spurious_count ls"
    using run_seen [OF r rc] by (auto simp: seen_call)
  have ncm: "\<forall>l \<in> set ms. \<not> is_call l" using ms(2) nc by blast
  have t: "length ms \<le> 29 * num (fst c) + 60 + 5 * spurious_count ms" "\<not> aborted (fst d)"
      "ctl (fst d) = Host \<or> can_work (seen view d)"
    using wake_wait_total [OF inv _ _ n ci ms(1) ncm] h q by simp_all
  show "thread_steps ls \<le> 29 * num (fst c) + 60 + 5 * spurious_count ls"
    using t(1) ms(3,4) by (simp add: thread_steps_def)
  show "\<not> aborted (fst d)" using t(2) .
  show "num (fst d) = num (fst c) \<and> quiet (fst d)
      \<and> (\<forall>i < num (fst d). calls (workers (fst d) ! i) = calls (workers (fst c) ! i) + 1)" if "ctl (fst d) = Host"
    using wakeup_and_wait_result [OF inv _ _ ms(1) ncm] h q that by simp
  show "\<exists>l e. work_label l \<and> running_step H wake d l e" if nh: "ctl (fst d) \<noteq> Host"
  proof -
    obtain l u where "work_label l" "pool_step (seen view d) l u" using t(3) nh unfolding can_work_def by blast
    then show ?thesis
      using running_backward [of "fst d" "fst (snd d)" "snd (snd d)" l u] run_inv [OF r rc] by auto
  qed
qed

end

text \<open>
  One period on the code: a pool that runs the barrier's code over any thread helper that meets the
  contract, on the objects that the constructor has made, used as documented. After a call
  of \<open>wakeup_and_wait\<close> the threads take at most 29 steps per worker and 60 more, plus five for
  every spurious wake-up, in any schedule; until the call returns some thread can move and nothing
  aborts; and when it returns, every worker has called back exactly once more and the pool is idle again.
\<close>

theorem code_runs_a_period:
  assumes "helper_contract H view wake" and "barrier_ctor H w0 = (Inr B, w)" and "unread_results H w0 = (0, 0)"
    and "cs \<noteq> []" and "reach (running_host_step H wake) (new_pool cs, B, w) c" and "ctl (fst c) = Host" and "quiet (fst c)"
    and "run (running_step H wake) (host_call WakeupAndWait (fst c), snd c) ls d" and "\<forall>l \<in> set ls. \<not> is_call l"
  shows "thread_steps ls \<le> 29 * num (fst c) + 60 + 5 * spurious_count ls \<and> \<not> aborted (fst d)
    \<and> (if ctl (fst d) = Host
       then num (fst d) = num (fst c) \<and> quiet (fst d)
         \<and> (\<forall>i < num (fst d). calls (workers (fst d) ! i) = calls (workers (fst c) ! i) + 1)
       else \<exists>l e. work_label l \<and> running_step H wake d l e)"
proof -
  note rp = ctor_running_pool [OF assms(1,3,2)]
  have rs: "reach host_step (new_pool cs) (seen view c)" using running_pool.host_reach_seen [OF rp assms(5)] .
  have ci: "core_inv (length cs) (seen view c)" using core_inv_reach [OF host_reach_pool [OF rs] assms(4)] .
  have "0 < length cs" using assms(4) by simp
  from helper_contract.period_on_code [OF assms(1) running_pool.hosted_inv [OF rp assms(5)] host_reach_inv [OF rs] ci this assms(6-9)]
  show ?thesis by auto
qed

text \<open>Two workers on the semaphores of the EVL library.\<close>

theorem code_runs_a_period_witness:
  "\<exists>c ls d. run (running_step (helper_of EVL) cond_wake) (host_call WakeupAndWait (fst c), snd c) ls d
     \<and> seen sys_view c = pool2 \<and> ctl (fst d) = Host
     \<and> calls (workers (fst d) ! 0) = calls (workers (fst c) ! 0) + 1
     \<and> calls (workers (fst d) ! 1) = calls (workers (fst c) ! 1) + 1"
proof -
  obtain c where c: "reach (running_host_step (helper_of EVL) cond_wake)
      (new_pool two_cores, fst (sys_barrier EVL), snd (sys_barrier EVL)) c" "seen sys_view c = pool2"
    using sys_running.host_reach_possible [OF pool2_reach] by blast
  let ?c = "(host_call WakeupAndWait (fst c), snd c)"
  have h: "ctl (fst c) = Host" "quiet (fst c)" "num (fst c) = 2"
    using pool2_host c(2) seen_fields [of sys_view c] by simp_all
  have "running_inv sys_view c" using sys_running.hosted_inv [OF c(1)] .
  then have ri: "running_inv sys_view ?c"
    using pool_step_inv [OF step_call [of pool2 WakeupAndWait]] pool2_host c(2)
    by (simp add: running_inv_def seen_call)
  obtain ls where r: "run pool_step (host_call WakeupAndWait pool2) ls (call_and_run 100 WakeupAndWait pool2)"
      "\<forall>l \<in> set ls. \<not> is_call l"
    by (rule call_and_run_run)
  obtain d where d: "run (running_step (helper_of EVL) cond_wake) ?c ls d"
      "seen sys_view d = call_and_run 100 WakeupAndWait pool2"
    using sys_helper.run_possible [OF r(1) ri] c(2) by (metis seen_call)
  have "ctl (call_and_run 100 WakeupAndWait pool2) = Host" by code_simp
  then have hd: "ctl (fst d) = Host" using d(2) seen_fields(1) [of sys_view d] by simp
  have "two_cores \<noteq> []" by code_simp
  from code_runs_a_period [OF sys_helper.helper_contract_axioms sys_barrier_ctor sys_unread this c(1) h(1,2) d(1) r(2)]
  have "calls (workers (fst d) ! 0) = calls (workers (fst c) ! 0) + 1 \<and> calls (workers (fst d) ! 1) = calls (workers (fst c) ! 1) + 1"
    using hd h(3) by simp
  then show ?thesis using d(1) c(2) hd by (intro exI [of _ c] exI [of _ ls] exI [of _ d] conjI) auto
qed

end
