(* ===== verification/Helper_Properties.thy ===== *)
theory Helper_Properties
  imports Running_Pool
begin

text \<open>
  The properties of the thread helpers and of the barrier's code over them; the start and the end of a
  thread in \<open>WorkerThread\<close>, over the interface; and what happens when two pools are created at
  the same time.
\<close>

subsection \<open>Threads\<close>

text \<open>
  \<open>WorkerThread::run\<close> with the call of the helper: the attributes it fills in, the result, the field
  \<open>_thread_handle\<close> afterwards and the world. \<open>fixed_core\<close> is false on macOS and on Windows, where
  the affinity is not set. \<open>set_affinity\<close> is the answer of \<open>pthread_attr_setaffinity_np\<close>; when it is
  not 0 the attributes are as they were. The destructor joins a thread if the handle is not 0.
\<close>

definition worker_attr :: "bool \<Rightarrow> int \<Rightarrow> int \<Rightarrow> int \<Rightarrow> int \<times> thread_attr" where
  "worker_attr fixed_core set_affinity prio cpu =
     (let attr = default_attr\<lparr>detachstate := PTHREAD_CREATE_JOINABLE, inheritsched := PTHREAD_EXPLICIT_SCHED,
                   schedpolicy := SCHED_FIFO, sched_priority := prio\<rparr>
      in if fixed_core then (set_affinity, if set_affinity = 0 then attr\<lparr>cpu_affinity := Some cpu\<rparr> else attr)
         else (0, attr))"

definition thread_run ::
    "'w thread_helper \<Rightarrow> bool \<Rightarrow> int \<Rightarrow> int \<Rightarrow> int \<Rightarrow> nat \<Rightarrow> 'w \<Rightarrow> int \<times> nat \<times> 'w" where
  "thread_run H fixed_core set_affinity prio cpu this w =
     (if prio < 0 \<or> prio > 100 then (EINVAL, 0, w)
      else let (res, attr) = worker_attr fixed_core set_affinity prio cpu
           in if res = 0 then thread_create H attr this w else (res, 0, w))"

definition thread_dtor :: "'w thread_helper \<Rightarrow> nat \<Rightarrow> 'w \<Rightarrow> 'w option" where
  "thread_dtor H handle w = (if handle \<noteq> 0 then map_option snd (thread_join H handle w) else Some w)"

text \<open>The pool's model of \<open>run\<close> takes the answer of \<open>thread_create\<close> as an argument.\<close>

lemma run_worker_thread_run:
  "os_create a = fst (thread_create H (snd (worker_attr fixed_core (os_affinity a) (arg_priority a) cpu)) this w) \<Longrightarrow>
   (\<not> fixed_core \<Longrightarrow> os_affinity a = 0) \<Longrightarrow>
   run_worker a = fst (thread_run H fixed_core (os_affinity a) (arg_priority a) cpu this w)"
  by (simp add: run_worker_def thread_run_def worker_attr_def Let_def)

text \<open>
  The thread is created joinable, with the realtime policy and the priority asked for and not
  those of the thread that creates it, and on a core of its own choice only where that can be set.
\<close>

lemma worker_attr_realtime:
  assumes "worker_attr fixed_core set_affinity prio cpu = (0, attr)"
  shows "detachstate attr = PTHREAD_CREATE_JOINABLE" and "inheritsched attr = PTHREAD_EXPLICIT_SCHED"
    and "schedpolicy attr = SCHED_FIFO" and "sched_priority attr = prio"
    and "cpu_affinity attr = (if fixed_core then Some cpu else None)"
  using assms by (auto simp: worker_attr_def default_attr_def Let_def split: if_splits)

text \<open>
  A worker's thread from start to join, for the three libraries: \<open>run\<close> creates a thread
  exactly for a priority from 0 to 100 that no call of the system refuses, and returns the first
  refusal otherwise; the destructor of a worker with a thread returns when the thread has ended, and
  that of a worker without one returns at once.
\<close>

theorem thread_lifetime:
  assumes "thread_run (helper_of type) fixed_core set_affinity prio cpu this w = (res, handle, w')"
  shows "(res = 0 \<longleftrightarrow> 0 \<le> prio \<and> prio \<le> 100 \<and> (fixed_core \<longrightarrow> set_affinity = 0) \<and> fst (ask w) = 0)
    \<and> (if res = 0 then thread_at w handle = NoThread \<and> thread_at w' = (thread_at w)(handle := Running)
          \<and> thread_dtor (helper_of type) handle w' = None
          \<and> (\<exists>u. thread_dtor (helper_of type) handle (finish_thread handle w') = Some u \<and> thread_at u = thread_at w)
       else thread_at w' = thread_at w \<and> thread_dtor (helper_of type) handle w' = Some w')"
proof -
  let ?H = "helper_of type"
  have ok: "(res = 0 \<longleftrightarrow> 0 \<le> prio \<and> prio \<le> 100 \<and> (fixed_core \<longrightarrow> set_affinity = 0) \<and> fst (ask w) = 0)
      \<and> (res \<noteq> 0 \<longrightarrow> handle = 0)"
    using assms
    by (auto simp: thread_run_def worker_attr_def Let_def helper_threads new_thread_def split: if_splits prod.splits)
  show ?thesis
  proof (cases "res = 0")
    case True
    then obtain attr where "new_thread attr this w = (0, handle, w')"
      using assms by (auto simp: thread_run_def helper_threads Let_def split: if_splits prod.splits)
    note t = new_thread_ok(3) [OF this refl]
    then have "thread_at (finish_thread handle w') = (thread_at w')(handle := Ended)"
      by (simp add: finish_thread_def set_thread_at)
    then have "thread_dtor ?H handle w' = None" "\<exists>u. thread_dtor ?H handle (finish_thread handle w') = Some u \<and> thread_at u = thread_at w"
      using t by (auto simp: thread_dtor_def helper_threads join_thread_def set_thread_at fun_eq_iff)
    then show ?thesis using ok t True by simp
  next
    case False
    then have "thread_at w' = thread_at w"
      using assms new_thread_ok(2)
      by (auto simp: thread_run_def helper_threads Let_def split: if_splits prod.splits)
    then show ?thesis using ok False by (simp add: thread_dtor_def)
  qed
qed

theorem thread_lifetime_witness:
  "thread_dtor (helper_of EVL) 1 ((new_sys [])\<lparr>sys_threads := [Running]\<rparr>) = None
   \<and> thread_run (helper_of EVL) True 0 101 0 0 (new_sys []) = (EINVAL, 0, new_sys [])"
proof -
  have a: "thread_run (helper_of EVL) True 0 75 0 0 (new_sys []) = (0, 1, (new_sys [])\<lparr>sys_threads := [Running]\<rparr>)"
    and b: "thread_run (helper_of EVL) True 0 101 0 0 (new_sys []) = (EINVAL, 0, new_sys [])" by code_simp+
  show ?thesis using thread_lifetime [OF a] b by simp
qed

subsection \<open>The barrier's objects\<close>

text \<open>
  The constructor of the barrier, when it succeeds and the results it does not look at are 0,
  makes a mutex, a condition variable and two semaphores that did not exist, the semaphores
  different and at 0, the mutex free, and leaves every object in the system as it
  was, whatever names exist already; and so does a barrier that is destroyed again. For every helper that
  meets the contract.
\<close>

theorem barrier_ctor_fresh:
  assumes "helper_contract H view wake"
    and "barrier_ctor H w = (Inr B, w')" and "unread_results H w = (0, 0)"
  shows "fresh_barrier (view w) (view w') B \<and> keeps (view w) (view w')
    \<and> keeps (view w) (view (barrier_dtor H B w'))"
  using helper_contract.barrier_ctor_fresh_objects [OF assms] helper_contract.barrier_ctor_keeps [OF assms(1,2)]
    helper_contract.barrier_lifetime_keeps [OF assms] by simp

definition left_over :: sys where
  "left_over = (new_sys [])\<lparr>sys_sems := \<lparr>sem_names = [(''/twine-barrier-sem-0'', 0)], sem_counts = [5]\<rparr>\<rparr>"

theorem barrier_ctor_fresh_witness:
  "fst (semaphores (projr (fst (barrier_ctor (helper_of PTHREAD) left_over)))) \<noteq> 0
   \<and> s_count (sys_view (snd (barrier_ctor (helper_of PTHREAD) left_over))) 0 = 5"
proof -
  obtain B w' where c: "barrier_ctor (helper_of PTHREAD) left_over = (Inr B, w')"
  proof -
    have "isl (fst (barrier_ctor (helper_of PTHREAD) left_over)) = False" by code_simp
    then show thesis using that by (cases "barrier_ctor (helper_of PTHREAD) left_over"; cases "fst (barrier_ctor (helper_of PTHREAD) left_over)") auto
  qed
  have u: "unread_results (helper_of PTHREAD) left_over = (0, 0)" by code_simp
  have l: "s_live (sys_view left_over) 0" "s_count (sys_view left_over) 0 = 5"
    by (simp_all add: left_over_def sys_view_def sem_live_def sem_count_def)
  have f: "fresh_barrier (sys_view left_over) (sys_view w') B" and k: "keeps (sys_view left_over) (sys_view w')"
    using barrier_ctor_fresh [OF sys_helper.helper_contract_axioms c u] by simp_all
  have "fst (semaphores B) \<noteq> 0" using f l(1) unfolding fresh_barrier_def by metis
  moreover have "s_count (sys_view w') 0 = 5" using k l unfolding keeps_def by simp
  ultimately show ?thesis using c by simp
qed

text \<open>
  Errors in the constructor: when the second semaphore is refused, it throws with that number, and
  since a constructor that throws has no destructor call the first semaphore stays in the system under its
  name; when the mutex is refused, it throws nothing and the barrier has no mutex.
\<close>

theorem barrier_ctor_failures:
  assumes "e \<noteq> 0"
  shows "\<exists>w1 B w2. barrier_ctor (helper_of PTHREAD) (new_sys [0, e]) = (Inl e, w1)
     \<and> map_of (sem_names (sys_sems w1)) ''/twine-barrier-sem-0'' = Some 0
     \<and> barrier_ctor (helper_of PTHREAD) (new_sys [0, 0, e]) = (Inr B, w2)
     \<and> sys_mutexes w2 = [] \<and> \<not> m_live (sys_view w2) (calling_mutex B)"
  using assms
  by (simp add: barrier_ctor_def helper_defs posix_semaphore_create_def c_named_sems_def posix_sem_open_def
      posix_sem_unlink_def new_sys_def ask_def sem_open_creat_def sem_unlink_def new_named_def fresh_sem_def
      empty_world_def new_mutex_def new_cond_def sys_view_def is_live_def)

theorem barrier_ctor_failures_witness:
  "fst (barrier_ctor (helper_of PTHREAD) (new_sys [0, EAGAIN])) = Inl EAGAIN"
  using barrier_ctor_failures [of EAGAIN] by auto

subsection \<open>The barrier's code\<close>

text \<open>
  C4. The barrier as it is written, with calls of a thread helper for every mutex, condition
  variable and semaphore, behaves as the barrier of the model: for every helper that meets the
  contract, the states that a pool running on the code reaches are, seen through the
  objects' states, exactly the states of the pool in the model, and every single step of
  one is a step of the other or a spurious wake-up of nobody.
\<close>

theorem code_refines_pool:
  assumes "helper_contract H view wake"
    and "barrier_ctor H w0 = (Inr B, w)" and "unread_results H w0 = (0, 0)"
  shows "seen view ` {c. reach (running_step H wake) (new_pool cs, B, w) c} = {s. reach pool_step (new_pool cs) s}
    \<and> (\<forall>c l c'. reach (running_step H wake) (new_pool cs, B, w) c \<and> running_step H wake c l c' \<longrightarrow>
         seen view c' = seen view c \<or> pool_step (seen view c) l (seen view c'))
    \<and> (\<forall>c l t. reach (running_step H wake) (new_pool cs, B, w) c \<and> pool_step (seen view c) l t \<longrightarrow>
         (\<exists>c'. running_step H wake c l c' \<and> seen view c' = t))"
proof -
  note rp = ctor_running_pool [OF assms(1,3,2)]
  show ?thesis
    using running_pool.reach_seen [OF rp] running_pool.reach_possible [OF rp]
      running_pool.step_seen [OF rp] running_pool.step_possible [OF rp] by blast
qed

theorem code_refines_pool_witness:
  "\<exists>c. reach (running_step (helper_of EVL) cond_wake) (new_pool two_cores, fst (sys_barrier EVL), snd (sys_barrier EVL)) c
     \<and> seen sys_view c = pool2"
proof -
  have "seen sys_view ` {c. reach (running_step (helper_of EVL) cond_wake)
      (new_pool two_cores, fst (sys_barrier EVL), snd (sys_barrier EVL)) c} = {s. reach pool_step (new_pool two_cores) s}"
    using code_refines_pool [OF sys_helper.helper_contract_axioms sys_barrier_ctor sys_unread, of EVL two_cores] by simp
  moreover have "pool2 \<in> {s. reach pool_step (new_pool two_cores) s}"
    using host_reach_pool [OF pool2_reach] by simp
  ultimately have "pool2 \<in> seen sys_view ` {c. reach (running_step (helper_of EVL) cond_wake)
      (new_pool two_cores, fst (sys_barrier EVL), snd (sys_barrier EVL)) c}" by simp
  then obtain c where "c \<in> {c. reach (running_step (helper_of EVL) cond_wake)
      (new_pool two_cores, fst (sys_barrier EVL), snd (sys_barrier EVL)) c}" and "pool2 = seen sys_view c"
    by (rule imageE)
  then show ?thesis by (intro exI [of _ c]) (simp del: prod.collapse)
qed

subsection \<open>Two pools at the same time\<close>

text \<open>
  The POSIX helper makes a semaphore in two steps, \<open>sem_unlink\<close> and \<open>sem_open\<close>; another
  thread or process can run between them.
\<close>

definition interleaved_creation :: "string \<Rightarrow> sem_world \<Rightarrow> (int + nat) \<times> (int + nat)" where
  "interleaved_creation name w =
     (let w1 = sem_unlink name w;          \<comment> \<open>first pool\<close>
          w2 = sem_unlink name w1;         \<comment> \<open>second pool\<close>
          (a, w3) = sem_open_creat name 0 w2;
          (b, w4) = sem_open_creat name 0 w3
      in (a, b))"

text \<open>
  Two pools created at the same time (by two threads, or by two programs on one
  machine) can share a semaphore: all pools use the same two names, and when both creations
  remove the name before either opens it, both open the same semaphore, in any world. One
  pool's release then wakes the workers of the other.
\<close>

theorem concurrent_creation_shares:
  "fst (interleaved_creation name w) = snd (interleaved_creation name w)"
  by (simp add: interleaved_creation_def unlink_then_open Let_def)
    (simp add: sem_open_creat_def)

end
