(* ===== verification/Pool_Lifetime.thy ===== *)
theory Pool_Lifetime
  imports Running_Host Helper_Properties
begin

text \<open>
  A pool from its constructor to the end of its destructor, on a thread helper: the barrier's
  code runs on the helper's objects (\<open>Running_Pool\<close>), and the workers are threads of the
  helper, which \<open>add_worker\<close> creates and the destructors join; the members are destroyed after the
  body of the pool's destructor has run, first the workers and then the barrier.
\<close>

subsection \<open>Threads made and joined\<close>

text \<open>
  The state: a pool with its barrier and the world, the fields \<open>_thread_handle\<close> of the workers in
  \<open>_workers\<close>, and that of the worker that \<open>add_worker\<close> made last, which its local variable owns
  until it is moved into the list.
\<close>

type_synonym 'w life = "pool \<times> barrier_object \<times> 'w \<times> nat list \<times> nat"

text \<open>The worker leaves its loop in its next step, and its thread ends.\<close>

definition leaves :: "pool \<Rightarrow> nat \<Rightarrow> bool" where
  "leaves s i \<longleftrightarrow>
     (case wpc (workers s ! i) of
        WWait p \<Rightarrow> p = WtRet \<and> \<not> pool_running s
      | WCheckThread \<Rightarrow> \<not> thread_running (workers s ! i)
      | _ \<Rightarrow> False)"

text \<open>The steps that call the helper for a thread or destroy the barrier.\<close>

fun thread_event :: "pool \<Rightarrow> label \<Rightarrow> bool" where
  "thread_event s LCaller =
     (case ctl s of
        AddExec a c \<Rightarrow> True | AddPop st \<Rightarrow> True | DtorJoin i \<Rightarrow> True
      | InBar pc (KAddRunFailed st) \<Rightarrow> pc = CRet
      | _ \<Rightarrow> False)"
| "thread_event s (LWorker i) = leaves s i"
| "thread_event s LSpurious = (ctl s = Gone)"
| "thread_event s (LCall c) = False"

text \<open>The arguments of the call with the result that \<open>run\<close> really had.\<close>

definition answered :: "int \<Rightarrow> add_args \<Rightarrow> add_args" where
  "answered res a = a\<lparr>os_affinity := 0, os_create := res\<rparr>"

text \<open>
  \<open>fixed_core\<close>: the build sets affinities. A worker that could not be started is destroyed when
  \<open>add_worker\<close> returns; if its handle is not 0, its destructor joins a thread that does not
  exist, which is undefined.
\<close>

inductive life_step ::
    "'w thread_helper \<Rightarrow> (nat \<Rightarrow> tid \<Rightarrow> 'w \<Rightarrow> 'w) \<Rightarrow> (nat \<Rightarrow> 'w \<Rightarrow> 'w) \<Rightarrow> bool \<Rightarrow> 'w life \<Rightarrow> label \<Rightarrow> 'w life \<Rightarrow> bool"
  for H :: "'w thread_helper" and wake :: "nat \<Rightarrow> tid \<Rightarrow> 'w \<Rightarrow> 'w" and finish :: "nat \<Rightarrow> 'w \<Rightarrow> 'w" and fixed_core :: bool where
  life_other: "\<not> thread_event s l \<Longrightarrow> running_step H wake (s, B, w) l (t, B', w') \<Longrightarrow>
     life_step H wake finish fixed_core (s, B, w, hs, h) l (t, B', w', hs, h)"
| life_run: "ctl s = AddExec a c \<Longrightarrow>
     thread_run H fixed_core (os_affinity a) (arg_priority a) (cpu_id_of (cores s ! c)) (length (workers s)) w = (res, h', w') \<Longrightarrow>
     life_step H wake finish fixed_core (s, B, w, hs, h) LCaller
       (add_exec (answered res a) c s, B, w', (if errno_to_worker_status res = WPS_OK then hs @ [h'] else hs), h')"
| life_drop: "ctl s = InBar CRet (KAddRunFailed st) \<Longrightarrow> h = 0 \<Longrightarrow>
     life_step H wake finish fixed_core (s, B, w, hs, h) LCaller (resume (KAddRunFailed st) s, B, w, hs, h)"
| life_garbage: "ctl s = InBar CRet (KAddRunFailed st) \<Longrightarrow> h \<noteq> 0 \<Longrightarrow>
     life_step H wake finish fixed_core (s, B, w, hs, h) LCaller (s\<lparr>ctl := Undefined InvalidHandle\<rparr>, B, w, hs, h)"
| life_pop: "ctl s = AddPop st \<Longrightarrow> thread_dtor H (last hs) w = Some w' \<Longrightarrow>
     life_step H wake finish fixed_core (s, B, w, hs, h) LCaller
       (s\<lparr>workers := butlast (workers s), ctl := Host, ret := Some (POOL_ERROR, st), quiet := False\<rparr>,
        B, w', butlast hs, h)"
| life_join: "ctl s = DtorJoin i \<Longrightarrow> i < length (workers s) \<Longrightarrow> thread_dtor H (hs ! i) w = Some w' \<Longrightarrow>
     life_step H wake finish fixed_core (s, B, w, hs, h) LCaller (s\<lparr>ctl := DtorJoin (i + 1)\<rparr>, B, w', hs, h)"
| life_gone: "ctl s = DtorJoin i \<Longrightarrow> length (workers s) \<le> i \<Longrightarrow>
     life_step H wake finish fixed_core (s, B, w, hs, h) LCaller (s\<lparr>ctl := Gone\<rparr>, B, barrier_dtor H B w, hs, h)"
| life_exit: "leaves s i \<Longrightarrow> running_step H wake (s, B, w) (LWorker i) (t, B', w') \<Longrightarrow>
     life_step H wake finish fixed_core (s, B, w, hs, h) (LWorker i) (t, B', finish (hs ! i) w', hs, h)"

subsection \<open>The invariant\<close>

definition has_joined :: "pool \<Rightarrow> nat \<Rightarrow> bool" where
  "has_joined s i \<longleftrightarrow> (case ctl s of DtorJoin j \<Rightarrow> i < j | Gone \<Rightarrow> True | _ \<Rightarrow> False)"

definition handles_ok :: "(nat \<Rightarrow> thread_state) \<Rightarrow> (nat \<Rightarrow> thread_state) \<Rightarrow> pool \<Rightarrow> nat list \<Rightarrow> bool" where
  "handles_ok t0 t s hs \<longleftrightarrow>
     length hs = num s \<and> distinct hs \<and> 0 \<notin> set hs \<and> (\<forall>x \<in> set hs. t0 x = NoThread) \<and>
     (\<forall>x. x \<notin> set hs \<longrightarrow> t x = t0 x) \<and>
     (\<forall>i < num s. (has_joined s i \<longrightarrow> wpc (workers s ! i) = WExited) \<and>
        t (hs ! i) = (if has_joined s i then NoThread else if wpc (workers s ! i) = WExited then Ended else Running))"

definition life_inv :: "('w \<Rightarrow> sync) \<Rightarrow> ('w \<Rightarrow> nat \<Rightarrow> thread_state) \<Rightarrow> 'w \<Rightarrow> 'w life \<Rightarrow> bool" where
  "life_inv view tstate w0 c =
     (case c of (s, B, w, hs, h) \<Rightarrow>
        apart (view w0) B \<and> keeps (view w0) (view w) \<and> handles_ok (tstate w0) (tstate w) s hs \<and>
        (if ctl s = Gone then \<forall>i < num s. has_joined s i
         else ctl s = Undefined InvalidHandle \<or> running_inv view (s, B, w)))"

text \<open>Every step of the code keeps the objects and the threads of others.\<close>

lemma apart_fields [simp]:
  "apart v (B\<lparr>obj_on_barrier := n\<rparr>) = apart v B" "apart v (B\<lparr>obj_no_threads := m\<rparr>) = apart v B"
  "apart v (B\<lparr>obj_active_idx := a\<rparr>) = apart v B"
  by (simp_all add: apart_def)

lemma sem_at_of: "sem_at B k = fst (semaphores B) \<or> sem_at B k = snd (semaphores B)"
  by (simp add: sem_at_def)

context thread_contract begin

lemma wait_code_keeps:
  assumes ok: "objs_ok (view w) B" and own: "crit (Some pc) \<Longrightarrow> m_owner (view w) (calling_mutex B) = Some (Worker i)"
    and st: "wait_code H i pc B w = Some (pc', B', w')" and k: "apart v0 B" "keeps v0 (view w)"
  shows "apart v0 B'" and "keeps v0 (view w')" and "tstate w' = tstate w"
proof -
  have live: "m_live (view w) (calling_mutex B)" using ok by (auto simp: objs_ok_def)
  have "apart v0 B' \<and> keeps v0 (view w') \<and> tstate w' = tstate w"
  proof (cases pc)
    case WtLock
    then show ?thesis
      using st k live lock_takes [OF live, of "Worker i"] lock_blocks [OF live, of "Worker i"] lock_threads apart_sets(1)
      by (cases "m_owner (view w) (calling_mutex B)") auto
  next
    case (WtSignal k')
    have "\<exists>w'. condition_signal H (calling_cond B) w = (0, w') \<and> view w' = set_asleep (calling_cond B) Caller False (view w)"
      by (rule signal_wakes) (use ok in \<open>auto simp: objs_ok_def\<close>)
    then show ?thesis using WtSignal st k signal_threads [of "calling_cond B" w] apart_sets(2) by auto
  next
    case (WtUnlock k')
    have "\<exists>w'. mutex_unlock H (Worker i) (calling_mutex B) w = (0, w') \<and> view w' = set_owner (calling_mutex B) None (view w)"
      by (rule unlock_frees) (use WtUnlock own live in auto)
    then show ?thesis
      using WtUnlock st k unlock_threads [of "Worker i" "calling_mutex B" w] apart_sets(1) by auto
  next
    case (WtSemWait k')
    then show ?thesis
      using sem_wait_cases [OF sem_at_live [OF ok, of k']] st k sem_wait_threads apart_sets(3) [OF _ _ sem_at_of] by auto
  qed (use st k in \<open>auto simp: Let_def split: if_splits\<close>)
  then show "apart v0 B'" and "keeps v0 (view w')" and "tstate w' = tstate w" by simp_all
qed

lemma call_code_keeps:
  assumes ok: "objs_ok (view w) B" and own: "call_crit (Some pc) \<Longrightarrow> m_owner (view w) (calling_mutex B) = Some Caller"
    and st: "call_code H pc B w = Some (pc', B', w')" and k: "apart v0 B" "keeps v0 (view w)"
  shows "apart v0 B'" and "keeps v0 (view w')" and "tstate w' = tstate w"
proof -
  have live: "m_live (view w) (calling_mutex B)" "c_live (view w) (calling_cond B)" using ok by (auto simp: objs_ok_def)
  have "apart v0 B' \<and> keeps v0 (view w') \<and> tstate w' = tstate w"
  proof (cases pc)
    case (CLock c)
    then show ?thesis
      using st k lock_takes [OF live(1), of Caller] lock_blocks [OF live(1), of Caller] lock_threads apart_sets(1)
      by (cases "m_owner (view w) (calling_mutex B)") auto
  next
    case CCondWait
    have "view (condition_sleep H Caller (calling_cond B) (calling_mutex B) w)
        = set_asleep (calling_cond B) Caller True (set_owner (calling_mutex B) None (view w))"
      by (rule sleeps) (use CCondWait own live in auto)
    then show ?thesis using CCondWait st k sleep_threads apart_sets(1,2) by auto
  next
    case CWake
    show ?thesis
      using CWake st k resume_blocks [OF live, of Caller] resumes [OF live, of Caller] resume_threads apart_sets(1)
      by (cases "c_asleep (view w) (calling_cond B) Caller \<or> m_owner (view w) (calling_mutex B) \<noteq> None") auto
  next
    case (CFor r k' i)
    then show ?thesis
      using sem_signal_adds [OF sem_at_live [OF ok, of k']] st k sem_signal_threads [of "sem_at B k'" w]
        apart_sets(3) [OF _ _ sem_at_of] by (auto split: if_splits)
  next
    case CUnlock
    have "\<exists>w'. mutex_unlock H Caller (calling_mutex B) w = (0, w') \<and> view w' = set_owner (calling_mutex B) None (view w)"
      by (rule unlock_frees) (use CUnlock own live in auto)
    then show ?thesis using CUnlock st k unlock_threads [of Caller "calling_mutex B" w] apart_sets(1) by auto
  qed (use st k in \<open>auto split: if_splits\<close>)
  then show "apart v0 B'" and "keeps v0 (view w')" and "tstate w' = tstate w" by simp_all
qed

lemma running_keeps:
  assumes "running_step H wake (s, B, w) l (t, B', w')" and inv: "running_inv view (s, B, w)"
    and k: "apart v0 B" "keeps v0 (view w)"
  shows "apart v0 B' \<and> keeps v0 (view w') \<and> tstate w' = tstate w"
  using assms(1)
proof cases
  case (worker_in i p p')
  have "crit (Some p) \<Longrightarrow> m_owner (view w) (calling_mutex B) = Some (Worker i)" "objs_ok (view w) B"
    using worker_point [of "seen view (s, B, w)" i p] inv worker_in by (auto simp: running_inv_def)
  then show ?thesis using wait_code_keeps [OF _ _ _ k] worker_in by blast
next
  case (caller_in pc k' pc')
  have "call_crit (Some pc) \<Longrightarrow> m_owner (view w) (calling_mutex B) = Some Caller" "objs_ok (view w) B"
    using caller_point [of "seen view (s, B, w)" pc k'] inv caller_in by (auto simp: running_inv_def)
  then show ?thesis using call_code_keeps [OF _ _ _ k] caller_in by blast
next
  case step_outside
  then show ?thesis using k by simp
next
  case step_wake
  have "c_live (view w) (calling_cond B)" using inv by (auto simp: running_inv_def objs_ok_def)
  then show ?thesis using step_wake k wake_wakes wake_threads apart_sets(2) by auto
qed

end

text \<open>What the other steps leave alone.\<close>

lemma worker_exits_iff:
  assumes "worker_step i go w b = Some (w', b')"
  shows "wpc w' = WExited \<longleftrightarrow> (wpc w = WWait WtRet \<and> \<not> go \<or> wpc w = WCheckThread \<and> \<not> thread_running w)"
  using assms by (auto simp: worker_step_def split: worker_pc.splits if_splits option.splits)

definition same_shape :: "pool \<Rightarrow> pool \<Rightarrow> bool" where
  "same_shape s t \<longleftrightarrow> num t = num s \<and> (\<forall>i < num s. wpc (workers t ! i) = WExited \<longleftrightarrow> wpc (workers s ! i) = WExited)
     \<and> has_joined t = has_joined s"

lemma last_update_nth:
  "i < num s \<Longrightarrow> wpc ((workers s)[num s - Suc 0 := (last_worker s)\<lparr>thread_running := b\<rparr>] ! i) = wpc (workers s ! i)"
  by (cases "i = length (workers s) - 1") (auto simp: last_worker_def)

lemma caller_same_shape:
  assumes "caller_step s = Some t" and "\<not> thread_event s LCaller"
  shows "same_shape s t" and "ctl t \<noteq> Gone" and "ctl t \<noteq> Undefined InvalidHandle"
proof -
  have "same_shape s t \<and> ctl t \<noteq> Gone \<and> ctl t \<noteq> Undefined InvalidHandle"
  proof (cases "ctl s")
    case (InBar pc k)
    then show ?thesis using assms
      by (cases "pc = CRet"; cases k)
        (auto simp: caller_step_def same_shape_def has_joined_def fun_eq_iff split: option.splits)
  qed (use assms in \<open>auto simp: caller_step_def same_shape_def has_joined_def fun_eq_iff last_update_nth split: if_splits\<close>)
  then show "same_shape s t" and "ctl t \<noteq> Gone" and "ctl t \<noteq> Undefined InvalidHandle" by simp_all
qed

lemma worker_same_shape:
  assumes "i < num s" and "wpc w = WExited \<longleftrightarrow> wpc (workers s ! i) = WExited"
  shows "same_shape s (s\<lparr>bar := b, workers := (workers s)[i := w]\<rparr>)" "same_shape s (s\<lparr>workers := (workers s)[i := w]\<rparr>)"
  using assms by (auto simp: same_shape_def has_joined_def nth_list_update)

lemma running_same_shape:
  assumes "running_step H wake (s, B, w) l (t, B', w')" and "\<not> thread_event s l" and "ctl s \<noteq> Gone"
  shows "same_shape s t \<and> ctl t \<noteq> Gone \<and> ctl t \<noteq> Undefined InvalidHandle"
  using assms(1)
proof cases
  case (worker_in i p p')
  then have "same_shape s t" using worker_same_shape(2) [of i s] by simp
  moreover have "ctl s \<noteq> Undefined InvalidHandle" using worker_in by (auto simp: aborted_def)
  ultimately show ?thesis using worker_in assms(3) by simp
next
  case (caller_in pc k pc')
  then show ?thesis by (simp add: same_shape_def has_joined_def fun_eq_iff)
next
  case step_outside
  from step_outside(4) show ?thesis
  proof cases
    case step_caller
    then show ?thesis using caller_same_shape assms(2) by blast
  next
    case (step_worker i w2 b)
    have "wpc (workers s ! i) \<noteq> WExited" using step_worker by (auto simp: worker_step_def)
    moreover have "wpc w2 \<noteq> WExited"
      using worker_exits_iff [OF step_worker(5)] assms(2) step_worker(1) by (auto simp: leaves_def)
    ultimately have "same_shape s t" using worker_same_shape(1) [of i s] step_worker by simp
    moreover have "ctl s \<noteq> Undefined InvalidHandle" using step_worker by (auto simp: aborted_def)
    ultimately show ?thesis using step_worker assms(3) by simp
  next
    case (step_call c)
    then show ?thesis by (cases c) (auto simp: host_call_def same_shape_def has_joined_def fun_eq_iff split: option.splits)
  qed (use step_outside in simp)
next
  case step_wake
  then show ?thesis using assms(3) by (auto simp: same_shape_def aborted_def)
qed

text \<open>No thread moves any more when the pool is gone, or after undefined behaviour.\<close>

lemma running_dead:
  assumes "running_step H wake (s, B, w) l c"
    and "ctl s = Undefined u \<or> ctl s = Gone \<and> (\<forall>i < num s. wpc (workers s ! i) = WExited) \<and> l \<noteq> LSpurious"
  shows False
  using assms(1)
proof cases
  case (worker_in i p p')
  then show ?thesis using assms(2) by (auto simp: aborted_def)
next
  case step_outside
  from step_outside(3) show ?thesis
    by cases (use assms(2) step_outside in \<open>auto simp: caller_step_def worker_step_def aborted_def\<close>)
qed (use assms(2) in \<open>auto simp: aborted_def\<close>)

lemma handles_ok_shape: "handles_ok t0 t s hs \<Longrightarrow> same_shape s s' \<Longrightarrow> handles_ok t0 t s' hs"
  by (auto simp: handles_ok_def same_shape_def)

lemma handles_okD:
  assumes "handles_ok t0 t s hs"
  shows "length hs = num s" and "distinct hs" and "0 \<notin> set hs" and "x \<in> set hs \<Longrightarrow> t0 x = NoThread"
    and "x \<notin> set hs \<Longrightarrow> t x = t0 x"
    and "i < num s \<Longrightarrow> has_joined s i \<Longrightarrow> wpc (workers s ! i) = WExited"
    and "i < num s \<Longrightarrow> t (hs ! i) = (if has_joined s i then NoThread else if wpc (workers s ! i) = WExited then Ended else Running)"
    and "i < num s \<Longrightarrow> j < num s \<Longrightarrow> hs ! i = hs ! j \<longleftrightarrow> i = j"
    and "i < num s \<Longrightarrow> hs ! i \<noteq> 0"
  using assms by (auto simp: handles_ok_def nth_eq_iff_index_eq) (metis neq0_conv nth_mem)

subsection \<open>The steps that make and join threads\<close>

lemma seen_change:
  "seen view (s\<lparr>ctl := c\<rparr>, B, w) = (seen view (s, B, w))\<lparr>ctl := c\<rparr>"
  "seen view (s\<lparr>workers := ws, ctl := c, ret := r, quiet := q\<rparr>, B, w)
     = (seen view (s, B, w))\<lparr>workers := ws, ctl := c, ret := r, quiet := q\<rparr>"
  by (simp_all add: seen_def)

lemma seen_exec: "seen view (add_exec a c s, B, w) = add_exec a c (seen view (s, B, w))"
  by (simp add: seen_def add_exec_def Let_def)

lemma run_answered [simp]: "run_worker (answered res a) = (if arg_priority a < 0 \<or> arg_priority a > 100 then EINVAL else res)"
  by (simp add: run_worker_def answered_def)

context thread_contract begin

lemma thread_run_cases:
  assumes "thread_run H fixed_core aff prio cpu this w = (res, h, w')"
  shows "view w' = view w" and "res \<noteq> 0 \<Longrightarrow> tstate w' = tstate w"
    and "res = 0 \<Longrightarrow> h \<noteq> 0 \<and> tstate w h = NoThread \<and> tstate w' = (tstate w)(h := Running)"
    and "prio < 0 \<or> prio > 100 \<Longrightarrow> res = EINVAL"
proof -
  obtain r attr where wa: "worker_attr fixed_core aff prio cpu = (r, attr)" by fastforce
  have "view w' = view w \<and> (res \<noteq> 0 \<longrightarrow> tstate w' = tstate w) \<and>
      (res = 0 \<longrightarrow> h \<noteq> 0 \<and> tstate w h = NoThread \<and> tstate w' = (tstate w)(h := Running))"
  proof (cases "prio < 0 \<or> prio > 100 \<or> r \<noteq> 0")
    case True
    then show ?thesis using assms wa by (auto simp: thread_run_def EINVAL_def split: if_splits)
  next
    case False
    then have c: "thread_create H attr this w = (res, h, w')" using assms wa by (simp add: thread_run_def)
    show ?thesis using thread_refused [OF c] thread_starts [of attr this w h w'] c by blast
  qed
  then show "view w' = view w" and "res \<noteq> 0 \<Longrightarrow> tstate w' = tstate w"
    and "res = 0 \<Longrightarrow> h \<noteq> 0 \<and> tstate w h = NoThread \<and> tstate w' = (tstate w)(h := Running)" by simp_all
  show "prio < 0 \<or> prio > 100 \<Longrightarrow> res = EINVAL" using assms by (auto simp: thread_run_def)
qed

text \<open>A join that returns has removed the thread, which had ended.\<close>

lemma dtor_joins:
  assumes "thread_dtor H h w = Some w'" and "h \<noteq> 0" and "tstate w h \<noteq> NoThread"
  shows "tstate w h = Ended" and "tstate w' = (tstate w)(h := NoThread)" and "view w' = view w"
proof -
  show e: "tstate w h = Ended"
    using assms join_waits [of w h] by (cases "tstate w h") (auto simp: thread_dtor_def)
  show "tstate w' = (tstate w)(h := NoThread)" and "view w' = view w"
    using assms(1,2) join_removes [OF e] by (auto simp: thread_dtor_def)
qed

lemma joins_possible: "h \<noteq> 0 \<Longrightarrow> tstate w h = Ended \<Longrightarrow> \<exists>w'. thread_dtor H h w = Some w'"
  using join_removes [of w h] by (auto simp: thread_dtor_def)

text \<open>A thread that is joined goes from the table, and so does the worker.\<close>

lemma handles_butlast:
  assumes ok: "handles_ok t0 t s hs" and n: "num s > 0"
    and s': "workers s' = butlast (workers s)" "has_joined s' = has_joined s"
  shows "handles_ok t0 (t(last hs := NoThread)) s' (butlast hs)"
proof -
  note h = handles_okD [OF ok]
  obtain ks k where hs: "hs = ks @ [k]" using n h(1) by (cases hs rule: rev_cases) auto
  have len: "length ks = num s - 1" using h(1) hs by simp
  have b: "butlast (workers s) ! i = workers s ! i" "ks ! i = hs ! i" "ks ! i \<noteq> k" if "i < num s - 1" for i
  proof -
    show "butlast (workers s) ! i = workers s ! i" using that by (simp add: nth_butlast)
    show "ks ! i = hs ! i" using that len hs by (simp add: nth_append)
    show "ks ! i \<noteq> k" using that len h(2) hs by (metis distinct.simps(2) distinct_append disjoint_insert(1) list.simps(15) nth_mem)
  qed
  have "(t(k := NoThread)) x = t0 x" if "x \<notin> set ks" for x
    using that h(4) [of k] h(5) [of x] hs by auto
  then show ?thesis
    unfolding handles_ok_def s' using h hs b len by auto
qed

end

subsection \<open>The invariant holds\<close>

context thread_contract begin

lemma life_inv_start:
  assumes "barrier_ctor H w0 = (Inr B, w)" and "unread_results H w0 = (0, 0)"
  shows "life_inv view tstate w0 (new_pool cs, B, w, [], 0)"
proof -
  note f = barrier_ctor_fresh_objects [OF assms]
  have "running_inv view (new_pool cs, B, w)"
    using fresh_barrier_ok [OF f] seen_new [of view w B cs] pool_inv_new by (simp add: running_inv_def)
  then show ?thesis
    using fresh_apart [OF f] barrier_ctor_keeps [OF assms(1)] barrier_ctor_threads [OF assms(1)]
    by (simp add: life_inv_def handles_ok_def new_pool_def)
qed

lemma caller_seen_inv:
  assumes "running_inv view (s, B, w)" and "caller_step (seen view (s, B, w)) = Some (seen view (t, B, w'))" and "view w' = view w"
  shows "running_inv view (t, B, w')"
  using assms caller_pool_inv by (auto simp: running_inv_def)

lemma life_exec_inv:
  assumes inv: "life_inv view tstate w0 (s, B, w, hs, h)" and c: "ctl s = AddExec a c"
    and r: "thread_run H fixed_core (os_affinity a) (arg_priority a) (cpu_id_of (cores s ! c)) this w = (res, h', w')"
  shows "life_inv view tstate w0 (add_exec (answered res a) c s, B, w', (if errno_to_worker_status res = WPS_OK then hs @ [h'] else hs), h')"
proof -
  note t = thread_run_cases [OF r]
  have ok: "run_worker (answered res a) = res" using t(4) by auto
  have h: "handles_ok (tstate w0) (tstate w) s hs" and o: "apart (view w0) B" "keeps (view w0) (view w)"
    and ri: "running_inv view (s, B, w)"
    using inv c by (auto simp: life_inv_def)
  note H = handles_okD [OF h]
  have nj: "\<not> has_joined s i" for i using c by (simp add: has_joined_def)
  have "pool_inv (seen view (add_exec (answered res a) c s, B, w'))"
    using ri add_exec_pool_inv [of "seen view (s, B, w)" a c "answered res a"] c t(1)
    by (simp add: running_inv_def seen_exec [symmetric]) (simp add: seen_def)
  then have ri': "running_inv view (add_exec (answered res a) c s, B, w')"
    using ri t(1) by (simp add: running_inv_def)
  have ctl: "ctl (add_exec (answered res a) c s) \<noteq> Gone" by (simp add: add_exec_def Let_def)
  have "handles_ok (tstate w0) (tstate w') (add_exec (answered res a) c s) (if res = 0 then hs @ [h'] else hs)"
  proof (cases "res = 0")
    case True
    have new: "h' \<noteq> 0" "tstate w h' = NoThread" "tstate w' = (tstate w)(h' := Running)" using t(3) True by auto
    have fresh: "h' \<notin> set hs"
    proof
      assume "h' \<in> set hs"
      then obtain i where "i < num s" "hs ! i = h'" using H(1) by (auto simp: in_set_conv_nth)
      then show False using H(7) [of i] nj new(2) by (auto split: if_splits)
    qed
    then have "tstate w0 h' = NoThread" using H(5) new(2) by simp
    then show ?thesis
      using h True ok new fresh nj H(1)
      by (auto simp: handles_ok_def add_exec_def has_joined_def new_worker_def nth_append less_Suc_eq)
  next
    case False
    then show ?thesis using h t(2) ok nj c
      by (auto simp: handles_ok_def add_exec_def has_joined_def)
  qed
  then show ?thesis using o ri' ctl t(1) by (simp add: life_inv_def)
qed

lemma unjoined_handle:
  assumes "handles_ok t0 t s hs" and "i < num s" and "\<not> has_joined s i"
  shows "hs ! i \<noteq> 0" and "t (hs ! i) \<noteq> NoThread" and "t (hs ! i) = Ended \<longleftrightarrow> wpc (workers s ! i) = WExited"
  using handles_okD(7) [OF assms(1,2)] handles_okD(9) [OF assms(1,2)] assms(3) by auto

lemma last_handle:
  assumes "life_inv view tstate w0 (s, B, w, hs, h)" and "ctl s = AddPop st"
  shows "num s > 0" and "last hs = hs ! (num s - 1)" and "\<not> has_joined s (num s - 1)" and "running_inv view (s, B, w)"
proof -
  show ri: "running_inv view (s, B, w)" using assms by (simp add: life_inv_def)
  show "num s > 0"
    using pool_invD(2) [of "seen view (s, B, w)"] ri assms(2) by (simp add: running_inv_def size_inv_def)
  moreover have "length hs = num s" using assms(1) handles_okD(1) by (auto simp: life_inv_def)
  ultimately show "last hs = hs ! (num s - 1)" by (subst last_conv_nth) auto
  show "\<not> has_joined s (num s - 1)" using assms(2) by (simp add: has_joined_def)
qed

lemma life_pop_inv:
  assumes inv: "life_inv view tstate w0 (s, B, w, hs, h)" and c: "ctl s = AddPop st"
    and d: "thread_dtor H (last hs) w = Some w'"
  shows "life_inv view tstate w0 (s\<lparr>workers := butlast (workers s), ctl := Host, ret := Some (POOL_ERROR, st), quiet := False\<rparr>,
    B, w', butlast hs, h)" (is "life_inv _ _ _ (?t, _)")
proof -
  have h: "handles_ok (tstate w0) (tstate w) s hs" and o: "apart (view w0) B" "keeps (view w0) (view w)"
    using inv by (auto simp: life_inv_def)
  note n = last_handle [OF inv c]
  have i: "num s - 1 < num s" using n(1) by simp
  note u = unjoined_handle [OF h i n(3), folded n(2)]
  note j = dtor_joins [OF d u(1,2)]
  have ex: "wpc (last_worker s) = WExited" using u(3) j(1) by (simp add: last_worker_def)
  have "running_inv view (?t, B, w')"
    by (rule caller_seen_inv [OF n(4) _ j(3)]) (use c ex j(3) in \<open>simp add: caller_step_def seen_change last_worker_def, simp add: seen_def\<close>)
  moreover have "handles_ok (tstate w0) (tstate w') ?t (butlast hs)"
    unfolding j(2) by (rule handles_butlast [OF h n(1)]) (use c in \<open>simp_all add: has_joined_def fun_eq_iff\<close>)
  ultimately show ?thesis using o j(3) by (simp add: life_inv_def)
qed

lemma life_join_inv:
  assumes inv: "life_inv view tstate w0 (s, B, w, hs, h)" and c: "ctl s = DtorJoin i" "i < num s"
    and d: "thread_dtor H (hs ! i) w = Some w'"
  shows "life_inv view tstate w0 (s\<lparr>ctl := DtorJoin (i + 1)\<rparr>, B, w', hs, h)"
proof -
  have h: "handles_ok (tstate w0) (tstate w) s hs" and o: "apart (view w0) B" "keeps (view w0) (view w)"
    and ri: "running_inv view (s, B, w)"
    using inv c by (auto simp: life_inv_def)
  note H = handles_okD [OF h]
  have "\<not> has_joined s i" using c by (simp add: has_joined_def)
  note u = unjoined_handle [OF h c(2) this]
  note j = dtor_joins [OF d u(1,2)]
  have ex: "wpc (workers s ! i) = WExited" using u(3) j(1) by simp
  have "running_inv view (s\<lparr>ctl := DtorJoin (i + 1)\<rparr>, B, w')"
    by (rule caller_seen_inv [OF ri _ j(3)]) (use c ex j(3) in \<open>simp add: caller_step_def, simp add: seen_def\<close>)
  moreover have "handles_ok (tstate w0) (tstate w') (s\<lparr>ctl := DtorJoin (i + 1)\<rparr>) hs"
    unfolding handles_ok_def
  proof (intro conjI allI impI)
    fix x assume x: "x \<notin> set hs"
    then have "x \<noteq> hs ! i" using c(2) H(1) by (metis nth_mem)
    then show "tstate w' x = tstate w0 x" using j(2) H(5) [OF x] by simp
  next
    fix k assume k: "k < num (s\<lparr>ctl := DtorJoin (i + 1)\<rparr>)"
    let ?t = "s\<lparr>ctl := DtorJoin (i + 1)\<rparr>"
    have jt: "has_joined ?t k \<longleftrightarrow> has_joined s k \<or> k = i" using c by (auto simp: has_joined_def)
    show "has_joined ?t k \<Longrightarrow> wpc (workers ?t ! k) = WExited" using jt H(6) [of k] k ex by auto
    show "tstate w' (hs ! k) = (if has_joined ?t k then NoThread else if wpc (workers ?t ! k) = WExited then Ended else Running)"
      using jt H(7) [of k] H(8) [of k i] k c(2) j(2) by auto
  qed (use H(1-4) in auto)
  ultimately show ?thesis using o j(3) by (simp add: life_inv_def)
qed

end

lemma leaves_step:
  assumes "leaves s i" and "running_step H wake (s, B, w) (LWorker i) (t, B', w')"
  shows "i < num s \<and> B' = B \<and> w' = w \<and> wpc (workers s ! i) \<noteq> WExited \<and> ctl t = ctl s
    \<and> (\<exists>x. workers t = (workers s)[i := x] \<and> wpc x = WExited)"
  using assms(2)
proof cases
  case (worker_in p p')
  then show ?thesis using assms(1) by (auto simp: leaves_def)
next
  case step_outside
  from step_outside(4) show ?thesis
  proof cases
    case (step_worker w2 b)
    then show ?thesis using worker_exits_iff [OF step_worker(4)] assms(1) step_outside(1,2)
      by (auto simp: leaves_def worker_step_def split: worker_pc.splits if_splits)
  qed
qed

context thread_contract begin

lemma life_exit_inv:
  assumes inv: "life_inv view tstate w0 (s, B, w, hs, h)" and lv: "leaves s i"
    and st: "running_step H wake (s, B, w) (LWorker i) (t, B', w')"
  shows "life_inv view tstate w0 (t, B', finish (hs ! i) w', hs, h)"
proof -
  obtain x where f: "i < num s" "B' = B" "w' = w" "wpc (workers s ! i) \<noteq> WExited" "ctl t = ctl s"
      "workers t = (workers s)[i := x]" "wpc x = WExited"
    using leaves_step [OF lv st] by blast
  have h: "handles_ok (tstate w0) (tstate w) s hs" and o: "apart (view w0) B" "keeps (view w0) (view w)"
    using inv by (auto simp: life_inv_def)
  note H = handles_okD [OF h]
  have nd: "\<not> has_joined s i" using H(6) [OF f(1)] f(4) by blast
  then have g: "ctl s \<noteq> Gone" "ctl s \<noteq> Undefined InvalidHandle"
    using running_dead [OF st, of InvalidHandle] by (auto simp: has_joined_def)
  then have "running_inv view (s, B, w)" using inv by (simp add: life_inv_def)
  then have ri: "running_inv view (t, B, w)" using running_inv_step [OF st] f(2,3) by simp
  have r: "tstate w (hs ! i) = Running" using H(7) [OF f(1)] nd f(4) by simp
  note fin = finishes [OF r]
  then have ri': "running_inv view (t, B, finish (hs ! i) w)" using ri by (simp add: running_inv_def seen_def)
  have jt: "has_joined t = has_joined s" using f(5) by (simp add: has_joined_def fun_eq_iff)
  have "handles_ok (tstate w0) (tstate (finish (hs ! i) w)) t hs"
    unfolding handles_ok_def jt
  proof (intro conjI allI impI)
    fix y assume y: "y \<notin> set hs"
    then have "y \<noteq> hs ! i" using f(1) H(1) by (metis nth_mem)
    then show "tstate (finish (hs ! i) w) y = tstate w0 y" using fin H(5) [OF y] by simp
  next
    fix k assume "k < num t"
    then have k: "k < num s" using f(6) by simp
    show "has_joined s k \<Longrightarrow> wpc (workers t ! k) = WExited" using H(6) [OF k] nd f(6) by (cases "k = i") auto
    show "tstate (finish (hs ! i) w) (hs ! k) = (if has_joined s k then NoThread else if wpc (workers t ! k) = WExited then Ended else Running)"
      using H(7) [OF k] H(8) [OF k f(1)] fin f(1,6,7) nd by (cases "k = i") auto
  qed (use H(1-4) f(6) in auto)
  then show ?thesis using o ri' fin g f(2,3,5) by (simp add: life_inv_def)
qed

lemma life_other_inv:
  assumes inv: "life_inv view tstate w0 (s, B, w, hs, h)" and no: "\<not> thread_event s l"
    and st: "running_step H wake (s, B, w) l (t, B', w')"
  shows "life_inv view tstate w0 (t, B', w', hs, h)"
proof -
  have h: "handles_ok (tstate w0) (tstate w) s hs" and o: "apart (view w0) B" "keeps (view w0) (view w)"
    using inv by (auto simp: life_inv_def)
  have "ctl s = Gone \<Longrightarrow> \<forall>i < num s. wpc (workers s ! i) = WExited"
    using inv handles_okD(6) [OF h] by (auto simp: life_inv_def)
  then have g: "ctl s \<noteq> Gone" "ctl s \<noteq> Undefined InvalidHandle" using running_dead [OF st, of InvalidHandle] no by (cases l; auto)+
  then have ri: "running_inv view (s, B, w)" using inv by (simp add: life_inv_def)
  note k = running_keeps [OF st ri o] and f = running_same_shape [OF st no g(1)]
  have "running_inv view (t, B', w')" using running_inv_step [OF st ri] .
  then show ?thesis using k f handles_ok_shape [OF h, of t] by (simp add: life_inv_def)
qed

lemma life_inv_step:
  assumes "life_step H wake finish fixed_core c l c'" and inv: "life_inv view tstate w0 c"
  shows "life_inv view tstate w0 c'"
  using assms(1)
proof cases
  case (life_other s B w t B' w' hs h)
  then show ?thesis using inv life_other_inv by blast
next
  case (life_run s a c w res h' w' B hs h)
  then show ?thesis using inv life_exec_inv by blast
next
  case (life_drop s st h B w hs)
  then have h: "handles_ok (tstate w0) (tstate w) s hs" and o: "apart (view w0) B" "keeps (view w0) (view w)"
    and ri: "running_inv view (s, B, w)"
    using inv by (auto simp: life_inv_def)
  have "running_inv view (resume (KAddRunFailed st) s, B, w)"
    by (rule caller_seen_inv [OF ri]) (use life_drop(4) in \<open>simp add: caller_step_def, simp add: seen_def\<close>, simp)
  moreover have "same_shape s (resume (KAddRunFailed st) s)" using life_drop by (simp add: same_shape_def has_joined_def fun_eq_iff)
  ultimately show ?thesis using life_drop o handles_ok_shape [OF h] by (simp add: life_inv_def)
next
  case (life_garbage s st h B w hs)
  then have h: "handles_ok (tstate w0) (tstate w) s hs" and o: "apart (view w0) B" "keeps (view w0) (view w)"
    using inv by (auto simp: life_inv_def)
  have "same_shape s (s\<lparr>ctl := Undefined InvalidHandle\<rparr>)" using life_garbage by (simp add: same_shape_def has_joined_def fun_eq_iff)
  then show ?thesis using life_garbage o handles_ok_shape [OF h] by (simp add: life_inv_def)
next
  case (life_pop s st hs w w' B h)
  then show ?thesis using inv life_pop_inv by blast
next
  case (life_join s i hs w w' B h)
  then show ?thesis using inv life_join_inv by blast
next
  case (life_gone s i B w hs h)
  then have h: "handles_ok (tstate w0) (tstate w) s hs" and o: "apart (view w0) B" "keeps (view w0) (view w)"
    and "objs_ok (view w) B"
    using inv by (auto simp: life_inv_def running_inv_def)
  then have own: "owns_objects (view w) B" by (simp add: objs_ok_def owns_objects_def)
  have "\<forall>k < num s. has_joined s k" using life_gone by (simp add: has_joined_def)
  then have "handles_ok (tstate w0) (tstate w) (s\<lparr>ctl := Gone\<rparr>) hs"
    using h by (auto simp: handles_ok_def has_joined_def)
  then show ?thesis
    using life_gone(3) barrier_dtor_keeps [OF own o] barrier_dtor_threads [of B w] o(1) by (simp add: life_inv_def has_joined_def)
next
  case (life_exit s i B w t B' w' hs h)
  then show ?thesis using inv life_exit_inv by blast
qed

end

end
