(* ===== verification/Lifetime_Progress.thy ===== *)
theory Lifetime_Progress
  imports Pool_Lifetime
begin

text \<open>
  Every method of a pool on a thread helper returns: the budget of \<open>Pool_Liveness\<close> decreases also
  in the steps that create, end and join threads, and a join never waits for a thread that
  cannot end. The destructor does not abort.
\<close>

subsection \<open>Progress and termination\<close>

fun life_pool :: "('w \<Rightarrow> sync) \<Rightarrow> 'w life \<Rightarrow> pool" where
  "life_pool view (s, B, w, hs, h) = seen view (s, B, w)"

lemma budget_add_exec:
  assumes "ctl s = AddExec a' c'"
  shows "budget (add_exec a c s) < budget s"
proof -
  have "budget (add_exec a c (s\<lparr>ctl := AddExec a c\<rparr>)) < budget (s\<lparr>ctl := AddExec a c\<rparr>)" by (rule add_exec_budget) simp
  moreover have "add_exec a c (s\<lparr>ctl := AddExec a c\<rparr>) = add_exec a c s" by (simp add: add_exec_def Let_def)
  ultimately show ?thesis using assms by (simp add: budget_def)
qed

lemma wsum_exited: "\<forall>i < length ws. wpc (ws ! i) = WExited \<Longrightarrow> wsum a ws = 0"
  by (auto simp: wsum_def in_set_conv_nth)

context thread_contract begin

lemma running_budget:
  assumes "running_step H wake c l c'" and "running_inv view c"
  shows "work_label l \<Longrightarrow> budget (seen view c') < budget (seen view c)"
    and "budget (seen view c') \<le> budget (seen view c) + 4 \<or> is_call l"
proof -
  have p: "pool_inv (seen view c)" using assms(2) by (simp add: running_inv_def)
  have f: "case visible view c l of None \<Rightarrow> seen view c' = seen view c | Some m \<Rightarrow> pool_step (seen view c) m (seen view c')"
    using running_forward [OF assms] by blast
  show b: "budget (seen view c') < budget (seen view c)" if "work_label l"
    using f that work_budget [OF p, of l] by (cases l) (auto simp: visible_def)
  show "budget (seen view c') \<le> budget (seen view c) + 4 \<or> is_call l"
    using f b spurious_budget [of "seen view c" "seen view c'"] by (cases l) (auto simp: visible_def split: if_splits)
qed

lemma life_running:
  assumes "life_inv view tstate w0 (s, B, w, hs, h)" and "ctl s \<noteq> Gone" and "ctl s \<noteq> Undefined InvalidHandle"
  shows "running_inv view (s, B, w)"
  using assms by (simp add: life_inv_def)

lemma life_not_dead:
  assumes inv: "life_inv view tstate w0 (s, B, w, hs, h)" and st: "running_step H wake (s, B, w) l c"
    and l: "ctl s = Gone \<Longrightarrow> l \<noteq> LSpurious"
  shows "running_inv view (s, B, w)"
proof -
  have h: "handles_ok (tstate w0) (tstate w) s hs" using inv by (simp add: life_inv_def)
  have "ctl s = Gone \<Longrightarrow> \<forall>i < num s. wpc (workers s ! i) = WExited"
    using inv handles_okD(6) [OF h] by (auto simp: life_inv_def)
  then have "ctl s \<noteq> Gone" "ctl s \<noteq> Undefined InvalidHandle" using running_dead [OF st, of InvalidHandle] l by auto
  then show ?thesis by (rule life_running [OF inv])
qed

lemma life_budget:
  assumes st: "life_step H wake finish fixed_core c l c'" and inv: "life_inv view tstate w0 c"
  shows "work_label l \<Longrightarrow> budget (life_pool view c') < budget (life_pool view c)"
    and "budget (life_pool view c') \<le> budget (life_pool view c) + 4 \<or> is_call l"
proof -
  have "(work_label l \<longrightarrow> budget (life_pool view c') < budget (life_pool view c))
      \<and> (budget (life_pool view c') \<le> budget (life_pool view c) + 4 \<or> is_call l)"
    using st
  proof cases
    case (life_other s B w t B' w' hs h)
    have "ctl s = Gone \<Longrightarrow> l \<noteq> LSpurious" using life_other(3) by auto
    then have "running_inv view (s, B, w)" using life_not_dead [OF _ life_other(4)] inv life_other(1) by blast
    then show ?thesis using running_budget [OF life_other(4)] life_other(1,2) by simp
  next
    case (life_run s a c w res h' w' B hs h)
    then have "view w' = view w" using thread_run_cases(1) by blast
    then have "seen view (add_exec (answered res a) c s, B, w') = add_exec (answered res a) c (seen view (s, B, w))"
      unfolding seen_exec [symmetric] by (simp add: seen_def)
    then show ?thesis using budget_add_exec [of "seen view (s, B, w)" a c "answered res a" c] life_run by simp
  next
    case (life_drop s st h B w hs)
    then show ?thesis by (simp add: budget_def)
  next
    case (life_garbage s st h B w hs)
    then show ?thesis by (simp add: budget_def)
  next
    case (life_pop s st hs w w' B h)
    then have inv': "life_inv view tstate w0 (s, B, w, hs, h)" using inv by simp
    then have h: "handles_ok (tstate w0) (tstate w) s hs" by (simp add: life_inv_def)
    note n = last_handle [OF inv' life_pop(4)]
    have "num s - 1 < num s" using n(1) by simp
    note u = unjoined_handle [OF h this n(3), folded n(2)]
    have v: "view w' = view w" using dtor_joins(3) [OF life_pop(5) u(1,2)] .
    have w: "wsum (obj_active_idx B) (butlast (workers s)) \<le> wsum (obj_active_idx B) (workers s)"
      by (cases "workers s" rule: rev_cases) (auto simp: wsum_append)
    then show ?thesis using life_pop v by (simp add: budget_def le_imp_less_Suc trans_le_add2)
  next
    case (life_join s i hs w w' B h)
    then have h: "handles_ok (tstate w0) (tstate w) s hs" and "\<not> has_joined s i"
      using inv by (auto simp: life_inv_def has_joined_def)
    note u = unjoined_handle [OF h life_join(5) this(2)]
    have "view w' = view w" using dtor_joins(3) [OF life_join(6) u(1,2)] .
    then show ?thesis using life_join by (auto simp: budget_def)
  next
    case (life_gone s i B w hs h)
    then have "\<forall>i < num s. wpc (workers s ! i) = WExited"
      using inv handles_okD(6) by (auto simp: life_inv_def has_joined_def)
    then show ?thesis using life_gone wsum_exited [of "workers s"] by (simp add: budget_def)
  next
    case (life_exit s i B w t B' w' hs h)
    then have "running_inv view (s, B, w)" using life_not_dead inv by auto
    have "view (finish (hs ! i) w') = view w'"
    proof -
      have f: "i < num s" "w' = w" "wpc (workers s ! i) \<noteq> WExited" using leaves_step [OF life_exit(4,5)] by auto
      have h: "handles_ok (tstate w0) (tstate w) s hs" using inv life_exit(1) by (simp add: life_inv_def)
      have "tstate w (hs ! i) = Running" using handles_okD(6,7) [OF h f(1)] f(3) by (auto split: if_splits)
      then show ?thesis using finishes f(2) by simp
    qed
    then have "seen view (t, B', finish (hs ! i) w') = seen view (t, B', w')" by (simp add: seen_def)
    then show ?thesis using running_budget [OF life_exit(5) \<open>running_inv view (s, B, w)\<close>] life_exit(1-3) by simp
  qed
  then show "work_label l \<Longrightarrow> budget (life_pool view c') < budget (life_pool view c)"
    and "budget (life_pool view c') \<le> budget (life_pool view c) + 4 \<or> is_call l" by simp_all
qed

lemma life_progress:
  assumes inv: "life_inv view tstate w0 (s, B, w, hs, h)" and nr: "\<not> returned s"
  shows "\<exists>l c. work_label l \<and> life_step H wake finish fixed_core (s, B, w, hs, h) l c"
proof -
  have g: "ctl s \<noteq> Gone" "ctl s \<noteq> Undefined InvalidHandle" using nr by (auto simp: returned_def aborted_def)
  have ri: "running_inv view (s, B, w)" by (rule life_running [OF inv g])
  have h: "handles_ok (tstate w0) (tstate w) s hs" using inv by (simp add: life_inv_def)
  have "\<not> returned (seen view (s, B, w))" using nr by (simp add: returned_def)
  then obtain l u where l: "work_label l" and u: "pool_step (seen view (s, B, w)) l u"
    using pool_progress [of "seen view (s, B, w)"] ri unfolding running_inv_def can_work_def by blast
  obtain t B' w' where st: "running_step H wake (s, B, w) l (t, B', w')"
    using running_backward [OF ri u] by auto
  show ?thesis
  proof (cases "thread_event s l")
    case False
    then show ?thesis using life_other [OF _ st] l by blast
  next
    case True
    show ?thesis
    proof (cases l)
      case (LWorker i)
      then show ?thesis using life_exit [of s i H wake B w] st True l by fastforce
    next
      case LCaller
      have cs: "caller_step (seen view (s, B, w)) = Some u" using u LCaller by (auto elim: caller_stepE)
      have lc: ?thesis if "life_step H wake finish fixed_core (s, B, w, hs, h) LCaller c" for c
        using that by (intro exI [of _ LCaller] exI [of _ c]) simp
      show ?thesis
      proof (cases "ctl s")
        case (AddExec a c)
        obtain res h' w' where "thread_run H fixed_core (os_affinity a) (arg_priority a) (cpu_id_of (cores s ! c))
            (length (workers s)) w = (res, h', w')"
          by (rule prod_cases3)
        from life_run [OF AddExec this] show ?thesis by (rule lc)
      next
        case (InBar pc k)
        then obtain st where st: "ctl s = InBar CRet (KAddRunFailed st)" using True LCaller by (cases k) auto
        show ?thesis by (cases "h = 0") (rule lc, erule life_drop [OF st], rule lc, erule life_garbage [OF st])
      next
        case (AddPop st)
        note n = last_handle [OF inv AddPop]
        have i: "num s - 1 < num s" using n(1) by simp
        note un = unjoined_handle [OF h i n(3), folded n(2)]
        have "wpc (last_worker s) = WExited"
          using cs AddPop by (auto simp: caller_step_def last_worker_def split: if_splits)
        then have "tstate w (last hs) = Ended" using un(3) by (simp add: last_worker_def)
        then obtain w' where "thread_dtor H (last hs) w = Some w'" using joins_possible un(1) by blast
        from life_pop [OF AddPop this] show ?thesis by (rule lc)
      next
        case (DtorJoin i)
        show ?thesis
        proof (cases "i < num s")
          case True
          have nj: "\<not> has_joined s i" using DtorJoin by (simp add: has_joined_def)
          note un = unjoined_handle [OF h True nj]
          have "wpc (workers s ! i) = WExited" using cs DtorJoin True by (simp add: caller_step_def split: if_splits)
          then have "tstate w (hs ! i) = Ended" using un(3) by simp
          then obtain w' where "thread_dtor H (hs ! i) w = Some w'" using joins_possible un(1) by blast
          from life_join [OF DtorJoin True this] show ?thesis by (rule lc)
        next
          case False
          then have "num s \<le> i" by simp
          from life_gone [OF DtorJoin this] show ?thesis by (rule lc)
        qed
      qed (use True LCaller in auto)
    qed (use l in auto)
  qed
qed

lemma life_run_budget:
  "run (life_step H wake finish fixed_core) c ls d \<Longrightarrow> life_inv view tstate w0 c \<Longrightarrow> \<forall>l \<in> set ls. \<not> is_call l \<Longrightarrow>
   thread_steps ls + budget (life_pool view d) \<le> budget (life_pool view c) + 4 * spurious_count ls
     \<and> life_inv view tstate w0 d"
proof (induction rule: run.induct)
  case (run_cons c l d ls e)
  have inv: "life_inv view tstate w0 d" by (rule life_inv_step [OF run_cons(1,4)])
  then have ih: "thread_steps ls + budget (life_pool view e) \<le> budget (life_pool view d) + 4 * spurious_count ls
      \<and> life_inv view tstate w0 e" using run_cons by simp
  note b = life_budget [OF run_cons(1,4)]
  show ?case
  proof (cases "l = LSpurious")
    case True
    then show ?thesis using ih b(2) by simp
  next
    case False
    then have "work_label l" using run_cons.prems(2) by (cases l) auto
    then show ?thesis using ih b(1) False by simp
  qed
qed simp

text \<open>In the destructor no thread is created and no handle is dropped.\<close>

lemma life_destroying:
  assumes st: "life_step H wake finish fixed_core c l c'" and inv: "life_inv view tstate w0 c"
    and d: "destroying (ctl (life_pool view c))"
  shows "destroying (ctl (life_pool view c'))"
  using st
proof cases
  case (life_other s B w t B' w' hs h)
  have "ctl s = Gone \<Longrightarrow> l \<noteq> LSpurious" using life_other(3) by auto
  then have "running_inv view (s, B, w)" using life_not_dead [OF _ life_other(4)] inv life_other(1) by blast
  from running_forward [OF life_other(4) this]
  have "seen view (t, B', w') = seen view (s, B, w) \<or> pool_step (seen view (s, B, w)) l (seen view (t, B', w'))"
    by (auto simp: visible_def split: if_splits)
  then show ?thesis using d life_other(1,2) destroying_step [of "seen view (s, B, w)" l "seen view (t, B', w')"]
    by (auto dest: arg_cong [of _ _ ctl])
next
  case (life_exit s i B w t B' w' hs h)
  then show ?thesis using d leaves_step [OF life_exit(4,5)] by simp
qed (use d in auto)

lemma life_destroying_run:
  "run (life_step H wake finish fixed_core) c ls d \<Longrightarrow> life_inv view tstate w0 c \<Longrightarrow> destroying (ctl (life_pool view c)) \<Longrightarrow>
   destroying (ctl (life_pool view d)) \<and> life_inv view tstate w0 d"
  by (induction rule: run.induct) (use life_destroying life_inv_step in blast)+

lemma life_no_abort:
  assumes inv: "life_inv view tstate w0 (s, B, w, hs, h)" and "destroying (ctl s)"
  shows "\<not> aborted s"
proof (cases "ctl s = Gone \<or> ctl s = Undefined InvalidHandle")
  case True
  then show ?thesis using assms(2) by (auto simp: aborted_def)
next
  case False
  then have "pool_inv (seen view (s, B, w))" using life_running [OF inv] by (simp add: running_inv_def)
  from destroying_no_abort [OF this] show ?thesis using assms(2) by simp
qed

end

end
