(* ===== verification/Lifetime_Host.thy ===== *)
theory Lifetime_Host
  imports Lifetime_Progress
begin

text \<open>
  A pool on threads used as documented: its steps are steps of the pool in the model, in which
  the system has given the answers that the thread library gives, so that what holds for the
  documented use there holds here.
\<close>

subsection \<open>Steps on threads are steps of the pool\<close>

definition life_host_step ::
    "'w thread_helper \<Rightarrow> (nat \<Rightarrow> tid \<Rightarrow> 'w \<Rightarrow> 'w) \<Rightarrow> (nat \<Rightarrow> 'w \<Rightarrow> 'w) \<Rightarrow> bool \<Rightarrow> 'w life \<Rightarrow> label \<Rightarrow> 'w life \<Rightarrow> bool" where
  "life_host_step H wake finish fixed_core c l d \<longleftrightarrow> allowed (fst c) l \<and> life_step H wake finish fixed_core c l d"

text \<open>The system's answers for the worker that is about to be started are replaced.\<close>

fun reanswer :: "add_args \<Rightarrow> ctl \<Rightarrow> ctl" where
  "reanswer a (AddExec a' c) = AddExec a c"
| "reanswer a x = x"

definition with_answer :: "add_args \<Rightarrow> pool \<Rightarrow> pool" where
  "with_answer a s = s\<lparr>ctl := reanswer a (ctl s)\<rparr>"

lemma reanswer_same [simp]:
  "bar_point (reanswer a x) = bar_point x" "delta (reanswer a x) = delta x" "wdelta (reanswer a x) = wdelta x"
  "adding (reanswer a x) = adding x" "core_of (reanswer a x) = core_of x" "must_full (reanswer a x) = must_full x"
  "dtor_phase (reanswer a x) = dtor_phase x" "stop_phase (reanswer a x) = stop_phase x" "swapped (reanswer a x) = swapped x"
  "keeps_quiet (reanswer a x) = keeps_quiet x" "chosen (reanswer a x) = chosen x"
  "reanswer a x = InBar pc k \<longleftrightarrow> x = InBar pc k" "reanswer a x = DtorJoin i \<longleftrightarrow> x = DtorJoin i"
  "reanswer a x = Gone \<longleftrightarrow> x = Gone" "reanswer a x = Undefined u \<longleftrightarrow> x = Undefined u"
  by (cases x; simp)+

lemma with_answer_fields [simp]:
  "ctl (with_answer a s) = reanswer a (ctl s)" "workers (with_answer a s) = workers s" "bar (with_answer a s) = bar s"
  "pool_running (with_answer a s) = pool_running s" "no_workers (with_answer a s) = no_workers s"
  "cores (with_answer a s) = cores s" "epoch (with_answer a s) = epoch s" "quiet (with_answer a s) = quiet s"
  "threads (with_answer a s) = threads s" "full (with_answer a s) = full s" "doomed (with_answer a s) = doomed s"
  by (simp_all add: with_answer_def threads_def full_def doomed_def fun_eq_iff)

lemma with_answer_inv:
  "host_inv (with_answer a s) = host_inv s" "core_inv n (with_answer a s) = core_inv n s"
  by (simp_all add: host_inv_def pool_inv_def quiet_inv_def size_inv_def full_inv_def stop_inv_def hist_inv_def
      status_inv_def core_inv_def)

lemma answer_self: "\<exists>a. with_answer a s = s"
proof (cases "ctl s")
  case (AddExec a c)
  then have "with_answer a s = s" by (cases s) (simp add: with_answer_def)
  then show ?thesis ..
qed (auto simp: with_answer_def)

lemma allowed_answer: "allowed (with_answer a s) l = allowed s l"
  by (cases "(s, l)" rule: allowed.cases) auto

context thread_contract begin

lemma joined_exited:
  assumes "handles_ok t0 (tstate w) s hs" and "i < num s" and "\<not> has_joined s i" and "thread_dtor H (hs ! i) w = Some w'"
  shows "wpc (workers s ! i) = WExited" and "view w' = view w"
proof -
  note u = unjoined_handle [OF assms(1-3)]
  note d = dtor_joins [OF assms(4) u(1,2)]
  show "wpc (workers s ! i) = WExited" using d(1) u(3) by (auto split: if_splits)
  show "view w' = view w" by (rule d(3))
qed

lemma life_simulates:
  assumes st: "life_step H wake finish fixed_core c l d" and inv: "life_inv view tstate w0 c"
  shows "life_pool view d = life_pool view c \<or> ctl (fst d) = Gone \<and> cores (fst d) = cores (fst c)
    \<or> ctl (fst d) = Undefined InvalidHandle \<and> cores (fst d) = cores (fst c)
    \<or> (\<exists>a. pool_step (with_answer a (life_pool view c)) l (life_pool view d))"
  using st
proof cases
  case (life_other s B w t B' w' hs h)
  have "ctl s = Gone \<Longrightarrow> l \<noteq> LSpurious" using life_other(3) by auto
  then have "running_inv view (s, B, w)" using life_not_dead [OF _ life_other(4)] inv life_other(1) by blast
  then have "seen view (t, B', w') = seen view (s, B, w) \<or> pool_step (seen view (s, B, w)) l (seen view (t, B', w'))"
    using running_forward [OF life_other(4)] by (auto simp: visible_def split: if_splits)
  moreover obtain a where a: "with_answer a (seen view (s, B, w)) = seen view (s, B, w)" using answer_self by blast
  ultimately have "seen view (t, B', w') = seen view (s, B, w)
      \<or> pool_step (with_answer a (seen view (s, B, w))) l (seen view (t, B', w'))"
    unfolding a by blast
  then show ?thesis using life_other(1,2) by auto
next
  case (life_run s a c w res h' w' B hs h)
  have "view w' = view w" using thread_run_cases(1) [OF life_run(5)] .
  then have "seen view (add_exec (answered res a) c s, B, w') = add_exec (answered res a) c (seen view (s, B, w))"
    unfolding seen_exec [symmetric] by (simp add: seen_def)
  moreover have "caller_step (with_answer (answered res a) (seen view (s, B, w))) = Some (add_exec (answered res a) c (seen view (s, B, w)))"
    using life_run(4) by (simp add: caller_step_def add_exec_def Let_def) (simp add: with_answer_def)
  ultimately show ?thesis using life_run(1-3) pool_step.step_caller by auto
next
  case (life_drop s st h B w hs)
  obtain a where a: "with_answer a (seen view (s, B, w)) = seen view (s, B, w)" using answer_self by blast
  have "caller_step (seen view (s, B, w)) = Some (seen view (resume (KAddRunFailed st) s, B, w))"
    using life_drop(4) by (simp add: caller_step_def) (simp add: seen_def)
  then have "pool_step (with_answer a (seen view (s, B, w))) LCaller (seen view (resume (KAddRunFailed st) s, B, w))"
    unfolding a by (rule pool_step.step_caller)
  then show ?thesis using life_drop(1-3) by auto
next
  case (life_pop s st hs w w' B h)
  then have inv': "life_inv view tstate w0 (s, B, w, hs, h)" using inv by simp
  then have h: "handles_ok (tstate w0) (tstate w) s hs" by (simp add: life_inv_def)
  note n = last_handle [OF inv' life_pop(4)]
  have "num s - 1 < num s" using n(1) by simp
  note j = joined_exited [OF h this n(3), folded n(2), OF life_pop(5)]
  obtain a where a: "with_answer a (seen view (s, B, w)) = seen view (s, B, w)" using answer_self by blast
  have "caller_step (seen view (s, B, w)) = Some (seen view (s\<lparr>workers := butlast (workers s), ctl := Host,
      ret := Some (POOL_ERROR, st), quiet := False\<rparr>, B, w'))"
    using life_pop(4) j by (simp add: caller_step_def last_worker_def) (simp add: seen_def)
  then have "pool_step (with_answer a (seen view (s, B, w))) LCaller (seen view (s\<lparr>workers := butlast (workers s), ctl := Host,
      ret := Some (POOL_ERROR, st), quiet := False\<rparr>, B, w'))"
    unfolding a by (rule pool_step.step_caller)
  then show ?thesis using life_pop(1-3) by auto
next
  case (life_join s i hs w w' B h)
  then have h: "handles_ok (tstate w0) (tstate w) s hs" and n: "\<not> has_joined s i"
    using inv by (auto simp: life_inv_def has_joined_def)
  note j = joined_exited [OF h life_join(5) n life_join(6)]
  obtain a where a: "with_answer a (seen view (s, B, w)) = seen view (s, B, w)" using answer_self by blast
  have "caller_step (seen view (s, B, w)) = Some (seen view (s\<lparr>ctl := DtorJoin (i + 1)\<rparr>, B, w'))"
    using life_join(4,5) j by (simp add: caller_step_def) (simp add: seen_def)
  then have "pool_step (with_answer a (seen view (s, B, w))) LCaller (seen view (s\<lparr>ctl := DtorJoin (i + 1)\<rparr>, B, w'))"
    unfolding a by (rule pool_step.step_caller)
  then show ?thesis using life_join(1-3) by auto
next
  case (life_exit s i B w t B' w' hs h)
  then have ri: "running_inv view (s, B, w)" using life_not_dead inv by auto
  have f: "i < num s" "w' = w" "wpc (workers s ! i) \<noteq> WExited" using leaves_step [OF life_exit(4,5)] by auto
  have h: "handles_ok (tstate w0) (tstate w) s hs" using inv life_exit(1) by (simp add: life_inv_def)
  have "tstate w (hs ! i) = Running" using handles_okD(6,7) [OF h f(1)] f(3) by (auto split: if_splits)
  then have e: "seen view (t, B', finish (hs ! i) w') = seen view (t, B', w')" using finishes f(2) by (simp add: seen_def)
  obtain a where a: "with_answer a (seen view (s, B, w)) = seen view (s, B, w)" using answer_self by blast
  have "pool_step (with_answer a (seen view (s, B, w))) (LWorker i) (seen view (t, B', w'))"
    unfolding a using running_forward [OF life_exit(5) ri] by (simp add: visible_def)
  then show ?thesis using life_exit(1-3) e by auto
qed simp_all

end

subsection \<open>The documented use\<close>

text \<open>
  A handle that the library can leave when it cannot create a thread, and that is not 0: joining it is joining no
  thread of the pool. POSIX leaves the content undefined.
\<close>

definition stale_handle :: "'w thread_helper \<Rightarrow> nat \<Rightarrow> bool" where
  "stale_handle H h \<longleftrightarrow> h \<noteq> 0 \<and> (\<exists>attr this w res w'. thread_create H attr this w = (res, h, w') \<and> res \<noteq> 0)"

lemma thread_run_stale: "thread_run H fixed_core aff prio cpu this w = (res, h, w') \<Longrightarrow> res \<noteq> 0 \<Longrightarrow> h = 0 \<or> stale_handle H h"
  unfolding thread_run_def stale_handle_def by (fastforce split: if_splits prod.splits)

text \<open>
  The handle that the destructor of a worker that could not be started looks at is the one of the failed call.
\<close>

definition dropped_handle :: "'w thread_helper \<Rightarrow> 'w life \<Rightarrow> bool" where
  "dropped_handle H c \<longleftrightarrow>
     (case c of (s, B, w, hs, h) \<Rightarrow>
        ((\<exists>pc st. ctl s = InBar pc (KAddRunFailed st)) \<longrightarrow> h = 0 \<or> stale_handle H h) \<and>
        (ctl s = Undefined InvalidHandle \<longrightarrow> stale_handle H h))"

definition life_hosted :: "'w thread_helper \<Rightarrow> ('w \<Rightarrow> sync) \<Rightarrow> ('w \<Rightarrow> nat \<Rightarrow> thread_state) \<Rightarrow> nat \<Rightarrow> 'w \<Rightarrow> 'w life \<Rightarrow> bool" where
  "life_hosted H view tstate n w0 c \<longleftrightarrow>
     life_inv view tstate w0 c \<and> length (cores (fst c)) = n \<and> dropped_handle H c \<and>
     (ctl (fst c) = Gone \<or> ctl (fst c) = Undefined InvalidHandle
      \<or> host_inv (life_pool view c) \<and> core_inv n (life_pool view c))"

lemma failed_origin:
  assumes "pool_step s l t" and "ctl t = InBar pc (KAddRunFailed st)"
  shows "(\<exists>a c. ctl s = AddExec a c) \<or> (\<exists>pc. ctl s = InBar pc (KAddRunFailed st))"
  using assms(1)
proof cases
  case step_caller
  show ?thesis
  proof (cases "ctl s")
    case (InBar pc' k)
    then show ?thesis using step_caller assms(2)
      by (cases k) (auto simp: caller_step_def split: if_splits option.splits)
  qed (use step_caller assms(2) in \<open>auto simp: caller_step_def split: if_splits\<close>)
next
  case (step_call c)
  then show ?thesis using assms(2) by (cases c) (auto simp: host_call_def split: option.splits if_splits)
qed (use assms(2) in auto)

lemma pool_hosted_step:
  assumes "pool_step (with_answer a s) l t" and "allowed s l" and "host_inv s" and "core_inv n s" and "0 < n"
  shows "host_inv t" and "core_inv n t"
  using host_inv_step [OF host_stepI [OF _ assms(1)]] core_inv_step [OF assms(1,5)] assms(2-4)
  by (simp_all add: with_answer_inv allowed_answer)

context thread_contract begin

lemma life_dead:
  assumes inv: "life_inv view tstate w0 c" and g: "ctl (fst c) = Gone \<or> ctl (fst c) = Undefined InvalidHandle"
  shows "\<not> life_step H wake finish fixed_core c l d"
proof
  have ex: "ctl (fst c) = Gone \<Longrightarrow> \<forall>i < num (fst c). wpc (workers (fst c) ! i) = WExited"
    using inv handles_okD(6) by (cases c) (auto simp: life_inv_def)
  assume "life_step H wake finish fixed_core c l d"
  then show False
  proof cases
    case (life_other s B w t B' w' hs h)
    have "ctl s = Gone \<Longrightarrow> l \<noteq> LSpurious" using life_other(3) by auto
    then show ?thesis using g ex running_dead [OF life_other(4), of InvalidHandle] life_other(1) by auto
  next
    case (life_exit s i B w t B' w' hs h)
    then show ?thesis using g ex running_dead [OF life_exit(5), of InvalidHandle] by auto
  qed (use g in auto)
qed

lemma failed_running:
  assumes st: "running_step H wake (s, B, w) l (t, B', w')" and ne: "\<not> thread_event s l" and li: "running_inv view (s, B, w)"
    and f: "ctl t = InBar pc (KAddRunFailed st)"
  shows "\<exists>pc. ctl s = InBar pc (KAddRunFailed st)"
proof -
  have o: "seen view (t, B', w') = seen view (s, B, w) \<or> pool_step (seen view (s, B, w)) l (seen view (t, B', w'))"
    using running_forward [OF st] li by (auto simp: visible_def split: if_splits)
  have ex: "ctl s \<noteq> AddExec a k" for a k
  proof
    assume e: "ctl s = AddExec a k"
    have "l \<noteq> LCaller" using e ne by auto
    with st have "ctl t = ctl s"
    proof cases
      case step_outside
      from step_outside(4) show ?thesis by cases (use \<open>l \<noteq> LCaller\<close> e in auto)
    qed (use \<open>l \<noteq> LCaller\<close> in auto)
    then show False using e f by simp
  qed
  from o show ?thesis
  proof
    assume "seen view (t, B', w') = seen view (s, B, w)"
    then have "ctl t = ctl s" by (metis seen_fields(1) fst_conv)
    then show ?thesis using f by (intro exI [of _ pc]) simp
  next
    assume p: "pool_step (seen view (s, B, w)) l (seen view (t, B', w'))"
    show ?thesis using failed_origin [OF p, of pc st] f ex by simp
  qed
qed

lemma dropped_handle_run:
  assumes "thread_run H fixed_core aff (arg_priority a) cpu this w = (res, h', w')"
  shows "dropped_handle H (add_exec (answered res a) c s, B, w', hs, h')"
proof -
  have "res \<noteq> 0" if "ctl (add_exec (answered res a) c s) = InBar pc (KAddRunFailed st)" for pc st
    using that thread_run_cases(4) [OF assms]
    by (auto simp: add_exec_def Let_def EINVAL_def split: if_splits)
  moreover have "ctl (add_exec (answered res a) c s) \<noteq> Undefined InvalidHandle" by (simp add: add_exec_def Let_def)
  ultimately show ?thesis using thread_run_stale [OF assms] by (auto simp: dropped_handle_def)
qed

lemma dropped_handle_step:
  assumes ls: "life_step H wake finish fixed_core c l d" and li: "life_inv view tstate w0 c" and inv: "dropped_handle H c"
  shows "dropped_handle H d"
proof -
  have ng: "ctl (fst c) \<noteq> Gone" "ctl (fst c) \<noteq> Undefined InvalidHandle" using ls life_dead [OF li] by blast+
  from ls show ?thesis
  proof cases
    case (life_other s B w t B' w' hs h)
    have "ctl s = Gone \<Longrightarrow> l \<noteq> LSpurious" using life_other(3) by auto
    then have "running_inv view (s, B, w)" using life_not_dead [OF _ life_other(4)] li life_other(1) by blast
    note f = failed_running [OF life_other(4,3) this]
    have "ctl t \<noteq> Undefined InvalidHandle" using running_same_shape [OF life_other(4,3)] ng life_other(1) by simp
    moreover have "h = 0 \<or> stale_handle H h" if "ctl t = InBar pc (KAddRunFailed st)" for pc st
      using f [OF that] inv life_other(1) by (auto simp: dropped_handle_def)
    ultimately show ?thesis unfolding life_other(2) dropped_handle_def by auto
  next
    case (life_run s a c w res h' w' B hs h)
    show ?thesis unfolding life_run(3) by (rule dropped_handle_run [OF life_run(5)])
  next
    case (life_exit s i B w t B' w' hs h)
    then show ?thesis using inv leaves_step [OF life_exit(4,5)] by (simp add: dropped_handle_def)
  next
    case (life_garbage s st h B w hs)
    then show ?thesis using inv by (auto simp: dropped_handle_def)
  qed (simp_all add: dropped_handle_def)
qed

lemma life_hosted_step:
  assumes st: "life_host_step H wake finish fixed_core c l d" and inv: "life_hosted H view tstate n w0 c" and pos: "0 < n"
  shows "life_hosted H view tstate n w0 d"
proof -
  have ls: "life_step H wake finish fixed_core c l d" and al: "allowed (fst c) l" using st by (simp_all add: life_host_step_def)
  have li: "life_inv view tstate w0 c" and n: "length (cores (fst c)) = n" and dh: "dropped_handle H c"
    using inv by (simp_all add: life_hosted_def)
  have fc: "ctl (life_pool view c) = ctl (fst c)" "cores (life_pool view c) = cores (fst c)" "quiet (life_pool view c) = quiet (fst c)" for c
    by (cases c; simp add: seen_def)+
  have ng: "ctl (fst c) \<noteq> Gone" "ctl (fst c) \<noteq> Undefined InvalidHandle" using ls life_dead [OF li] by blast+
  then have hc: "host_inv (life_pool view c)" "core_inv n (life_pool view c)" using inv by (auto simp: life_hosted_def)
  have al': "allowed (life_pool view c) l" using al by (cases c) (simp add: allowed_seen)
  note step = pool_hosted_step [OF _ al' hc pos]
  have main: "length (cores (fst d)) = n \<and> (ctl (fst d) = Gone \<or> ctl (fst d) = Undefined InvalidHandle
      \<or> host_inv (life_pool view d) \<and> core_inv n (life_pool view d))"
  proof -
    consider (same) "life_pool view d = life_pool view c" | (dead) "ctl (fst d) = Gone \<or> ctl (fst d) = Undefined InvalidHandle" "cores (fst d) = cores (fst c)"
      | (move) a where "pool_step (with_answer a (life_pool view c)) l (life_pool view d)"
      using life_simulates [OF ls li] by blast
    then show ?thesis
    proof cases
      case same
      then show ?thesis using hc n fc by metis
    next
      case move
      have "length (cores (life_pool view d)) = n" using step(2) [OF move] by (simp add: core_inv_def)
      then show ?thesis using step [OF move] fc(2) [of d] by simp
    qed (use n in auto)
  qed
  then show ?thesis
    using life_inv_step [OF ls li] dropped_handle_step [OF ls li dh] by (simp add: life_hosted_def)
qed

lemma life_hosted_reach:
  assumes "barrier_ctor H w0 = (Inr B0, w1)" and "unread_results H w0 = (0, 0)" and "cs \<noteq> []"
    and "reach (life_host_step H wake finish fixed_core) (new_pool cs, B0, w1, [], 0) c"
  shows "life_hosted H view tstate (length cs) w0 c"
  using assms(4)
proof (induction rule: reach.induct)
  case reach_init
  note f = barrier_ctor_fresh_objects [OF assms(1,2)]
  have "seen view (new_pool cs, B0, w1) = new_pool cs" by (rule seen_new) (rule fresh_barrier_ok(2) [OF f])
  then show ?case
    using life_inv_start [OF assms(1,2)] host_inv_new core_inv_new by (simp add: life_hosted_def dropped_handle_def new_pool_def)
next
  case (reach_step c l d)
  show ?case by (rule life_hosted_step [OF reach_step.hyps(2) reach_step.IH]) (use assms(3) in auto)
qed

lemma life_hosted_run:
  "run (life_step H wake finish fixed_core) c ls d \<Longrightarrow> \<forall>l \<in> set ls. \<not> is_call l \<Longrightarrow> 0 < n \<Longrightarrow>
   life_hosted H view tstate n w0 c \<Longrightarrow> life_hosted H view tstate n w0 d"
proof (induction rule: run.induct)
  case (run_cons c l d ls e)
  have "allowed (fst c) l" using run_cons.prems(1) by (cases l) auto
  then have "life_host_step H wake finish fixed_core c l d" using run_cons.hyps(1) by (simp add: life_host_step_def)
  from life_hosted_step [OF this] show ?case using run_cons by simp
qed

text \<open>In the documented use nothing aborts, except by the join of a handle that a failed creation has left.\<close>

lemma life_hosted_abort:
  assumes "life_hosted H view tstate n w0 (s, B, w, hs, h)" and "aborted s"
  shows "ctl s = Undefined InvalidHandle \<and> stale_handle H h"
proof -
  have "ctl s \<noteq> Gone" using assms(2) by (auto simp: aborted_def)
  moreover have "\<not> (host_inv (seen view (s, B, w)) \<and> core_inv n (seen view (s, B, w)))"
    using no_abort [of "seen view (s, B, w)" n] assms(2) by auto
  ultimately show ?thesis using assms(1) by (auto simp: life_hosted_def dropped_handle_def)
qed

end

subsection \<open>Calls that make and end no thread\<close>

context thread_contract begin

lemma no_worker_leaves:
  assumes inv: "life_inv view tstate w0 (s, B, w, hs, h)" and c: "ctl s = Host \<or> (\<exists>pc. ctl s = InBar pc KWakeWait)"
    and i: "i < num s"
  shows "\<not> leaves s i"
proof -
  have "pool_inv (seen view (s, B, w))" using life_running [OF inv] c by (auto simp: running_inv_def)
  from pool_invD(4) [OF this] have "pool_running s" "thread_running (workers s ! i)"
    using c i by (auto simp: stop_inv_def seen_def)
  then show ?thesis by (auto simp: leaves_def split: worker_pc.splits)
qed

lemma life_plain_step:
  assumes st: "life_step H wake finish fixed_core (s, B, w, hs, h) l d" and inv: "life_inv view tstate w0 (s, B, w, hs, h)"
    and c: "ctl s = Host \<or> (\<exists>pc. ctl s = InBar pc KWakeWait)" and l: "\<not> is_call l"
  obtains t B' w' where "d = (t, B', w', hs, h)" "running_step H wake (s, B, w) l (t, B', w')"
    "ctl t = Host \<or> (\<exists>pc. ctl t = InBar pc KWakeWait)"
  using st
proof cases
  case (life_other t B' w')
  from life_other(3) have "ctl t = Host \<or> (\<exists>pc. ctl t = InBar pc KWakeWait)"
  proof cases
    case step_outside
    from step_outside(4) show ?thesis
      by cases (use c l in \<open>auto simp: caller_step_def split: option.splits if_splits\<close>)
  qed (use c in auto)
  then show ?thesis using that life_other by blast
next
  case (life_exit i t B' w')
  then show ?thesis using leaves_step [OF life_exit(3,4)] no_worker_leaves [OF inv c] by blast
qed (use c in auto)

lemma life_plain_run:
  "run (life_step H wake finish fixed_core) c ls d \<Longrightarrow> life_inv view tstate w0 c \<Longrightarrow> \<forall>l \<in> set ls. \<not> is_call l \<Longrightarrow>
   ctl (fst c) = Host \<or> (\<exists>pc. ctl (fst c) = InBar pc KWakeWait) \<Longrightarrow> c = (s, B, w, hs, h) \<Longrightarrow>
   \<exists>t B' w'. d = (t, B', w', hs, h) \<and> run (running_step H wake) (s, B, w) ls (t, B', w')
     \<and> (ctl t = Host \<or> (\<exists>pc. ctl t = InBar pc KWakeWait))"
proof (induction arbitrary: s B w rule: run.induct)
  case (run_nil c)
  then show ?case by (auto intro: run.run_nil)
next
  case (run_cons c l d ls e)
  obtain t B' w' where t: "d = (t, B', w', hs, h)" "running_step H wake (s, B, w) l (t, B', w')"
      "ctl t = Host \<or> (\<exists>pc. ctl t = InBar pc KWakeWait)"
    by (rule life_plain_step [of fixed_core s B w hs h l d]) (use run_cons.hyps(1) run_cons.prems in auto)
  have "life_inv view tstate w0 d" by (rule life_inv_step [OF run_cons.hyps(1) run_cons.prems(1)])
  then have "\<exists>u B2 w2. e = (u, B2, w2, hs, h) \<and> run (running_step H wake) (t, B', w') ls (u, B2, w2)
      \<and> (ctl u = Host \<or> (\<exists>pc. ctl u = InBar pc KWakeWait))"
    by (rule run_cons.IH) (use run_cons.prems t in auto)
  then show ?case using t(2) by (blast intro: run.run_cons)
qed

text \<open>One period on threads.\<close>

lemma period_on_threads:
  assumes inv: "life_hosted H view tstate n w0 (s, B, w, hs, h)" and n: "0 < n" and hq: "ctl s = Host" "quiet s"
    and r: "run (life_step H wake finish fixed_core) (host_call WakeupAndWait s, B, w, hs, h) ls (t, B', w', hs', h')"
    and nc: "\<forall>l \<in> set ls. \<not> is_call l"
  shows "thread_steps ls \<le> 29 * num s + 60 + 5 * spurious_count ls" and "\<not> aborted t" and "hs' = hs"
    and "ctl t = Host \<Longrightarrow> num t = num s \<and> quiet t \<and> (\<forall>i < num t. calls (workers t ! i) = calls (workers s ! i) + 1)"
    and "ctl t \<noteq> Host \<Longrightarrow> \<exists>l e. work_label l \<and> life_step H wake finish fixed_core (t, B', w', hs', h') l e"
proof -
  have li: "life_inv view tstate w0 (s, B, w, hs, h)" and hi: "host_inv (seen view (s, B, w))" and ci: "core_inv n (seen view (s, B, w))"
    using inv hq(1) by (simp_all add: life_hosted_def)
  have ri: "running_inv view (s, B, w)" using life_running [OF li] hq(1) by simp
  have "running_step H wake (s, B, w) (LCall WakeupAndWait) (host_call WakeupAndWait s, B, w)"
    by (rule running_step.step_outside) (use hq(1) step_call in auto)
  from life_inv_step [OF life_other [OF _ this] li]
  have l1: "life_inv view tstate w0 (host_call WakeupAndWait s, B, w, hs, h)" by simp
  have rr: "run (running_step H wake) (host_call WakeupAndWait s, B, w) ls (t, B', w')" and e: "hs' = hs" "h' = h"
    using life_plain_run [OF r l1 nc] by (auto simp: host_call_def)
  note p = period_on_code [OF ri hi ci n, unfolded fst_conv snd_conv, OF hq rr nc]
  show "thread_steps ls \<le> 29 * num s + 60 + 5 * spurious_count ls" and "\<not> aborted t" and "hs' = hs"
    and "ctl t = Host \<Longrightarrow> num t = num s \<and> quiet t \<and> (\<forall>i < num t. calls (workers t ! i) = calls (workers s ! i) + 1)"
    using p(1-3) e(1) by simp_all
  have "life_inv view tstate w0 (t, B', w', hs', h')" using life_run_budget [OF r l1 nc] by blast
  moreover have "ctl t \<noteq> Gone" using life_plain_run [OF r l1 nc] by (auto simp: host_call_def)
  ultimately show "\<exists>l e. work_label l \<and> life_step H wake finish fixed_core (t, B', w', hs', h') l e" if "ctl t \<noteq> Host"
    using life_progress p(2) that by (simp add: returned_def)
qed

end

end
