(* ===== verification/Lifetime_Properties.thy ===== *)
theory Lifetime_Properties
  imports Lifetime_Host
begin

text \<open>
  The properties of a pool's life on a thread helper, and an executable scheduler of it for
  examples.
\<close>

subsection \<open>Executable schedules\<close>

definition exec_running ::
  "'w thread_helper \<Rightarrow> label \<Rightarrow> pool \<Rightarrow> barrier_object \<Rightarrow> 'w \<Rightarrow> (pool \<times> barrier_object \<times> 'w) option" where
  "exec_running H l s B w =
     (let out = map_option (\<lambda>t. (t, B, w)) (exec_step l s)
      in case l of
           LWorker i \<Rightarrow>
             (if aborted s \<or> num s \<le> i then None
              else (case wpc (workers s ! i) of
                      WWait p \<Rightarrow>
                        (if p = WtRet then out
                         else map_option (\<lambda>(p', B', w').
                                (s\<lparr>workers := (workers s)[i := (workers s ! i)\<lparr>wpc := WWait p'\<rparr>]\<rparr>, B', w')) (wait_code H i p B w))
                    | _ \<Rightarrow> out))
         | LCaller \<Rightarrow>
             (case ctl s of
                InBar pc k \<Rightarrow>
                  (if pc = CRet then out
                   else map_option (\<lambda>(pc', B', w').
                          (s\<lparr>ctl := InBar pc' k, epoch := (if is_swap pc then epoch s + 1 else epoch s)\<rparr>, B', w')) (call_code H pc B w))
              | _ \<Rightarrow> out)
         | LCall c \<Rightarrow> out
         | LSpurious \<Rightarrow> None)"

lemma caller_in_eq:
  "ctl s = InBar pc k \<Longrightarrow> pc \<noteq> CRet \<Longrightarrow> call_code H pc B w = Some (pc', B', w') \<Longrightarrow>
   t = s\<lparr>ctl := InBar pc' k, epoch := (if is_swap pc then epoch s + 1 else epoch s)\<rparr> \<Longrightarrow>
   running_step H wake (s, B, w) LCaller (t, B', w')"
  by (simp only:) (rule caller_in)

lemma exec_running_step: "exec_running H l s B w = Some c \<Longrightarrow> running_step H wake (s, B, w) l c"
  by (cases l; cases c)
    (auto simp: exec_running_def Let_def exec_step_iff split: if_splits worker_pc.splits ctl.splits
      intro: running_step.intros caller_in_eq)

definition exec_life ::
  "'w thread_helper \<Rightarrow> (nat \<Rightarrow> 'w \<Rightarrow> 'w) \<Rightarrow> bool \<Rightarrow> label \<Rightarrow> 'w life \<Rightarrow> 'w life option" where
  "exec_life H finish fixed_core l c =
     (case c of (s, B, w, hs, h) \<Rightarrow>
        if \<not> thread_event s l then map_option (\<lambda>(t, B', w'). (t, B', w', hs, h)) (exec_running H l s B w)
        else (case l of
           LWorker i \<Rightarrow> map_option (\<lambda>(t, B', w'). (t, B', finish (hs ! i) w', hs, h)) (exec_running H l s B w)
         | LCaller \<Rightarrow>
             (case ctl s of
                AddExec a k \<Rightarrow>
                  (case thread_run H fixed_core (os_affinity a) (arg_priority a) (cpu_id_of (cores s ! k)) (num s) w of
                     (res, h', w') \<Rightarrow>
                       Some (add_exec (answered res a) k s, B, w',
                         (if errno_to_worker_status res = WPS_OK then hs @ [h'] else hs), h'))
              | InBar pc (KAddRunFailed st) \<Rightarrow>
                  (if h = 0 then Some (resume (KAddRunFailed st) s, B, w, hs, h)
                   else Some (s\<lparr>ctl := Undefined InvalidHandle\<rparr>, B, w, hs, h))
              | AddPop st \<Rightarrow>
                  map_option (\<lambda>w'. (s\<lparr>workers := butlast (workers s), ctl := Host, ret := Some (POOL_ERROR, st), quiet := False\<rparr>,
                      B, w', butlast hs, h)) (thread_dtor H (last hs) w)
              | DtorJoin i \<Rightarrow>
                  (if i < num s then map_option (\<lambda>w'. (s\<lparr>ctl := DtorJoin (i + 1)\<rparr>, B, w', hs, h)) (thread_dtor H (hs ! i) w)
                   else Some (s\<lparr>ctl := Gone\<rparr>, B, barrier_dtor H B w, hs, h))
              | _ \<Rightarrow> None)
         | _ \<Rightarrow> None))"

lemma exec_life_step:
  assumes "exec_life H finish fixed_core l c = Some c'"
  shows "life_step H wake finish fixed_core c l c'"
proof -
  obtain s B w hs h where c: "c = (s, B, w, hs, h)" by (rule prod_cases5)
  show ?thesis
  proof (cases "thread_event s l")
    case False
    then show ?thesis using assms by (auto simp: exec_life_def c intro!: life_other dest: exec_running_step)
  next
    case ev: True
    show ?thesis
    proof (cases l)
      case (LWorker i)
      then show ?thesis using assms ev by (auto simp: exec_life_def c intro!: life_exit dest: exec_running_step)
    next
      case LCaller
      show ?thesis
      proof (cases "ctl s")
        case (AddExec a k)
        obtain res h' w' where r: "thread_run H fixed_core (os_affinity a) (arg_priority a) (cpu_id_of (cores s ! k)) (num s) w = (res, h', w')"
          by (rule prod_cases3)
        show ?thesis using assms ev LCaller AddExec r life_run [OF AddExec r] by (auto simp: exec_life_def c)
      next
        case (InBar pc k)
        then obtain st where k: "ctl s = InBar CRet (KAddRunFailed st)" using ev LCaller by (cases k) auto
        show ?thesis
          using assms ev LCaller k life_drop [OF k] life_garbage [OF k] by (auto simp: exec_life_def c split: if_splits)
      next
        case (AddPop st)
        then show ?thesis using assms ev LCaller life_pop [OF AddPop] by (auto simp: exec_life_def c)
      next
        case (DtorJoin i)
        then show ?thesis using assms ev LCaller life_join [OF DtorJoin] life_gone [OF DtorJoin]
          by (auto simp: exec_life_def c split: if_splits)
      qed (use ev LCaller in auto)
    qed (use assms ev in \<open>auto simp: exec_life_def c\<close>)
  qed
qed

definition life_label :: "'w thread_helper \<Rightarrow> (nat \<Rightarrow> 'w \<Rightarrow> 'w) \<Rightarrow> bool \<Rightarrow> 'w life \<Rightarrow> label option" where
  "life_label H finish fixed_core c =
     List.find (\<lambda>l. \<not> Option.is_none (exec_life H finish fixed_core l c)) (LCaller # map LWorker [0 ..< num (fst c)])"

fun drive_life :: "'w thread_helper \<Rightarrow> (nat \<Rightarrow> 'w \<Rightarrow> 'w) \<Rightarrow> bool \<Rightarrow> nat \<Rightarrow> 'w life \<Rightarrow> label list \<times> 'w life" where
  "drive_life H finish fixed_core 0 c = ([], c)"
| "drive_life H finish fixed_core (Suc n) c =
     (case life_label H finish fixed_core c of
        None \<Rightarrow> ([], c)
      | Some l \<Rightarrow>
          (case exec_life H finish fixed_core l c of
             None \<Rightarrow> ([], c)
           | Some d \<Rightarrow> (let (ls, e) = drive_life H finish fixed_core n d in (l # ls, e))))"

lemma life_label_work: "life_label H finish fixed_core c = Some l \<Longrightarrow> work_label l"
  by (auto simp: life_label_def find_Some_iff nth_Cons split: nat.splits if_splits)

lemma drive_life_run:
  "drive_life H finish fixed_core n c = (ls, d) \<Longrightarrow>
   run (life_step H wake finish fixed_core) c ls d \<and> (\<forall>l \<in> set ls. work_label l)"
proof (induction n arbitrary: c ls d)
  case 0
  then show ?case by (auto intro: run.intros)
next
  case (Suc n)
  show ?case
  proof (cases "life_label H finish fixed_core c")
    case None
    then show ?thesis using Suc.prems by (auto intro: run.intros)
  next
    case (Some l)
    show ?thesis
    proof (cases "exec_life H finish fixed_core l c")
      case None
      then show ?thesis using Suc.prems Some by (auto intro: run.intros)
    next
      case e: (Some c')
      obtain ms where ms: "drive_life H finish fixed_core n c' = (ms, d)" and ls: "ls = l # ms"
        using Suc.prems Some e by (auto split: prod.splits)
      then show ?thesis
        using Suc.IH [OF ms] life_label_work [OF Some] exec_life_step [OF e] by (auto intro: run.run_cons)
    qed
  qed
qed

subsection \<open>An example\<close>

definition life_call :: "thread_type \<Rightarrow> nat \<Rightarrow> call \<Rightarrow> sys life \<Rightarrow> label list \<times> sys life" where
  "life_call type n k c =
     drive_life (helper_of type) finish_thread True n (case c of (s, B, w, hs, h) \<Rightarrow> (host_call k s, B, w, hs, h))"

definition life_start :: "thread_type \<Rightarrow> sys life" where
  "life_start type = (new_pool two_cores, fst (sys_barrier type), snd (sys_barrier type), [], 0)"

definition one_worker :: "sys life" where
  "one_worker = snd (life_call PTHREAD 30 (AddWorker good_args) (life_start PTHREAD))"

abbreviation sys_life_step :: "thread_type \<Rightarrow> sys life \<Rightarrow> label \<Rightarrow> sys life \<Rightarrow> bool" where
  "sys_life_step type \<equiv> life_step (helper_of type) cond_wake finish_thread True"

lemma life_call_run:
  obtains ls where "run (sys_life_step type) (host_call k (fst c), snd c) ls (snd (life_call type n k c))"
    and "\<forall>l \<in> set ls. \<not> is_call l"
proof -
  obtain ls d where r: "life_call type n k c = (ls, d)" by (cases "life_call type n k c") blast
  have "drive_life (helper_of type) finish_thread True n (host_call k (fst c), snd c) = (ls, d)"
    using r by (cases c) (simp add: life_call_def)
  from drive_life_run [OF this, of cond_wake]
  show thesis using that r work_not_call by auto
qed

lemma run_reach_life:
  "run (sys_life_step type) c ls d \<Longrightarrow> \<forall>l \<in> set ls. \<not> is_call l \<Longrightarrow>
   reach (life_host_step (helper_of type) cond_wake finish_thread True) c0 c \<Longrightarrow>
   reach (life_host_step (helper_of type) cond_wake finish_thread True) c0 d"
proof (induction rule: run.induct)
  case (run_cons c l d ls e)
  have "allowed (fst c) l" using run_cons.prems(1) by (cases l) auto
  then have "life_host_step (helper_of type) cond_wake finish_thread True c l d"
    using run_cons.hyps(1) by (simp add: life_host_step_def)
  then show ?case using run_cons by (auto intro: reach.reach_step)
qed

lemma host_call_life:
  "ctl s = Host \<Longrightarrow> sys_life_step type (s, B, w, hs, h) (LCall k) (host_call k s, B, w, hs, h)"
  by (rule life_other) (auto intro: running_step.step_outside step_call)

lemma one_worker_hosted:
  "reach (life_host_step (helper_of PTHREAD) cond_wake finish_thread True) (life_start PTHREAD) one_worker"
proof -
  obtain ls where r: "run (sys_life_step PTHREAD) (host_call (AddWorker good_args) (fst (life_start PTHREAD)), snd (life_start PTHREAD)) ls one_worker"
      "\<forall>l \<in> set ls. \<not> is_call l"
    unfolding one_worker_def using life_call_run [of PTHREAD "AddWorker good_args" "life_start PTHREAD" 30] by metis
  have "sys_life_step PTHREAD (life_start PTHREAD) (LCall (AddWorker good_args))
      (host_call (AddWorker good_args) (fst (life_start PTHREAD)), snd (life_start PTHREAD))"
    using host_call_life [of "new_pool two_cores"] by (simp add: life_start_def new_pool_def)
  then have "life_host_step (helper_of PTHREAD) cond_wake finish_thread True (life_start PTHREAD) (LCall (AddWorker good_args))
      (host_call (AddWorker good_args) (fst (life_start PTHREAD)), snd (life_start PTHREAD))"
    by (simp add: life_host_step_def)
  with reach.reach_init have "reach (life_host_step (helper_of PTHREAD) cond_wake finish_thread True) (life_start PTHREAD)
      (host_call (AddWorker good_args) (fst (life_start PTHREAD)), snd (life_start PTHREAD))"
    by (rule reach.reach_step)
  then show ?thesis by (rule run_reach_life [OF r])
qed

lemma one_worker_reach: "reach (sys_life_step PTHREAD) (life_start PTHREAD) one_worker"
  by (rule reach_mono [OF _ one_worker_hosted]) (simp add: life_host_step_def)

subsection \<open>Properties\<close>

context thread_contract begin

lemma life_reach_inv:
  assumes "barrier_ctor H w0 = (Inr B0, w1)" and "unread_results H w0 = (0, 0)"
    and "reach (life_step H wake finish fixed_core) (new_pool cs, B0, w1, [], 0) c"
  shows "life_inv view tstate w0 c"
  using assms(3) by (induction rule: reach.induct) (auto intro: life_inv_start [OF assms(1,2)] life_inv_step)

lemma life_call_inv:
  assumes inv: "life_inv view tstate w0 (s, B, w, hs, h)" and "ctl s = Host"
  shows "life_inv view tstate w0 (host_call k s, B, w, hs, h)"
proof -
  have "running_step H wake (s, B, w) (LCall k) (host_call k s, B, w)"
    by (rule running_step.step_outside) (use assms(2) step_call in auto)
  from life_inv_step [OF life_other [OF _ this] inv] show ?thesis by simp
qed

end

text \<open>
  C14. The objects and threads of a pool, at any time of its life, for any thread library that
  meets the contract and any use: what existed before the pool in the system is as it was; every
  worker has a thread of its own, which did not exist before and runs exactly as long as the worker has
  not left its loop; there are no other new threads; and until the destructor is done the
  barrier's mutex, condition variable and semaphores exist, so that no thread uses a destroyed one.
\<close>

theorem pool_owns_threads:
  assumes "thread_contract H view wake tstate finish"
    and "barrier_ctor H w0 = (Inr B0, w1)" and "unread_results H w0 = (0, 0)"
    and "reach (life_step H wake finish fixed_core) (new_pool cs, B0, w1, [], 0) (s, B, w, hs, h)"
  shows "keeps (view w0) (view w) \<and> (\<forall>x. x \<notin> set hs \<longrightarrow> tstate w x = tstate w0 x) \<and> length hs = num s \<and> distinct hs
    \<and> (\<forall>i < num s. tstate w0 (hs ! i) = NoThread \<and> (tstate w (hs ! i) = Running \<longleftrightarrow> wpc (workers s ! i) \<noteq> WExited))
    \<and> (if ctl s = Gone then \<forall>i < num s. wpc (workers s ! i) = WExited
       else ctl s = Undefined InvalidHandle \<or> objs_ok (view w) B)"
proof -
  have inv: "life_inv view tstate w0 (s, B, w, hs, h)"
    using thread_contract.life_reach_inv [OF assms(1-4)] .
  then have h: "handles_ok (tstate w0) (tstate w) s hs" by (simp add: life_inv_def)
  note H = handles_okD [OF h]
  have "tstate w0 (hs ! i) = NoThread \<and> (tstate w (hs ! i) = Running \<longleftrightarrow> wpc (workers s ! i) \<noteq> WExited)" if "i < num s" for i
    using H(1) H(4) [of "hs ! i"] H(6,7) [OF that] that by (auto split: if_splits)
  then show ?thesis
    using inv H(1,2,5,6) by (auto simp: life_inv_def running_inv_def split: if_splits)
qed

theorem pool_owns_threads_witness:
  "\<exists>s B w hs h. one_worker = (s, B, w, hs, h) \<and> ctl s = Host \<and> length hs = 1 \<and> thread_at w (hs ! 0) = Running
     \<and> objs_ok (sys_view w) B"
proof -
  obtain s B w hs h where c: "one_worker = (s, B, w, hs, h)" by (rule prod_cases5)
  have "ctl (fst one_worker) = Host" "map wpc (workers (fst one_worker)) = [WWait (WtSemWait 0)]" by code_simp+
  then have f: "ctl s = Host" "num s = 1" "wpc (workers s ! 0) = WWait (WtSemWait 0)"
    by (auto simp: c map_eq_Cons_conv)
  have "reach (sys_life_step PTHREAD) (new_pool two_cores, fst (sys_barrier PTHREAD), snd (sys_barrier PTHREAD), [], 0) (s, B, w, hs, h)"
    using one_worker_reach c by (simp add: life_start_def)
  from pool_owns_threads [OF sys_helper_threads.thread_contract_axioms sys_barrier_ctor sys_unread this]
  show ?thesis using c f by (intro exI [of _ s] exI [of _ B] exI [of _ w] exI [of _ hs] exI [of _ h]) auto
qed



text \<open>
  C13. No call of a method can hang on real threads: a pool used as documented, for any thread library that meets
  the contract and however the threads are scheduled. A call takes at most 29 steps per worker and
  60 more, plus four for every spurious wake-up, and at each moment it has returned or some thread
  can move, with one exception: if the system could not create a thread and left a handle that is not 0,
  \<open>add_worker\<close> ends in the join of that handle. Every other join, by \<open>add_worker\<close> or by the destructor, is of a
  thread that the pool has started and not joined yet.
\<close>

theorem methods_return_on_threads:
  assumes "thread_contract H view wake tstate finish"
    and "barrier_ctor H w0 = (Inr B0, w1)" and "unread_results H w0 = (0, 0)" and "cs \<noteq> []"
    and "reach (life_host_step H wake finish fixed_core) (new_pool cs, B0, w1, [], 0) (s, B, w, hs, h)"
    and "ctl s = Host" and "allowed s (LCall k)"
    and "run (life_step H wake finish fixed_core) (host_call k s, B, w, hs, h) ls (t, B', w', hs', h')"
    and "\<forall>l \<in> set ls. \<not> is_call l"
  shows "thread_steps ls \<le> 29 * num s + 60 + 4 * spurious_count ls
    \<and> (ctl t = Host \<or> ctl t = Gone \<or> (\<exists>l c. work_label l \<and> life_step H wake finish fixed_core (t, B', w', hs', h') l c)
       \<or> ctl t = Undefined InvalidHandle \<and> stale_handle H h')
    \<and> (\<forall>i st. ctl t = DtorJoin i \<and> i < num t \<or> ctl t = AddPop st \<and> Suc i = num t \<longrightarrow>
         tstate w0 (hs' ! i) = NoThread \<and> tstate w' (hs' ! i) \<noteq> NoThread)"
proof -
  note T = assms(1)
  have inv0: "life_hosted H view tstate (length cs) w0 (s, B, w, hs, h)"
    by (rule thread_contract.life_hosted_reach [OF T assms(2-5)])
  have n: "0 < length cs" using assms(4) by simp
  have "running_step H wake (s, B, w) (LCall k) (host_call k s, B, w)"
    by (rule running_step.step_outside) (use assms(6) step_call in auto)
  from life_other [OF _ this] have "life_host_step H wake finish fixed_core (s, B, w, hs, h) (LCall k) (host_call k s, B, w, hs, h)"
    using assms(7) by (simp add: life_host_step_def)
  from thread_contract.life_hosted_step [OF T this inv0 n]
  have inv1: "life_hosted H view tstate (length cs) w0 (host_call k s, B, w, hs, h)" .
  have inv2: "life_hosted H view tstate (length cs) w0 (t, B', w', hs', h')"
    by (rule thread_contract.life_hosted_run [OF T assms(8,9) n inv1])
  have li: "life_inv view tstate w0 (host_call k s, B, w, hs, h)" "life_inv view tstate w0 (t, B', w', hs', h')"
    using inv1 inv2 by (simp_all add: life_hosted_def)
  have "budget (life_pool view (host_call k s, B, w, hs, h)) \<le> 29 * num s + 60"
    using call_budget [of "seen view (s, B, w)" k] assms(6) seen_call [of view k "(s, B, w)"] by simp
  then have b: "thread_steps ls \<le> 29 * num s + 60 + 4 * spurious_count ls"
    using thread_contract.life_run_budget [OF T assms(8) li(1) assms(9)] by auto
  have p: "ctl t = Host \<or> ctl t = Gone \<or> (\<exists>l c. work_label l \<and> life_step H wake finish fixed_core (t, B', w', hs', h') l c)
      \<or> ctl t = Undefined InvalidHandle \<and> stale_handle H h'"
  proof (cases "returned t")
    case True
    then show ?thesis using thread_contract.life_hosted_abort [OF T inv2] by (auto simp: returned_def)
  next
    case False
    then show ?thesis using thread_contract.life_progress [OF T li(2), of fixed_core] by auto
  qed
  have h: "handles_ok (tstate w0) (tstate w') t hs'" using li(2) by (simp add: life_inv_def)
  have j: "tstate w0 (hs' ! i) = NoThread \<and> tstate w' (hs' ! i) \<noteq> NoThread"
    if "ctl t = DtorJoin i \<and> i < num t \<or> ctl t = AddPop st \<and> Suc i = num t" for i st
  proof -
    have i: "i < num t" "\<not> has_joined t i" using that by (auto simp: has_joined_def)
    then have "hs' ! i \<in> set hs'" using handles_okD(1) [OF h] by simp
    then show ?thesis using handles_okD(4) [OF h] handles_okD(7) [OF h i(1)] i(2) by simp
  qed
  show ?thesis using b p j by blast
qed

theorem methods_return_on_threads_witness:
  "\<exists>ls t B w hs h. run (sys_life_step PTHREAD) (host_call WakeupAndWait (fst one_worker), snd one_worker) ls (t, B, w, hs, h)
     \<and> ctl t = Host \<and> thread_steps ls \<le> 89 + 4 * spurious_count ls"
proof -
  obtain s B w hs h where c: "one_worker = (s, B, w, hs, h)" by (rule prod_cases5)
  obtain t B' w' hs' h' where d: "snd (life_call PTHREAD 40 WakeupAndWait one_worker) = (t, B', w', hs', h')" by (rule prod_cases5)
  have "ctl (fst one_worker) = Host" "num (fst one_worker) = 1" "allowed (fst one_worker) (LCall WakeupAndWait)"
    "ctl (fst (snd (life_call PTHREAD 40 WakeupAndWait one_worker))) = Host"
    by code_simp+
  then have f: "ctl s = Host" "num s = 1" "allowed s (LCall WakeupAndWait)" "ctl t = Host" by (simp_all add: d) (simp_all add: c)
  have r: "reach (life_host_step (helper_of PTHREAD) cond_wake finish_thread True)
      (new_pool two_cores, fst (sys_barrier PTHREAD), snd (sys_barrier PTHREAD), [], 0) (s, B, w, hs, h)"
    using one_worker_hosted c by (simp add: life_start_def)
  have "two_cores \<noteq> []" by code_simp
  note ctors = sys_barrier_ctor sys_unread this
  obtain ls where l: "run (sys_life_step PTHREAD) (host_call WakeupAndWait s, B, w, hs, h) ls (t, B', w', hs', h')"
      "\<forall>l \<in> set ls. \<not> is_call l"
    using life_call_run [of PTHREAD WakeupAndWait one_worker 40, unfolded d, unfolded c fst_conv snd_conv] by blast
  from methods_return_on_threads [OF sys_helper_threads.thread_contract_axioms ctors r f(1,3) l]
  have "thread_steps ls \<le> 89 + 4 * spurious_count ls" using f(2) by simp
  then show ?thesis using c l(1) f(4)
    by (intro exI [of _ ls] exI [of _ t] exI [of _ B'] exI [of _ w'] exI [of _ hs'] exI [of _ h']) (simp add: c)
qed

text \<open>
  C5. One period on threads: a pool used as documented from its constructor on, its workers threads of
  any library that meets the contract and its barrier on objects of that library. After a call of
  \<open>wakeup_and_wait\<close> the threads take at most 29 steps per worker and 60 more, plus five for
  every spurious wake-up, in any schedule; until the call returns some thread can move and nothing
  aborts; no thread is made or joined; and when it returns, every worker has called back
  exactly once more, its thread still runs, and the pool is idle again.
\<close>

theorem threads_run_a_period:
  assumes "thread_contract H view wake tstate finish"
    and "barrier_ctor H w0 = (Inr B0, w1)" and "unread_results H w0 = (0, 0)" and "cs \<noteq> []"
    and "reach (life_host_step H wake finish fixed_core) (new_pool cs, B0, w1, [], 0) (s, B, w, hs, h)"
    and "ctl s = Host" and "quiet s"
    and "run (life_step H wake finish fixed_core) (host_call WakeupAndWait s, B, w, hs, h) ls (t, B', w', hs', h')"
    and "\<forall>l \<in> set ls. \<not> is_call l"
  shows "thread_steps ls \<le> 29 * num s + 60 + 5 * spurious_count ls \<and> \<not> aborted t \<and> hs' = hs
    \<and> (if ctl t = Host
       then num t = num s \<and> quiet t \<and> (\<forall>i < num t. calls (workers t ! i) = calls (workers s ! i) + 1 \<and> tstate w' (hs' ! i) = Running)
       else \<exists>l e. work_label l \<and> life_step H wake finish fixed_core (t, B', w', hs', h') l e)"
proof -
  note T = assms(1)
  have hosted: "life_hosted H view tstate (length cs) w0 (s, B, w, hs, h)"
    by (rule thread_contract.life_hosted_reach [OF T assms(2-5)])
  have "0 < length cs" using assms(4) by simp
  note p = thread_contract.period_on_threads [OF T hosted this assms(6-9)]
  have "tstate w' (hs' ! i) = Running" if h: "ctl t = Host" and i: "i < num t" for i
  proof -
    have "life_inv view tstate w0 (s, B, w, hs, h)" using hosted by (simp add: life_hosted_def)
    note l0 = thread_contract.life_call_inv [OF T this assms(6), of WakeupAndWait]
    have l1: "life_inv view tstate w0 (t, B', w', hs', h')"
      using thread_contract.life_run_budget [OF T assms(8) l0 assms(9)] by blast
    then have "pool_inv (seen view (t, B', w'))" using h by (simp add: life_inv_def running_inv_def)
    then have "wpc (workers t ! i) \<noteq> WExited" using host_worker_alive(1) [of "seen view (t, B', w')" i] h i by simp
    moreover have "handles_ok (tstate w0) (tstate w') t hs'" using l1 by (simp add: life_inv_def)
    ultimately show ?thesis using handles_okD(7) [of "tstate w0" "tstate w'" t hs' i] h i by (simp add: has_joined_def)
  qed
  then show ?thesis using p by simp
qed

theorem threads_run_a_period_witness:
  "\<exists>t B w hs h. snd (life_call PTHREAD 40 WakeupAndWait one_worker) = (t, B, w, hs, h) \<and> ctl t = Host
     \<and> calls (workers t ! 0) = 1 \<and> thread_at w (hs ! 0) = Running"
proof -
  obtain s B w hs h where c: "one_worker = (s, B, w, hs, h)" by (rule prod_cases5)
  obtain t B' w' hs' h' where d: "snd (life_call PTHREAD 40 WakeupAndWait one_worker) = (t, B', w', hs', h')" by (rule prod_cases5)
  have "ctl (fst one_worker) = Host" "num (fst one_worker) = 1" "quiet (fst one_worker)" "calls (workers (fst one_worker) ! 0) = 0"
    "ctl (fst (snd (life_call PTHREAD 40 WakeupAndWait one_worker))) = Host" by code_simp+
  then have f: "ctl s = Host" "num s = 1" "quiet s" "calls (workers s ! 0) = 0" "ctl t = Host"
    by (simp_all add: d) (simp_all add: c)
  have r: "reach (life_host_step (helper_of PTHREAD) cond_wake finish_thread True)
      (new_pool two_cores, fst (sys_barrier PTHREAD), snd (sys_barrier PTHREAD), [], 0) (s, B, w, hs, h)"
    using one_worker_hosted c by (simp add: life_start_def)
  obtain ls where l: "run (sys_life_step PTHREAD) (host_call WakeupAndWait s, B, w, hs, h) ls (t, B', w', hs', h')"
      "\<forall>l \<in> set ls. \<not> is_call l"
    using life_call_run [of PTHREAD WakeupAndWait one_worker 40, unfolded d, unfolded c fst_conv snd_conv] by blast
  have "two_cores \<noteq> []" by code_simp
  from threads_run_a_period [OF sys_helper_threads.thread_contract_axioms sys_barrier_ctor sys_unread this r f(1,3) l]
  show ?thesis using d f by (intro exI [of _ t] exI [of _ B'] exI [of _ w'] exI [of _ hs'] exI [of _ h']) auto
qed

text \<open>
  POSIX leaves the handle undefined when a thread cannot be created, and \<open>run\<close> passes its own field to the
  call. If the system leaves anything but 0 there, \<open>add_worker\<close> cannot return its error: in every
  interleaving it stays in the barrier call or ends with the join of a thread that does not exist.
\<close>

lemma failed_stays:
  assumes "running_step H wake (s, B, w) l (t, B', w')" and "\<not> thread_event s l" and "ctl s = InBar pc (KAddRunFailed st)"
  shows "\<exists>pc. ctl t = InBar pc (KAddRunFailed st)"
  using assms(1)
proof cases
  case (caller_in pc' k pc2)
  then show ?thesis using assms(3) by simp
next
  case step_outside
  from step_outside(4) show ?thesis
  proof cases
    case step_caller
    then show ?thesis using assms(2,3) step_outside(3) by simp
  qed (use assms(3) in auto)
qed (use assms(3) in auto)

theorem failed_create_joins_garbage:
  assumes "ctl s = AddExec a c" and "0 \<le> arg_priority a" and "arg_priority a \<le> 100"
    and "thread_run H fixed_core (os_affinity a) (arg_priority a) (cpu_id_of (cores s ! c)) (num s) w = (res, h', w')"
    and "res \<noteq> 0" and "h' \<noteq> 0"
    and "life_step H wake finish fixed_core (s, B, w, hs, h) LCaller c1"
    and "run (life_step H wake finish fixed_core) c1 ls (t, B', w'', hs', h'')"
  shows "(\<exists>pc st. ctl t = InBar pc (KAddRunFailed st)) \<or> ctl t = Undefined InvalidHandle"
proof -
  have one: "(\<exists>pc st. ctl (fst d) = InBar pc (KAddRunFailed st)) \<and> snd (snd (snd (snd d))) \<noteq> 0 \<or> ctl (fst d) = Undefined InvalidHandle"
    if "life_step H wake finish fixed_core c l d"
      and "(\<exists>pc st. ctl (fst c) = InBar pc (KAddRunFailed st)) \<and> snd (snd (snd (snd c))) \<noteq> 0 \<or> ctl (fst c) = Undefined InvalidHandle"
    for c l d
    using that(1)
  proof cases
    case (life_other s B w t B' w' hs h)
    have "ctl s \<noteq> Undefined InvalidHandle" using running_dead [OF life_other(4)] by blast
    then have f: "\<exists>pc st. ctl s = InBar pc (KAddRunFailed st)" "h \<noteq> 0" using that(2) life_other(1) by auto
    then have "\<exists>pc st. ctl t = InBar pc (KAddRunFailed st)"
      using failed_stays [OF life_other(4,3)] by blast
    then show ?thesis using life_other(2) f(2) by simp
  next
    case (life_exit s i B w t B' w' hs h)
    then show ?thesis using that(2) leaves_step [OF life_exit(4,5)] by simp
  qed (use that(2) in auto)
  have all: "run (life_step H wake finish fixed_core) c ls d \<Longrightarrow>
      (\<exists>pc st. ctl (fst c) = InBar pc (KAddRunFailed st)) \<and> snd (snd (snd (snd c))) \<noteq> 0 \<or> ctl (fst c) = Undefined InvalidHandle \<Longrightarrow>
      (\<exists>pc st. ctl (fst d) = InBar pc (KAddRunFailed st)) \<and> snd (snd (snd (snd d))) \<noteq> 0 \<or> ctl (fst d) = Undefined InvalidHandle"
    for c d ls
    by (induction rule: run.induct) (use one in blast)+
  have "c1 = (add_exec (answered res a) c s, B, w', hs, h')"
    using assms(7) by cases (use assms(1,4,5) in auto)
  moreover have "\<exists>st. ctl (add_exec (answered res a) c s) = InBar (CLock (SetNoThreads (no_workers s))) (KAddRunFailed st)"
    using assms(2,3,5) by (simp add: add_exec_def)
  ultimately show ?thesis using all [OF assms(8)] assms(6) by auto
qed

end
