(* ===== verification/Worker_Trial.thy ===== *)
theory Worker_Trial
  imports Pool_Protocol
begin

text \<open>
  A new worker is on trial until \<open>add_worker\<close> has looked at its status
  (\<open>src/src/worker_pool_implementation.h\<close>): its thread waits at the barrier, which nobody releases
  before the status has been read, and if the status is not OK the release that follows lets it
  out of its loop and not into its callback.
\<close>

subsection \<open>The invariant\<close>

text \<open>The worker added last has not been released yet.\<close>

fun unreleased :: "ctl \<Rightarrow> bool" where
  "unreleased (InBar pc (KAddIdle c)) = True"
| "unreleased (InBar pc (KAddStopped c st)) = before_swap pc"
| "unreleased (AddStatus c) = True"
| "unreleased (AddStop c st) = True"
| "unreleased _ = False"

definition trial_inv :: "pool \<Rightarrow> bool" where
  "trial_inv s \<longleftrightarrow>
     (\<forall>i < num s. resolved (workers s ! i) = ATS_OK \<or> adding (ctl s) \<and> i = num s - 1) \<and>
     (adding (ctl s) \<longrightarrow> born (last_worker s) + (if unreleased (ctl s) then 0 else 1) = epoch s)"

text \<open>Steps that leave the workers' constants alone.\<close>

definition trial_data :: "pool \<Rightarrow> (apple_status \<times> nat) list" where
  "trial_data s = map (\<lambda>w. (resolved w, born w)) (workers s)"

lemma trial_data_nth:
  assumes "trial_data t = trial_data s"
  shows "num t = num s" and "i < num s \<Longrightarrow> resolved (workers t ! i) = resolved (workers s ! i)"
    and "i < num s \<Longrightarrow> born (workers t ! i) = born (workers s ! i)"
proof -
  show n: "num t = num s" using assms map_eq_imp_length_eq unfolding trial_data_def by blast
  assume "i < num s"
  with assms n have "(resolved (workers t ! i), born (workers t ! i)) = (resolved (workers s ! i), born (workers s ! i))"
    unfolding trial_data_def by (metis (no_types, lifting) nth_map)
  then show "resolved (workers t ! i) = resolved (workers s ! i)" "born (workers t ! i) = born (workers s ! i)"
    by simp_all
qed

lemma trial_frame:
  assumes inv: "trial_inv s" and pos: "adding (ctl t) \<Longrightarrow> num s > 0"
    and d: "trial_data t = trial_data s" and a: "adding (ctl t) = adding (ctl s)"
    and u: "adding (ctl s) \<Longrightarrow> epoch t + (if unreleased (ctl t) then 1 else 0) = epoch s + (if unreleased (ctl s) then 1 else 0)"
  shows "trial_inv t"
proof -
  note n = trial_data_nth [OF d]
  have "born (last_worker t) = born (last_worker s)" if "num s > 0"
    using that n(1) n(3) [of "num s - 1"] by (simp add: last_worker_def)
  then show ?thesis using inv pos n(1,2) a u unfolding trial_inv_def by (auto split: if_splits)
qed

lemma trial_worker:
  assumes "worker_step i go (workers s ! i) (bar s) = Some (w, b)" and "i < num s"
  shows "trial_data (s\<lparr>bar := b, workers := (workers s)[i := w]\<rparr>) = trial_data s"
  using assms worker_thread_running [OF assms(1)] resolved_worker [OF assms(1)]
  by (auto simp: trial_data_def nth_list_update intro!: nth_equalityI)

lemma trial_move:
  assumes "call_step pc (bar s) = Some (pc', b')" and "ctl s = InBar pc k" and "pool_inv s" and "pc \<noteq> CRet"
    and "adding (InBar pc k)"
  shows "(if is_swap pc then epoch s + 1 else epoch s) + (if unreleased (InBar pc' k) then 1 else (0 :: nat))
    = epoch s + (if unreleased (InBar pc k) then 1 else 0)"
proof -
  have c: "in_code (kcall (int (num s)) k) pc" using pool_invD(2) [OF assms(3)] assms(2) by (simp add: size_inv_def)
  have sw: "\<not> is_swap pc" if "\<not> is_release (kcall (int (num s)) k)"
    using c that by (cases pc) (auto simp: is_release_def split: if_splits)
  show ?thesis
  proof (cases k)
    case (KAddStopped c' st)
    then show ?thesis using assms(1,4) c by (cases pc) (auto split: if_splits)
  qed (use assms(5) sw in \<open>auto simp: is_release_def\<close>)
qed

lemma trial_stop_phase: "stop_phase c \<Longrightarrow> adding c"
  by (cases c rule: stop_phase.cases) auto

subsection \<open>It is kept by every step\<close>

lemma trial_caller:
  assumes st: "caller_step s = Some t" and inv: "pool_inv s" and tr: "trial_inv s"
  shows "trial_inv t"
proof (cases "ctl s")
  case (InBar pc k)
  show ?thesis
  proof (cases "pc = CRet")
    case True
    then show ?thesis using st InBar tr trial_frame [OF tr] by (cases k) (auto simp: caller_step_def trial_inv_def last_worker_def)
  next
    case False
    then obtain pc' b' where c: "call_step pc (bar s) = Some (pc', b')"
      and t: "t = s\<lparr>bar := b', ctl := InBar pc' k, epoch := (if is_swap pc then epoch s + 1 else epoch s)\<rparr>"
      using st InBar by (auto simp: caller_step_def split: option.splits)
    have "adding (InBar pc' k) = adding (InBar pc k)" by (cases k) auto
    moreover have "adding (InBar pc k) \<Longrightarrow> num s > 0" using pool_invD(2) [OF inv] InBar by (simp add: size_inv_def)
    ultimately show ?thesis using trial_move [OF c InBar inv False] t InBar
      by (intro trial_frame [OF tr]) (auto simp: trial_data_def)
  qed
next
  case (AddExec a c)
  then show ?thesis using st tr
    by (cases "run_worker a = 0") (auto simp: caller_step_def add_exec_def Let_def trial_inv_def new_worker_def nth_append last_worker_def less_Suc_eq)
next
  case (AddStatus c)
  have "status (last_worker s) = resolved (last_worker s)" using last_status_resolved [OF inv AddStatus] .
  then show ?thesis using st tr AddStatus
    by (auto simp: caller_step_def trial_inv_def last_worker_def split: if_splits)
next
  case (AddStop c x)
  have "trial_data t = trial_data s"
    using st AddStop
    by (auto simp: caller_step_def trial_data_def last_worker_def nth_list_update resolved_def
        split: option.split intro!: nth_equalityI)
  moreover have "num s > 0" using pool_invD(2) [OF inv] AddStop by (simp add: size_inv_def)
  ultimately show ?thesis using st AddStop by (intro trial_frame [OF tr]) (auto simp: caller_step_def)
next
  case (AddPop x)
  have "resolved (workers s ! i) = ATS_OK" if "i < num s - 1" for i
  proof -
    have "i < num s" "i \<noteq> num s - 1" using that by simp_all
    then show ?thesis using tr unfolding trial_inv_def by blast
  qed
  then show ?thesis using st AddPop by (auto simp: caller_step_def trial_inv_def nth_butlast split: if_splits)
qed (use st tr in \<open>auto simp: caller_step_def trial_inv_def last_worker_def split: if_splits\<close>)

lemma trial_step:
  assumes st: "pool_step s l t" and inv: "pool_inv s" and tr: "trial_inv s"
  shows "trial_inv t"
  using st
proof cases
  case step_caller
  then show ?thesis using trial_caller [OF _ inv tr] by simp
next
  case (step_worker i w b)
  have "adding (ctl s) \<Longrightarrow> num s > 0" using pool_invD(2) [OF inv] by (simp add: size_inv_def)
  then show ?thesis using step_worker(2) trial_worker [OF step_worker(5,4)] by (intro trial_frame [OF tr]) auto
next
  case (step_spurious b)
  have "adding (ctl s) \<Longrightarrow> num s > 0" using pool_invD(2) [OF inv] by (simp add: size_inv_def)
  then show ?thesis using step_spurious by (intro trial_frame [OF tr]) (auto simp: trial_data_def)
next
  case (step_call c)
  then show ?thesis using tr
    by (cases c) (auto simp: host_call_def trial_inv_def split: option.splits)
qed

interpretation trial_sys: invariant_system pool_step "new_pool cs" "\<lambda>s. pool_inv s \<and> trial_inv s" for cs
proof unfold_locales
  show "pool_inv (new_pool cs) \<and> trial_inv (new_pool cs)"
    using pool_inv_new [of cs] by (simp add: trial_inv_def new_pool_def)
qed (use pool_step_inv trial_step in blast)+

subsection \<open>Who calls back\<close>

lemma unreleased_no_call:
  assumes inv: "pool_inv s" and tr: "trial_inv s" and i: "i < num s" and bad: "resolved (workers s ! i) \<noteq> ATS_OK"
  shows "calls (workers s ! i) = 0" and "wpc (workers s ! i) \<noteq> WCallback"
proof -
  have a: "adding (ctl s)" and l: "i = num s - 1" using tr i bad by (auto simp: trial_inv_def)
  let ?w = "workers s ! i"
  have b: "born ?w + (if unreleased (ctl s) then 0 else 1) = epoch s"
    using tr a l by (simp add: trial_inv_def last_worker_def)
  have h: "calls ?w + born ?w + (if owes_call (1 - active_sem_idx (bar s)) (wpc ?w) then 1 else 0) = epoch s"
    using pool_invD(5) [OF inv] i by (simp add: hist_inv_def)
  have "calls ?w = 0 \<and> wpc ?w \<noteq> WCallback"
  proof (cases "unreleased (ctl s)")
    case True
    then show ?thesis using b h by (auto split: if_splits)
  next
    case False
    have "stop_phase (ctl s) \<and> swapped (ctl s)"
      using a False by (cases "ctl s" rule: adding.cases) auto
    then have "way_out (1 - active_sem_idx (bar s)) (thread_running ?w) (wpc ?w)"
      using pool_invD(4) [OF inv] i l unfolding stop_inv_def doomed_def by blast
    then show ?thesis using b h False
      by (cases "wpc ?w") (auto split: wait_pc.splits elim: way_out.elims)
  qed
  then show "calls ?w = 0" and "wpc ?w \<noteq> WCallback" by simp_all
qed

text \<open>
  C18. Only workers that were initialised work, in every interleaving: a thread whose initialisation
  failed never calls back, neither while \<open>add_worker\<close> waits for it nor on its way out; every
  callback is in a worker whose status is OK; and between two calls every worker of the pool has
  the status OK, or is still initialising and will have it.
\<close>

theorem only_initialised_call_back:
  assumes "reach pool_step (new_pool cs) s" and "i < num s"
  shows "(resolved (workers s ! i) \<noteq> ATS_OK \<longrightarrow> calls (workers s ! i) = 0 \<and> ctl s \<noteq> Host)
    \<and> (wpc (workers s ! i) = WCallback \<longrightarrow> status (workers s ! i) = ATS_OK)
    \<and> (ctl s = Host \<and> wpc (workers s ! i) \<noteq> WInit \<longrightarrow> status (workers s ! i) = ATS_OK)"
proof -
  have inv: "pool_inv s" "trial_inv s" using trial_sys.inv_reach [OF assms(1)] by simp_all
  have r: "resolved (workers s ! i) = status (workers s ! i)" if "wpc (workers s ! i) \<noteq> WInit"
    using pool_invD(6) [OF inv(1)] assms(2) that by (auto simp: status_inv_def resolved_def split: option.splits)
  have "resolved (workers s ! i) = ATS_OK" if "ctl s = Host"
    using inv(2) assms(2) that by (simp add: trial_inv_def)
  then show ?thesis using r unreleased_no_call [OF inv assms(2)] by force
qed

text \<open>A worker that fails to initialise, on its way out; and a worker in its callback.\<close>

definition failing :: "nat \<Rightarrow> pool" where
  "failing n = call_and_run n (AddWorker (good_args\<lparr>os_init := Some REALTIME_FAILED\<rparr>)) pool1"

lemma failing_reach: "reach pool_step (new_pool two_cores) (failing n)"
  unfolding failing_def using pool1_host
  by (intro host_reach_pool [OF call_and_run_reach [OF pool1_reach]]) auto

theorem only_initialised_call_back_witness:
  "wpc (workers (failing 51) ! 1) = WCheckThread \<and> calls (workers (failing 51) ! 1) = 0
   \<and> wpc (workers (midway 14) ! 0) = WCallback \<and> status (workers (midway 14) ! 0) = ATS_OK"
proof -
  have f: "wpc (workers (failing 51) ! 1) = WCheckThread" "num (failing 51) = 2"
    "resolved (workers (failing 51) ! 1) = REALTIME_FAILED" by code_simp+
  have m: "wpc (workers (midway 14) ! 0) = WCallback" "num (midway 14) = 2" by code_simp+
  show ?thesis
    using only_initialised_call_back [OF failing_reach, of 1 51] only_initialised_call_back [OF midway_reach, of 0 14] f m by simp
qed

end
