(* ===== verification/Pool_Hazards.thy ===== *)
theory Pool_Hazards
  imports Pool_Host Worker_Trial
begin

text \<open>
  The two defects of the error paths of \<open>add_worker\<close>, the second for every pool and every schedule, and
  what the pool does when it is used outside its contract, as concrete schedules.
\<close>

subsection \<open>Error paths of add_worker\<close>

definition bad_priority :: add_args where
  "bad_priority = good_args\<lparr>arg_priority := 101\<rparr>"

definition failing_init :: add_args where
  "failing_init = good_args\<lparr>os_init := Some REALTIME_FAILED\<rparr>"

text \<open>
  A worker whose thread cannot be started stays in the use count of its core: after a
  call with an invalid priority on an empty pool the call reports the error, the pool has
  no worker, and \<open>core_info\<close> reports one worker on core 0 (the count is only taken back
  when the initialisation of a started thread fails).
\<close>

theorem failed_start_stays_counted:
  "let s = call_and_run 60 (AddWorker bad_priority) (new_pool two_cores)
   in ctl s = Host \<and> ret s = Some (INVALID_ARGUMENTS, ATS_OK) \<and> workers s = []
      \<and> map cpu_workers (core_info s) = [1, 0]"
  by code_simp

subsection \<open>A failed initialisation\<close>

text \<open>
  The call of \<open>add_worker\<close> for a thread that starts and then fails to initialise, up to its return and
  afterwards: until \<open>_stop_thread\<close> has released the barrier there was no release, from then on one; and
  the workers other than the new one, with the releases before each of them, stay as they were.
\<close>

definition failing_add :: "apple_status \<Rightarrow> nat \<Rightarrow> nat list \<Rightarrow> pool \<Rightarrow> bool" where
  "failing_add st e bs s \<longleftrightarrow> (\<exists>u. ctl s = Undefined u) \<or>
     pool_inv s \<and> fst (predict s) = Some (POOL_ERROR, st) \<and>
     (case ctl s of
        Host \<Rightarrow> epoch s = e + 1 \<and> map born (workers s) = bs
      | InBar pc k \<Rightarrow> (\<exists>a c. k = KAddRun a c) \<or> (\<exists>r. k = KAddRunFailed r) \<or> adding (ctl s)
      | DtorFlag \<Rightarrow> False | DtorJoin i \<Rightarrow> False | Gone \<Rightarrow> False | _ \<Rightarrow> True) \<and>
     (ctl s \<noteq> Host \<longrightarrow>
        epoch s = e + (if adding (ctl s) \<and> \<not> unreleased (ctl s) then 1 else 0) \<and>
        map born (if adding (ctl s) then butlast (workers s) else workers s) = bs)"

lemma failing_add_frame:
  assumes "failing_add st e bs s" and "pool_inv t" and "fst (predict t) = fst (predict s)"
    and "ctl t = ctl s" and "epoch t = epoch s" and "map born (workers t) = map born (workers s)"
  shows "failing_add st e bs t"
  using assms by (cases "ctl s") (auto simp: failing_add_def map_butlast)

lemma failing_add_move:
  assumes fa: "failing_add st e bs s" and c: "ctl s = InBar pc k" and nr: "pc \<noteq> CRet" and inv: "pool_inv s"
    and m: "call_step pc (bar s) = Some (pc', b')" and p: "pool_inv (move_caller pc' b' pc k s)"
    and pr: "fst (predict (move_caller pc' b' pc k s)) = fst (predict s)"
  shows "failing_add st e bs (move_caller pc' b' pc k s)"
proof -
  have a: "adding (InBar pc' k) = adding (InBar pc k)" by (cases k) auto
  have "(if is_swap pc then epoch s + 1 else epoch s)
      = e + (if adding (InBar pc' k) \<and> \<not> unreleased (InBar pc' k) then 1 else 0)"
  proof (cases "adding (InBar pc k)")
    case True
    then show ?thesis using trial_move [OF m c inv nr True] fa c a by (auto simp: failing_add_def split: if_splits)
  next
    case False
    then have "\<not> is_release (kcall (int (num s)) k)" using fa c by (auto simp: failing_add_def is_release_def)
    moreover have "in_code (kcall (int (num s)) k) pc" using pool_invD(2) [OF inv] c by (simp add: size_inv_def)
    ultimately have "\<not> is_swap pc" by (cases pc) (auto simp: is_release_def split: if_splits)
    then show ?thesis using fa c a False by (auto simp: failing_add_def)
  qed
  then show ?thesis using fa c a p pr by (auto simp: failing_add_def)
qed

lemma failing_add_caller:
  assumes fa: "failing_add st e bs s" and stp: "caller_step s = Some t" and ok: "st \<noteq> ATS_OK"
  shows "failing_add st e bs t"
proof (cases "(\<exists>u. ctl s = Undefined u) \<or> (\<exists>u. ctl t = Undefined u)")
  case True
  then show ?thesis using stp by (auto simp: failing_add_def caller_step_def)
next
  case False
  then have inv: "pool_inv s" using fa by (auto simp: failing_add_def)
  have p: "pool_inv t" using pool_step_inv [OF step_caller [OF stp] inv] .
  have pr: "fst (predict t) = fst (predict s)" using predict_caller [OF inv stp] False by auto
  have f: "fst (predict s) = Some (POOL_ERROR, st)" using fa False by (auto simp: failing_add_def)
  show ?thesis
  proof (cases "ctl s")
    case (InBar pc k)
    show ?thesis
    proof (cases "pc = CRet")
      case True
      then have t: "t = resume k s" using InBar stp by (simp add: caller_step_def)
      have "k \<noteq> KAddRunFailed r" for r using f ok InBar by (auto simp: predict_def)
      then show ?thesis using fa InBar True p pr f t by (cases k) (auto simp: failing_add_def)
    next
      case nr: False
      then obtain pc' b' where m: "call_step pc (bar s) = Some (pc', b')" "t = move_caller pc' b' pc k s"
        using stp InBar by (auto simp: caller_step_def move_caller_def split: option.splits)
      show ?thesis unfolding m(2) by (rule failing_add_move [OF fa InBar nr inv m(1) p [unfolded m(2)] pr [unfolded m(2)]])
    qed
  next
    case (AddStatus c)
    have "status (last_worker s) = st"
      using f last_status_resolved [OF inv AddStatus] AddStatus
      by (auto simp: predict_def checked_outcome_def stopped_outcome_def split: if_splits)
    then show ?thesis using fa AddStatus stp p pr f ok by (auto simp: failing_add_def caller_step_def)
  next
    case (AddStop c x)
    have "map born (butlast ((workers s)[num s - Suc 0 := (last_worker s)\<lparr>thread_running := False\<rparr>])) = map born (butlast (workers s))"
      by (cases "workers s" rule: rev_cases) (auto simp: last_worker_def)
    then show ?thesis using fa AddStop stp p pr f by (auto simp: failing_add_def caller_step_def)
  qed (use fa stp p pr f False in \<open>auto simp: failing_add_def caller_step_def add_exec_def Let_def split: if_splits\<close>)
qed

lemma failing_add_step:
  assumes fa: "failing_add st e bs s" and stp: "pool_step s l t" and nc: "\<not> is_call l" and ok: "st \<noteq> ATS_OK"
  shows "failing_add st e bs t"
proof (cases "(\<exists>u. ctl s = Undefined u) \<or> (\<exists>u. ctl t = Undefined u)")
  case True
  then show ?thesis using undefined_stuck [OF stp] by (auto simp: failing_add_def)
next
  case False
  then have inv: "pool_inv s" using fa by (auto simp: failing_add_def)
  have p: "pool_inv t" by (rule pool_step_inv [OF stp inv])
  have pr: "fst (predict t) = fst (predict s)" using predict_step [OF stp inv nc] False by auto
  from stp show ?thesis
  proof cases
    case step_caller
    then show ?thesis using failing_add_caller [OF fa _ ok] by simp
  next
    case (step_worker i w b)
    then show ?thesis using born_put [OF step_worker(5,4)] by (intro failing_add_frame [OF fa p pr]) auto
  next
    case (step_spurious b)
    then show ?thesis by (intro failing_add_frame [OF fa p pr]) auto
  next
    case (step_call c)
    then show ?thesis using nc by simp
  qed
qed

lemma failing_add_run:
  "run pool_step s ls t \<Longrightarrow> failing_add st e bs s \<Longrightarrow> \<forall>l \<in> set ls. \<not> is_call l \<Longrightarrow> st \<noteq> ATS_OK \<Longrightarrow> failing_add st e bs t"
  by (induction rule: run.induct) (auto intro: failing_add_step)

lemma failing_add_call:
  assumes "pool_inv s" and "ctl s = Host" and "errno_to_worker_status (run_worker a) = WPS_OK" and "final_status a \<noteq> ATS_OK"
    and "\<And>k. arg_cpu a = Some k \<Longrightarrow> find_core k (cores s) \<noteq> length (cores s)"
  shows "failing_add (final_status a) (epoch s) (map born (workers s)) (host_call (AddWorker a) s)"
proof -
  have "pool_inv (host_call (AddWorker a) s)" by (rule pool_step_inv [OF step_call [OF assms(2)] assms(1)])
  moreover have "fst (predict (host_call (AddWorker a) s)) = Some (POOL_ERROR, final_status a)"
    using assms(3-5) predict_call [OF assms(2), of a]
    by (auto simp: add_worker_spec_def start_spec_def Let_def split: option.splits)
  ultimately show ?thesis using assms(5)
    by (cases "arg_cpu a") (auto simp: failing_add_def host_call_def)
qed

text \<open>A callback that a worker has been released for and has not made yet.\<close>

definition owed :: "pool \<Rightarrow> nat \<Rightarrow> nat" where
  "owed s i = (if owes_call (1 - active_sem_idx (bar s)) (wpc (workers s ! i)) then 1 else 0)"

lemma owed_calls: "pool_inv s \<Longrightarrow> i < num s \<Longrightarrow> calls (workers s ! i) + born (workers s ! i) + owed s i = epoch s"
  using pool_invD(5) by (auto simp: hist_inv_def owed_def)

lemma full_owes_nothing:
  assumes p: "pool_inv s" and h: "ctl s = Host" and f: "full s" and i: "i < num s"
  shows "owed s i = 0"
proof -
  have a: "parked_on (active_sem_idx (bar s)) (thr (wpc (workers s ! i)))"
    using full_parked [OF pool_invD(1) [OF p] _ f i] h by simp
  have "active_sem_idx (bar s) < 2"
    using barrier_invD(2) [OF pool_invD(1) [OF p]] by (simp add: gen_inv_def)
  then have "1 - active_sem_idx (bar s) \<noteq> active_sem_idx (bar s)" by arith
  then show ?thesis using a unfolding owed_def
    by (cases "wpc (workers s ! i)") (auto elim!: parked_on.elims)
qed

text \<open>A wake-up while the barrier is not full fails the assertion.\<close>

lemma wake_not_full:
  assumes "ctl s = Host" and "no_threads (bar s) = int (num s)" and "\<not> full s" and "owner (bar s) = None"
  shows "\<exists>u. exec [LCall WakeupAndWait, LCaller, LCaller] s = Some u \<and> ctl u = InBar CAbort KWakeWait"
  using assms by (simp add: exec_step_def host_call_def caller_step_def full_def)

text \<open>
  C26. A worker whose initialisation fails is stopped by a release of the whole barrier. So in every pool and
  every interleaving the call of \<open>add_worker\<close> that reports the failure makes every other worker run its
  callback once although the host has woken none: when the call returns, each has done one callback more than it had
  done or owed before, or still owes it; and whatever the schedule is, when no thread can move any more each has made it. And
  a wake-up right after the call, while a worker still owes it and no worker holds the mutex, fails the assertion of
  the barrier.
\<close>

theorem failed_init_wakes_the_others:
  assumes "reach pool_step (new_pool cs) s" and "ctl s = Host"
    and "errno_to_worker_status (run_worker a) = WPS_OK" and "final_status a \<noteq> ATS_OK"
    and "\<And>k. arg_cpu a = Some k \<Longrightarrow> find_core k (cores s) \<noteq> length (cores s)"
    and "run pool_step (host_call (AddWorker a) s) ls t" and "\<forall>l \<in> set ls. \<not> is_call l" and "ctl t = Host"
  shows "ret t = Some (POOL_ERROR, final_status a) \<and> num t = num s
    \<and> (\<forall>i < num s. calls (workers t ! i) + owed t i = calls (workers s ! i) + owed s i + 1)
    \<and> (\<forall>ms u. run pool_step t ms u \<and> (\<forall>l \<in> set ms. \<not> is_call l) \<and> \<not> can_work u \<longrightarrow>
         (\<forall>i < num s. calls (workers u ! i) = calls (workers s ! i) + owed s i + 1))
    \<and> (\<exists>ms u. run pool_step t ms u \<and> (\<forall>l \<in> set ms. work_label l) \<and> \<not> can_work u)
    \<and> ((\<exists>i < num s. owed t i = 1) \<and> owner (bar t) = None \<longrightarrow>
         (\<exists>u. exec [LCall WakeupAndWait, LCaller, LCaller] t = Some u \<and> ctl u = InBar CAbort KWakeWait))"
proof -
  note p = pool_reach_inv [OF assms(1)]
  have "failing_add (final_status a) (epoch s) (map born (workers s)) t"
    by (rule failing_add_run [OF assms(6) failing_add_call [OF p assms(2-5)] assms(7,4)])
  then have t: "pool_inv t" "fst (predict t) = Some (POOL_ERROR, final_status a)" "epoch t = epoch s + 1"
      "map born (workers t) = map born (workers s)"
    using assms(8) by (auto simp: failing_add_def)
  have n: "num t = num s" using map_eq_imp_length_eq [OF t(4)] .
  have born: "born (workers t ! i) = born (workers s ! i)" if "i < num s" for i using t(4) n that by (metis nth_map)
  have c: "calls (workers t ! i) + owed t i = calls (workers s ! i) + owed s i + 1" if "i < num s" for i
    using owed_calls [OF p that] owed_calls [OF t(1), of i] n born [OF that] t(3) that by simp
  have later: "calls (workers u ! i) = calls (workers s ! i) + owed s i + 1"
    if r: "run pool_step t ms u" "\<forall>l \<in> set ms. \<not> is_call l" and nw: "\<not> can_work u" and i: "i < num s" for ms u i
  proof -
    note f = host_run_frame [OF r(1) t(1) assms(8) r(2)]
    have "num u = num t" using f length_map by metis
    then have "born (workers u ! i) = born (workers t ! i)" "i < num u" using f i n by (metis nth_map, simp)
    then show ?thesis
      using host_blocked_idle(2) [OF pool_sys.inv_run [OF r(1) t(1)] _ nw, of i] f owed_calls [OF p i] born [OF i] t(3) by simp
  qed
  have wake: "\<exists>u. exec [LCall WakeupAndWait, LCaller, LCaller] t = Some u \<and> ctl u = InBar CAbort KWakeWait"
    if "\<exists>i < num s. owed t i = 1" "owner (bar t) = None"
  proof (rule wake_not_full [OF assms(8)])
    show "no_threads (bar t) = int (num t)" using pool_invD(2) [OF t(1)] assms(8) by (simp add: size_inv_def)
    show "\<not> full t" using that(1) full_owes_nothing [OF t(1) assms(8)] n by auto
  qed (rule that(2))
  have "ret t = Some (POOL_ERROR, final_status a)" using t(2) host_outcome [OF assms(8)] by simp
  then show ?thesis using n c later wake runs_out [OF t(1)] by blast
qed

text \<open>
  The schedule in which the new worker runs and the two others are slow: the call of
  \<open>add_worker\<close> up to its return.
\<close>

definition slow_workers :: "label list" where
  "slow_workers = replicate 11 LCaller @ replicate 6 (LWorker 2)
     @ replicate 24 LCaller @ replicate 3 (LWorker 2) @ [LCaller]"

theorem failed_init_wakes_the_others_witness:
  "\<exists>t u. \<exists>v :: pool. exec slow_workers (host_call (AddWorker failing_init) pool2) = Some t \<and> ret t = Some (POOL_ERROR, REALTIME_FAILED)
     \<and> exec [LCall WakeupAndWait, LCaller, LCaller] t = Some u \<and> ctl u = InBar CAbort KWakeWait
     \<and> calls (workers pool2 ! 1) = 0 \<and> calls (workers v ! 1) = 1"
proof -
  have "exec slow_workers (host_call (AddWorker failing_init) pool2) \<noteq> None" by code_simp
  then obtain t where t: "exec slow_workers (host_call (AddWorker failing_init) pool2) = Some t" by blast
  have "map_option (\<lambda>t. (ctl t, owed t 0, owner (bar t))) (exec slow_workers (host_call (AddWorker failing_init) pool2)) = Some (Host, 1, None)"
    by code_simp
  then have f: "ctl t = Host" "owed t 0 = 1" "owner (bar t) = None" by (simp_all add: t)
  have a: "errno_to_worker_status (run_worker failing_init) = WPS_OK" "arg_cpu failing_init = None" by code_simp+
  have st: "final_status failing_init = REALTIME_FAILED" by code_simp
  then have ne: "final_status failing_init \<noteq> ATS_OK" by simp
  have c: "find_core k (cores pool2) \<noteq> length (cores pool2)" if "arg_cpu failing_init = Some k" for k using that a(2) by simp
  have w: "calls (workers pool2 ! 1) = 0" "owed pool2 1 = 0" by code_simp+
  have l: "\<forall>l \<in> set slow_workers. \<not> is_call l" by code_simp
  have n: "num pool2 = 2" "ctl pool2 = Host" using pool2_host by simp_all
  note e = failed_init_wakes_the_others [OF host_reach_pool [OF pool2_reach] n(2) a(1) ne c exec_run [OF t] l f(1), unfolded n(1) st]
  from e obtain ms v where v: "run pool_step t ms v" "\<forall>l \<in> set ms. work_label l" "\<not> can_work v" by blast
  have "\<forall>l \<in> set ms. \<not> is_call l" using v(2) work_not_call by blast
  then have "\<forall>i < 2. calls (workers v ! i) = calls (workers pool2 ! i) + owed pool2 i + 1" using e v(1,3) by blast
  then have "calls (workers v ! 1) = 1" using w by simp
  moreover have "ret t = Some (POOL_ERROR, REALTIME_FAILED)" using e by blast
  moreover have "\<exists>i < 2. owed t i = 1" using f(2) by (intro exI [of _ 0]) simp
  then obtain u where "exec [LCall WakeupAndWait, LCaller, LCaller] t = Some u" "ctl u = InBar CAbort KWakeWait"
    using e f(3) by blast
  ultimately show ?thesis using t w(1) by blast
qed

subsection \<open>Outside the contract\<close>

text \<open>
  The assertion is reachable by a host that wakes the workers twice without waiting in
  between, and a pool with no cores dereferences the end of its core list on the first
  call of \<open>add_worker\<close> that names no core: the two conditions of the documented use are
  needed.
\<close>

theorem contract_is_needed:
  "map_option ctl (exec (LCall WakeupWorkers # replicate 10 LCaller @ [LCall WakeupWorkers, LCaller, LCaller]) pool2) =
     Some (InBar CAbort KWakeup)
   \<and> map_option ctl (exec (LCall (AddWorker good_args) # replicate 5 LCaller) (new_pool [])) =
     Some (Undefined PastEndIterator)"
proof
  show "map_option ctl (exec (LCall WakeupWorkers # replicate 10 LCaller @ [LCall WakeupWorkers, LCaller, LCaller]) pool2) =
     Some (InBar CAbort KWakeup)" by code_simp
  show "map_option ctl (exec (LCall (AddWorker good_args) # replicate 5 LCaller) (new_pool [])) =
     Some (Undefined PastEndIterator)" by code_simp
qed

end
