(* ===== verification/Rt_State.thy ===== *)
theory Rt_State
  imports Twine_Types
begin

text \<open>
  The realtime state of \<open>src/twine.cpp\<close> and \<open>src/twine_internal.h\<close>: the flag
  \<open>running_xenomai_realtime\<close> and what depends on it (which thread library and which
  condition variable are used, which clock is read), the thread-local counter of
  \<open>ThreadRtFlag\<close>, and the version strings. The build configuration, the clocks and the
  generated version numbers are arguments.
\<close>

subsection \<open>Build configuration and the realtime flag\<close>

text \<open>
  The preprocessor symbols \<open>TWINE_BUILD_WITH_XENOMAI\<close>, \<open>TWINE_BUILD_WITH_EVL\<close> and
  \<open>TWINE_WINDOWS_THREADING\<close>, of which a build defines at most one.
\<close>

datatype build = Posix_Build | Xenomai_Build | Evl_Build | Windows_Build

datatype failure = Undefined_Behaviour ub | Assertion string | Runtime_Error string

text \<open>\<open>XenomaiRtFlag\<close>: one static flag, false at the start.\<close>

definition xenomai_flag_set :: "bool \<Rightarrow> bool \<Rightarrow> bool" where
  "xenomai_flag_set enabled flag = enabled"

definition initial_flag :: bool where
  "initial_flag = False"

definition init_xenomai :: "build \<Rightarrow> bool \<Rightarrow> bool" where
  "init_xenomai b flag =
     (if b = Xenomai_Build \<or> b = Evl_Build then xenomai_flag_set True flag else flag)"

text \<open>The thread type of the pool \<open>create_worker_pool\<close> makes.\<close>

definition pool_type :: "build \<Rightarrow> bool \<Rightarrow> failure + thread_type" where
  "pool_type b flag =
     (if b = Xenomai_Build \<and> flag then Inr COBALT
      else if b = Evl_Build \<and> flag then Inr EVL
      else if b = Windows_Build then Inl (Runtime_Error ''Worker pool not enabled for windows'')
      else Inr PTHREAD)"

datatype cond_var_class =
  XenomaiConditionVariable | EvlConditionVariable | StdConditionVariable | PosixSemaphoreConditionVariable

text \<open>The class of the object \<open>create_rt_condition_variable\<close> makes.\<close>

definition cond_var_type :: "build \<Rightarrow> bool \<Rightarrow> cond_var_class" where
  "cond_var_type b flag =
     (if b = Xenomai_Build \<and> flag then XenomaiConditionVariable
      else if b = Evl_Build \<and> flag then EvlConditionVariable
      else if b = Windows_Build then StdConditionVariable
      else PosixSemaphoreConditionVariable)"

subsection \<open>Time\<close>

abbreviation INT64_MAX :: int where
  "INT64_MAX \<equiv> 9223372036854775807"

abbreviation INT64_MIN :: int where
  "INT64_MIN \<equiv> - 9223372036854775808"

record timespec =
  tv_sec :: int
  tv_nsec :: int

definition NS_TO_S :: int where
  "NS_TO_S = 1000000000"

definition in_int64 :: "int \<Rightarrow> bool" where
  "in_int64 x \<longleftrightarrow> INT64_MIN \<le> x \<and> x \<le> INT64_MAX"

text \<open>\<open>tp.tv_nsec + tp.tv_sec * NS_TO_S\<close> in 64-bit signed arithmetic.\<close>

definition timespec_to_ns :: "timespec \<Rightarrow> failure + int" where
  "timespec_to_ns tp =
     (let p = tv_sec tp * NS_TO_S
      in if in_int64 p \<and> in_int64 (tv_nsec tp + p) then Inr (tv_nsec tp + p)
         else Inl (Undefined_Behaviour SignedOverflow))"

definition current_rt_time :: "build \<Rightarrow> bool \<Rightarrow> timespec \<Rightarrow> int \<Rightarrow> failure + int" where
  "current_rt_time b flag monotonic steady_now =
     (if flag
      then (if b = Xenomai_Build \<or> b = Evl_Build then timespec_to_ns monotonic
            else Inl (Assertion ''Xenomai realtime set without a RT build''))
      else Inr steady_now)"

subsection \<open>rt_printf\<close>

text \<open>
  The header declares \<open>rt_printf\<close> for every build. The Xenomai build defines the function, as a
  call of \<open>rt_vfprintf\<close> with \<open>stdout\<close>; in the others \<open>src/twine.cpp\<close> only has a macro of that name
  after its includes, which renames nothing else in the file and no use in another one. The
  value is the function that a program linked with the library calls, None if there is none.
\<close>

definition rt_printf :: "build \<Rightarrow> (string \<Rightarrow> 'a \<Rightarrow> 'w \<Rightarrow> int \<times> 'w) \<Rightarrow> (string \<Rightarrow> 'a \<Rightarrow> 'w \<Rightarrow> int \<times> 'w) option" where
  "rt_printf b rt_vfprintf =
     (if b = Xenomai_Build then Some (\<lambda>format args w. let (n, w') = rt_vfprintf format args w in (n, w')) else None)"

lemma rt_printf_defined: "rt_printf b printer = (if b = Xenomai_Build then Some printer else None)"
  by (simp add: rt_printf_def)

subsection \<open>ThreadRtFlag\<close>

definition rt_flag_ctor :: "int \<Rightarrow> failure + int" where
  "rt_flag_ctor n = (if n = INT_MAX then Inl (Undefined_Behaviour SignedOverflow) else Inr (n + 1))"

definition rt_flag_dtor :: "int \<Rightarrow> failure + int" where
  "rt_flag_dtor n = (if n = INT_MIN then Inl (Undefined_Behaviour SignedOverflow) else Inr (n - 1))"

definition is_realtime :: "int \<Rightarrow> bool" where
  "is_realtime n \<longleftrightarrow> n > 0"

text \<open>Every thread has a counter of its own; objects are made and destroyed in any order.\<close>

datatype rt_op = MakeFlag nat | DropFlag nat

fun rt_op_step :: "rt_op \<Rightarrow> (nat \<Rightarrow> int) \<Rightarrow> failure + (nat \<Rightarrow> int)" where
  "rt_op_step (MakeFlag i) c =
     (case rt_flag_ctor (c i) of Inl f \<Rightarrow> Inl f | Inr n \<Rightarrow> Inr (c(i := n)))"
| "rt_op_step (DropFlag i) c =
     (case rt_flag_dtor (c i) of Inl f \<Rightarrow> Inl f | Inr n \<Rightarrow> Inr (c(i := n)))"

fun rt_ops :: "rt_op list \<Rightarrow> (nat \<Rightarrow> int) \<Rightarrow> failure + (nat \<Rightarrow> int)" where
  "rt_ops [] c = Inr c"
| "rt_ops (x # xs) c = (case rt_op_step x c of Inl f \<Rightarrow> Inl f | Inr d \<Rightarrow> rt_ops xs d)"

definition is_current_thread_realtime :: "nat \<Rightarrow> (nat \<Rightarrow> int) \<Rightarrow> bool" where
  "is_current_thread_realtime i c = is_realtime (c i)"

subsection \<open>Version\<close>

record version_info =
  major :: int
  minor :: int
  revision :: int

definition twine_version :: "int \<Rightarrow> int \<Rightarrow> int \<Rightarrow> version_info" where
  "twine_version maj mnr rvs = \<lparr>major = maj, minor = mnr, revision = rvs\<rparr>"

text \<open>The texts the preprocessor inserts for the version numbers, the time and the commit.\<close>

definition build_info :: "string \<Rightarrow> string \<Rightarrow> string \<Rightarrow> string \<Rightarrow> string \<Rightarrow> string" where
  "build_info maj mnr rvs timestamp commit =
     ''Twine - version '' @ maj @ ''.'' @ mnr @ ''.'' @ rvs @ '', built on '' @ timestamp
     @ '' from commit: '' @ commit"

subsection \<open>Flags alive in a thread\<close>

fun alive :: "rt_op list \<Rightarrow> nat \<Rightarrow> int" where
  "alive [] i = 0"
| "alive (MakeFlag j # xs) i = (if j = i then 1 else 0) + alive xs i"
| "alive (DropFlag j # xs) i = (if j = i then - 1 else 0) + alive xs i"

text \<open>No object is destroyed before it is made, and a thread never has \<open>INT_MAX\<close> of them.\<close>

definition proper :: "rt_op list \<Rightarrow> bool" where
  "proper xs \<longleftrightarrow> (\<forall>n \<le> length xs. \<forall>i. 0 \<le> alive (take n xs) i \<and> alive (take n xs) i \<le> INT_MAX)"

lemma rt_ops_alive:
  assumes "\<forall>n \<le> length xs. \<forall>i. 0 \<le> c i + alive (take n xs) i \<and> c i + alive (take n xs) i \<le> INT_MAX"
  shows "rt_ops xs c = Inr (\<lambda>i. c i + alive xs i)"
  using assms
proof (induction xs arbitrary: c)
  case (Cons x xs)
  obtain d where d: "rt_op_step x c = Inr d" "\<And>i. d i = c i + alive [x] i"
  proof (cases x)
    case (MakeFlag j)
    have "c j + 1 \<le> INT_MAX" using Cons.prems [THEN spec [of _ 1]] MakeFlag by (auto dest: spec [of _ j])
    then show thesis using that [of "c(j := c j + 1)"] MakeFlag by (simp add: rt_flag_ctor_def)
  next
    case (DropFlag j)
    have "0 \<le> c j - 1" using Cons.prems [THEN spec [of _ 1]] DropFlag by (auto dest: spec [of _ j])
    then show thesis using that [of "c(j := c j - 1)"] DropFlag by (simp add: rt_flag_dtor_def)
  qed
  have split: "alive (x # ys) i = alive [x] i + alive ys i" for ys i by (cases x) auto
  have "\<forall>n \<le> length xs. \<forall>i. 0 \<le> d i + alive (take n xs) i \<and> d i + alive (take n xs) i \<le> INT_MAX"
  proof (intro allI impI)
    fix n i
    assume "n \<le> length xs"
    then show "0 \<le> d i + alive (take n xs) i \<and> d i + alive (take n xs) i \<le> INT_MAX"
      using Cons.prems [rule_format, of "Suc n" i] d(2) [of i] split [of "take n xs" i] by simp
  qed
  then have "rt_ops xs d = Inr (\<lambda>i. d i + alive xs i)" by (rule Cons.IH)
  moreover have "(\<lambda>i. d i + alive xs i) = (\<lambda>i. c i + alive (x # xs) i)"
    by (rule ext) (metis add.assoc d(2) split)
  ultimately show ?case using d(1) by simp
qed simp

subsection \<open>Properties\<close>

text \<open>
  A thread counts as realtime exactly while a \<open>ThreadRtFlag\<close> object of that thread is
  alive, however the objects nest or overlap, and whatever the other threads do.
\<close>

theorem realtime_while_alive:
  assumes "proper xs"
  shows "\<exists>c. rt_ops xs (\<lambda>_. 0) = Inr c \<and> (\<forall>i. is_current_thread_realtime i c \<longleftrightarrow> alive xs i > 0)"
  using rt_ops_alive [of xs "\<lambda>_. 0"] assms
  by (auto simp: proper_def is_current_thread_realtime_def is_realtime_def)

theorem realtime_while_alive_witness:
  "\<exists>c. rt_ops [MakeFlag 0, MakeFlag 0, DropFlag 0] (\<lambda>_. 0) = Inr c
     \<and> is_current_thread_realtime 0 c \<and> \<not> is_current_thread_realtime 1 c"
proof -
  have "proper [MakeFlag 0, MakeFlag 0, DropFlag 0]"
    by (auto simp: proper_def le_Suc_eq)
  from realtime_while_alive [OF this] show ?thesis by auto
qed

text \<open>
  Whatever the build and however often \<open>init_xenomai\<close> is called: the realtime thread
  library and condition variable of the build are used exactly after a first call of
  \<open>init_xenomai\<close> in a realtime build, the pool and the condition variable come from the same
  library, and the assertion of \<open>current_rt_time\<close> cannot fail, since the flag is never set in
  other builds.
\<close>

theorem backend_selection:
  "let flag = (init_xenomai b ^^ n) initial_flag
   in flag = (n > 0 \<and> b \<in> {Xenomai_Build, Evl_Build})
      \<and> (pool_type b flag = Inr COBALT \<longleftrightarrow> cond_var_type b flag = XenomaiConditionVariable)
      \<and> (pool_type b flag = Inr EVL \<longleftrightarrow> cond_var_type b flag = EvlConditionVariable)
      \<and> (pool_type b flag = Inr PTHREAD \<longleftrightarrow> cond_var_type b flag = PosixSemaphoreConditionVariable)
      \<and> (cond_var_type b flag = StdConditionVariable \<longleftrightarrow> b = Windows_Build)
      \<and> current_rt_time b flag ts now \<noteq> Inl (Assertion msg)"
proof -
  have "(init_xenomai b ^^ n) initial_flag = (n > 0 \<and> b \<in> {Xenomai_Build, Evl_Build})"
    by (induction n) (auto simp: init_xenomai_def initial_flag_def xenomai_flag_set_def)
  then show ?thesis
    by (cases b) (auto simp: Let_def pool_type_def cond_var_type_def current_rt_time_def timespec_to_ns_def)
qed

text \<open>
  The clock value of a realtime build is computed without overflow, for every time the
  clock can show up to the year 2262, and keeps the order of the clock: a later reading gives
  a larger number of nanoseconds.
\<close>

theorem rt_time_exact:
  assumes "b = Xenomai_Build \<or> b = Evl_Build"
    and "0 \<le> tv_sec s" and "0 \<le> tv_nsec s" and "tv_nsec s < NS_TO_S"
    and "tv_sec s < tv_sec t \<or> tv_sec s = tv_sec t \<and> tv_nsec s < tv_nsec t"
    and "tv_sec t \<le> 9223372035" and "0 \<le> tv_nsec t" and "tv_nsec t < NS_TO_S"
  shows "\<exists>x y. current_rt_time b True s now = Inr x \<and> current_rt_time b True t now = Inr y \<and> x < y
    \<and> x div NS_TO_S = tv_sec s \<and> x mod NS_TO_S = tv_nsec s"
  using assms by (auto simp: current_rt_time_def timespec_to_ns_def in_int64_def NS_TO_S_def Let_def)

theorem rt_time_exact_witness:
  "\<exists>x y. current_rt_time Evl_Build True \<lparr>tv_sec = 1, tv_nsec = 999999999\<rparr> 0 = Inr x
     \<and> current_rt_time Evl_Build True \<lparr>tv_sec = 2, tv_nsec = 0\<rparr> 0 = Inr y \<and> x < y"
  using rt_time_exact [of Evl_Build "\<lparr>tv_sec = 1, tv_nsec = 999999999\<rparr>" "\<lparr>tv_sec = 2, tv_nsec = 0\<rparr>" 0]
  by (auto simp: NS_TO_S_def)

end
