(* ===== verification/Apple_Threading.thy ===== *)
theory Apple_Threading
  imports Complex_Main Pool_Contract Rt_State
begin

text \<open>
  \<open>src/apple_threading.cpp\<close>, and the parts of the worker thread that use it
  (\<open>src/worker_pool_implementation.h\<close>: the end of the constructor, \<open>_init_apple_thread\<close> and
  the leaving of the workgroup). What macOS answers is a record; a workgroup is a number.
\<close>

subsection \<open>Setting a thread to realtime\<close>

abbreviation UINT32_MAX :: int where
  "UINT32_MAX \<equiv> 4294967295"

record time_constraint_policy =
  period :: int
  computation :: int
  constraint :: int
  preemptible :: bool

text \<open>
  Floating-point results are the exact results of each operation rounded by \<open>rnd\<close>; the
  conversion to \<open>uint32_t\<close> truncates.
\<close>

definition ticks_per_ms :: "(rat \<Rightarrow> rat) \<Rightarrow> int \<Rightarrow> int \<Rightarrow> rat" where
  "ticks_per_ms rnd numer denom = rnd (rnd (of_int denom * 1000000) / of_int numer)"

definition realtime_policy :: "(rat \<Rightarrow> rat) \<Rightarrow> int \<Rightarrow> int \<Rightarrow> rat \<Rightarrow> time_constraint_policy" where
  "realtime_policy rnd numer denom period_ms =
     (let period_ticks = \<lfloor>min (of_int UINT32_MAX) (rnd (period_ms * ticks_per_ms rnd numer denom))\<rfloor>
      in \<lparr>period = period_ticks, computation = period_ticks, constraint = period_ticks, preemptible = True\<rparr>)"

definition KERN_SUCCESS :: int where
  "KERN_SUCCESS = 0"

definition set_current_thread_to_realtime ::
  "(rat \<Rightarrow> rat) \<Rightarrow> int \<Rightarrow> int \<Rightarrow> (time_constraint_policy \<Rightarrow> int) \<Rightarrow> rat \<Rightarrow> bool" where
  "set_current_thread_to_realtime rnd numer denom thread_policy_set period_ms =
     (thread_policy_set (realtime_policy rnd numer denom period_ms) = KERN_SUCCESS)"

subsection \<open>Strings\<close>

text \<open>
  A \<open>CFString\<close>: the pointer of \<open>CFStringGetCStringPtr\<close>, if any, whether
  \<open>CFStringGetCString\<close> succeeds, and the buffer of \<open>max_size\<close> characters after it.
\<close>

record cf_string =
  cf_c_string_ptr :: "string option"
  cf_get_c_string :: bool
  cf_buffer :: string

definition nul :: char where
  "nul = CHR 0x00"

definition cf_string_to_std_string :: "cf_string option \<Rightarrow> string" where
  "cf_string_to_std_string cf =
     (case cf of
        None \<Rightarrow> ''''
      | Some s \<Rightarrow>
          (case cf_c_string_ptr s of
             Some c_string \<Rightarrow> c_string
           | None \<Rightarrow>
               (if \<not> cf_get_c_string s then ''''
                else takeWhile (\<lambda>c. c \<noteq> nul) (cf_buffer s))))"

subsection \<open>The workgroup of a device\<close>

text \<open>The answers for one audio device; sizes in bytes, \<open>OSStatus\<close> 0 is \<open>noErr\<close>.\<close>

record audio_device =
  name_size_status :: int
  name_size :: nat
  name_status :: int
  name_ref :: "cf_string option"
  wg_size_status :: int
  wg_status :: int
  wg_handle :: nat
  wg_cancelled :: bool

text \<open>
  The system: the version, the answers for the device list (status and size, status and size
  after fetching it, the ids it holds) and the devices.
\<close>

record audio_system =
  macos_11 :: bool
  devices_size_status :: int
  devices_size :: nat
  devices_status :: int
  devices_size_after :: nat
  device_ids :: "nat list"
  device_of :: "nat \<Rightarrow> audio_device"

definition SIZEOF_AUDIO_OBJECT_ID :: nat where
  "SIZEOF_AUDIO_OBJECT_ID = 4"

definition SIZEOF_CF_STRING_REF :: nat where
  "SIZEOF_CF_STRING_REF = 8"

fun find_workgroup :: "(nat \<Rightarrow> audio_device) \<Rightarrow> string \<Rightarrow> nat list \<Rightarrow> nat option \<times> apple_status" where
  "find_workgroup dev device_name [] = (None, INVALID_DEVICE_NAME_PASSED)"
| "find_workgroup dev device_name (i # ids) =
     (if name_size_status (dev i) \<noteq> 0 then (None, FETCH_NAME_SIZE_FAILED)
      else if name_size (dev i) \<noteq> SIZEOF_CF_STRING_REF then (None, FETCH_NAME_SIZE_FAILED)
      else if name_status (dev i) \<noteq> 0 \<or> name_ref (dev i) = None then (None, FETCH_NAME_FAILED)
      else if cf_string_to_std_string (name_ref (dev i)) = device_name
      then (if wg_size_status (dev i) \<noteq> 0 then (None, WG_SIZE_FAILED)
            else if wg_status (dev i) \<noteq> 0 then (None, WG_FAILED)
            else if wg_cancelled (dev i) then (Some (wg_handle (dev i)), WG_CANCELLED)
            else (Some (wg_handle (dev i)), ATS_OK))
      else find_workgroup dev device_name ids)"

text \<open>The vector of ids has \<open>device_count\<close> elements, zero where the system wrote nothing.\<close>

definition get_device_workgroup :: "audio_system \<Rightarrow> string \<Rightarrow> nat option \<times> apple_status" where
  "get_device_workgroup sys device_name =
     (if macos_11 sys then
        (if devices_size_status sys \<noteq> 0 then (None, PD_SIZE_FAILED)
         else
           (let device_count = devices_size sys div SIZEOF_AUDIO_OBJECT_ID;
                ids = take device_count (device_ids sys @ replicate device_count 0)
            in if devices_status sys \<noteq> 0 then (None, PD_FAILED)
               else if devices_size_after sys div SIZEOF_AUDIO_OBJECT_ID \<noteq> device_count
               then (None, PD_SIZE_FAILED)
               else find_workgroup (device_of sys) device_name ids))
      else (None, MACOS_11_NOT_DETECTED))"

subsection \<open>Joining and leaving\<close>

text \<open>
  In a build with CoreAudio (\<open>True\<close>) or without. The result of \<open>os_workgroup_testcancel\<close>
  and of \<open>os_workgroup_join\<close> are given. \<open>Inl\<close> is the failed assertion.
\<close>

definition join_workgroup :: "bool \<Rightarrow> bool \<Rightarrow> nat option \<Rightarrow> bool \<Rightarrow> int \<Rightarrow> failure + apple_status" where
  "join_workgroup coreaudio macos11 p_workgroup cancelled join_result =
     (if coreaudio then
        (if macos11 then
           (if p_workgroup = None then Inr NO_WORKGROUP_PASSED
            else if \<not> cancelled
            then (if join_result = 0 then Inr ATS_OK
                  else if join_result = EINVAL then Inr WORKGROUP_ALREADY_CANCELLED
                  else if join_result = EALREADY then Inl (Assertion ''false'')
                  else Inr WORKGROUP_JOINING_UNKNOWN_FAILURE)
            else Inr WORKGROUP_ALREADY_CANCELLED)
         else Inr EMPTY)
      else Inr ATS_OK)"

text \<open>Whether the thread is a member of the workgroup after \<open>join_workgroup\<close>.\<close>

definition joined :: "bool \<Rightarrow> bool \<Rightarrow> nat option \<Rightarrow> bool \<Rightarrow> int \<Rightarrow> bool" where
  "joined coreaudio macos11 p_workgroup cancelled join_result \<longleftrightarrow>
     coreaudio \<and> macos11 \<and> p_workgroup \<noteq> None \<and> \<not> cancelled \<and> join_result = 0"

text \<open>The call \<open>os_workgroup_leave\<close>, if it is made.\<close>

definition leave_workgroup_if_needed :: "bool \<Rightarrow> nat option \<Rightarrow> nat option" where
  "leave_workgroup_if_needed macos11 p_workgroup =
     (if p_workgroup \<noteq> None then (if macos11 then p_workgroup else None) else None)"

subsection \<open>Messages\<close>

definition status_to_string :: "apple_status \<Rightarrow> string" where
  "status_to_string st =
     (case st of
        ATS_OK \<Rightarrow> ''Successfully fetched the audio workgroup''
      | WG_CANCELLED \<Rightarrow> ''The fetched audio workgroup has been cancelled''
      | WG_FAILED \<Rightarrow> ''Failed fetching the audio workgroup''
      | WG_SIZE_FAILED \<Rightarrow> ''Failed fetching the audio workgroup property data size''
      | FETCH_NAME_SIZE_FAILED \<Rightarrow> ''Failed fetching an audio device name's size''
      | FETCH_NAME_FAILED \<Rightarrow> ''Failed fetching an audio device name''
      | PD_FAILED \<Rightarrow> ''Failed fetching the kAudioObjectSystemObject property data''
      | PD_SIZE_FAILED \<Rightarrow> ''Failed fetching the kAudioObjectSystemObject property data size''
      | MACOS_11_NOT_DETECTED \<Rightarrow>
          ''MacOS version 11.0 and up is required to fetch workgroup info for a device''
      | REALTIME_OK \<Rightarrow> ''Setting Apple thread realtime status succeeded''
      | REALTIME_FAILED \<Rightarrow> ''Failed setting thread realtime status''
      | NO_WORKGROUP_PASSED \<Rightarrow> ''No Apple real-time workgroup was passed''
      | WORKGROUP_ALREADY_CANCELLED \<Rightarrow> ''Attempting to join thread workgroup that is already canceled''
      | WORKGROUP_JOINING_UNKNOWN_FAILURE \<Rightarrow> ''Unknown error when joining workgroup''
      | _ \<Rightarrow> '''')"

subsection \<open>The worker thread on macOS\<close>

text \<open>The status and the workgroup after the constructor of the worker.\<close>

definition apple_worker_ctor :: "bool \<Rightarrow> audio_system \<Rightarrow> string \<Rightarrow> apple_status \<times> nat option" where
  "apple_worker_ctor coreaudio sys device_name =
     (if coreaudio then
        (if macos_11 sys then
           (case get_device_workgroup sys device_name of
              (wg, st) \<Rightarrow> ((if st \<noteq> ATS_OK then st else ATS_OK), wg))
         else (ATS_OK, None))
      else (ATS_OK, None))"

text \<open>The period given to the scheduler, at least a millisecond; the assertions come first.\<close>

definition worker_period_ms :: "(rat \<Rightarrow> rat) \<Rightarrow> int \<Rightarrow> rat \<Rightarrow> failure + rat" where
  "worker_period_ms rnd chunk_size sample_rate =
     (if chunk_size = 0 then Inl (Assertion ''_apple_data.chunk_size != 0'')
      else if sample_rate = 0 then Inl (Assertion ''_apple_data.current_sample_rate != 0'')
      else Inr (max (rnd (rnd (1000 * of_int chunk_size) / sample_rate)) 1))"

text \<open>
  \<open>_init_apple_thread\<close>: what it stores in \<open>_status\<close>, if anything, from the result of
  setting the thread to realtime and the status of joining.
\<close>

definition init_apple_thread :: "bool \<Rightarrow> bool \<Rightarrow> apple_status \<Rightarrow> apple_status option" where
  "init_apple_thread realtime_ok macos11 join_status =
     (let after_rt = (if realtime_ok = False then Some REALTIME_FAILED else None)
      in if macos11 then (if join_status \<noteq> ATS_OK then Some join_status else after_rt)
         else after_rt)"

text \<open>The arguments of \<open>add_worker\<close> in the macOS build, where no affinity is set.\<close>

definition apple_add_args ::
  "bool \<Rightarrow> audio_system \<Rightarrow> string \<Rightarrow> int \<Rightarrow> int option \<Rightarrow> int \<Rightarrow> bool \<Rightarrow> apple_status \<Rightarrow> add_args" where
  "apple_add_args coreaudio sys device_name prio cpu create_result realtime_ok join_status =
     \<lparr>arg_priority = prio, arg_cpu = cpu, os_affinity = 0, os_create = create_result,
      ctor_status = fst (apple_worker_ctor coreaudio sys device_name),
      os_init = init_apple_thread realtime_ok (macos_11 sys) join_status\<rparr>"

subsection \<open>Finding the device\<close>

text \<open>The device answers, and has another name.\<close>

definition other_name :: "audio_device \<Rightarrow> string \<Rightarrow> bool" where
  "other_name d device_name \<longleftrightarrow> name_size_status d = 0 \<and> name_size d = SIZEOF_CF_STRING_REF
     \<and> name_status d = 0 \<and> name_ref d \<noteq> None \<and> cf_string_to_std_string (name_ref d) \<noteq> device_name"

text \<open>The device answers, has the name, and has a workgroup that is not cancelled.\<close>

definition good_device :: "audio_device \<Rightarrow> string \<Rightarrow> bool" where
  "good_device d device_name \<longleftrightarrow> name_size_status d = 0 \<and> name_size d = SIZEOF_CF_STRING_REF
     \<and> name_status d = 0 \<and> name_ref d \<noteq> None \<and> cf_string_to_std_string (name_ref d) = device_name
     \<and> wg_size_status d = 0 \<and> wg_status d = 0 \<and> \<not> wg_cancelled d"

lemma find_workgroup_ok:
  "find_workgroup dev name ids = (wg, ATS_OK) \<longleftrightarrow>
     (\<exists>j < length ids. good_device (dev (ids ! j)) name \<and> wg = Some (wg_handle (dev (ids ! j)))
        \<and> (\<forall>i < j. other_name (dev (ids ! i)) name))"
proof (induction ids)
  case (Cons i ids)
  show ?case
  proof (cases "other_name (dev i) name")
    case True
    then have "find_workgroup dev name (i # ids) = find_workgroup dev name ids"
      and "\<not> good_device (dev i) name"
      by (auto simp: other_name_def good_device_def)
    then show ?thesis
      using Cons True unfolding length_Cons Ex_less_Suc2 All_less_Suc2 nth_Cons_0 nth_Cons_Suc by simp
  next
    case False
    then have "find_workgroup dev name (i # ids) = (wg, ATS_OK) \<longleftrightarrow>
        good_device (dev i) name \<and> wg = Some (wg_handle (dev i))"
      by (auto simp: other_name_def good_device_def)
    then show ?thesis
      using False unfolding length_Cons Ex_less_Suc2 All_less_Suc2 nth_Cons_0 nth_Cons_Suc by simp
  qed
qed simp

lemma find_workgroup_group:
  "find_workgroup dev name ids = (Some wg, st) \<Longrightarrow> st = ATS_OK \<or> st = WG_CANCELLED"
  by (induction ids) (auto split: if_splits)

subsection \<open>Properties\<close>

definition device_list :: "audio_system \<Rightarrow> nat list" where
  "device_list sys = (let n = devices_size sys div SIZEOF_AUDIO_OBJECT_ID
     in take n (device_ids sys @ replicate n 0))"

text \<open>
  \<open>get_device_workgroup\<close> succeeds exactly when macOS is recent enough, the device list
  could be read and did not change its size, and some device of the list answers every request,
  has the name asked for and a workgroup that is not cancelled, while all devices before it
  answer and have other names; it gives the workgroup of that device. A workgroup comes with the
  status OK or, if it is cancelled, WG_CANCELLED, and with no other.
\<close>

theorem get_device_workgroup_ok:
  "(get_device_workgroup sys name = (wg, ATS_OK) \<longleftrightarrow>
     macos_11 sys \<and> devices_size_status sys = 0 \<and> devices_status sys = 0
     \<and> devices_size_after sys div SIZEOF_AUDIO_OBJECT_ID = devices_size sys div SIZEOF_AUDIO_OBJECT_ID
     \<and> (\<exists>j < length (device_list sys). good_device (device_of sys (device_list sys ! j)) name
          \<and> wg = Some (wg_handle (device_of sys (device_list sys ! j)))
          \<and> (\<forall>i < j. other_name (device_of sys (device_list sys ! i)) name)))
   \<and> (get_device_workgroup sys name = (Some g, st) \<longrightarrow> st = ATS_OK \<or> st = WG_CANCELLED)"
  using find_workgroup_group [of "device_of sys" name "device_list sys" g st]
  by (simp add: get_device_workgroup_def Let_def device_list_def [symmetric] find_workgroup_ok)
    (simp add: device_list_def Let_def)

definition example_device :: "string \<Rightarrow> nat \<Rightarrow> audio_device" where
  "example_device name g = \<lparr>name_size_status = 0, name_size = 8, name_status = 0,
     name_ref = Some \<lparr>cf_c_string_ptr = None, cf_get_c_string = True, cf_buffer = name @ [nul, nul]\<rparr>,
     wg_size_status = 0, wg_status = 0, wg_handle = g, wg_cancelled = False\<rparr>"

definition example_system :: audio_system where
  "example_system = \<lparr>macos_11 = True, devices_size_status = 0, devices_size = 8, devices_status = 0,
     devices_size_after = 8, device_ids = [3, 5],
     device_of = (\<lambda>i. if i = 3 then example_device ''mic'' 1 else example_device ''out'' 2)\<rparr>"

theorem get_device_workgroup_ok_witness:
  "get_device_workgroup example_system ''out'' = (Some 2, ATS_OK) \<and>
   (\<exists>j < length (device_list example_system).
      good_device (device_of example_system (device_list example_system ! j)) ''out'')"
proof -
  have c: "get_device_workgroup example_system ''out'' = (Some 2, ATS_OK)" by code_simp
  show ?thesis using get_device_workgroup_ok [of example_system "''out''" "Some 2" 2 ATS_OK] c by blast
qed

lemma init_final:
  "final_status (apple_add_args coreaudio sys name prio cpu res rt js) =
     (if macos_11 sys \<and> js \<noteq> ATS_OK then js
      else if \<not> rt then REALTIME_FAILED
      else fst (apple_worker_ctor coreaudio sys name))"
  by (simp add: final_status_def apple_add_args_def init_apple_thread_def)

lemma ctor_no_group:
  assumes "apple_worker_ctor coreaudio sys name = (st, wg)" and "coreaudio" and "macos_11 sys"
  shows "(wg = None \<longrightarrow> st \<noteq> ATS_OK) \<and> (wg \<noteq> None \<longrightarrow> st = ATS_OK \<or> st = WG_CANCELLED)"
proof -
  have g: "get_device_workgroup sys name = (wg, st)"
    using assms by (auto simp: apple_worker_ctor_def split: prod.splits if_splits)
  have "wg \<noteq> None" if "st = ATS_OK"
    using g that assms(3)
    by (auto simp: get_device_workgroup_def find_workgroup_ok Let_def split: if_splits)
  moreover have "st = ATS_OK \<or> st = WG_CANCELLED" if "wg = Some h" for h
    using g that find_workgroup_group by (auto simp: get_device_workgroup_def Let_def split: if_splits)
  ultimately show ?thesis by auto
qed

lemma apple_final_ok:
  assumes "apple_worker_ctor coreaudio sys name = (st, wg)"
    and "join_workgroup coreaudio (macos_11 sys) wg cancelled res = Inr js"
  shows "final_status (apple_add_args coreaudio sys name prio cpu cr rt js) = ATS_OK \<longleftrightarrow>
       rt \<and> (coreaudio \<and> macos_11 sys \<longrightarrow> st = ATS_OK \<and> wg \<noteq> None \<and> \<not> cancelled \<and> res = 0)"
proof (cases "coreaudio \<and> macos_11 sys")
  case True
  then show ?thesis using ctor_no_group [OF assms(1)] assms
    by (auto simp: init_final join_workgroup_def split: if_splits)
next
  case False
  then have "fst (apple_worker_ctor coreaudio sys name) = ATS_OK" by (auto simp: apple_worker_ctor_def)
  then show ?thesis using False assms(2)
    by (auto simp: init_final join_workgroup_def split: if_splits)
qed

text \<open>
  The status with which a worker starts on macOS, from the answers of the system. It is OK
  exactly when the thread is realtime and, with CoreAudio on macOS 11, the workgroup of the
  device was found, is not cancelled and could be joined. When no workgroup was found, the
  reason that \<open>get_device_workgroup\<close> gave is overwritten: the host is always told
  NO_WORKGROUP_PASSED.
\<close>

theorem apple_worker_status:
  assumes "apple_worker_ctor coreaudio sys name = (st, wg)"
    and "join_workgroup coreaudio (macos_11 sys) wg cancelled res = Inr js"
  shows "(final_status (apple_add_args coreaudio sys name prio cpu 0 rt js) = ATS_OK \<longleftrightarrow>
       rt \<and> (coreaudio \<and> macos_11 sys \<longrightarrow> st = ATS_OK \<and> wg \<noteq> None \<and> \<not> cancelled \<and> res = 0))
    \<and> (coreaudio \<and> macos_11 sys \<and> wg = None \<longrightarrow>
       final_status (apple_add_args coreaudio sys name prio cpu 0 rt js) = NO_WORKGROUP_PASSED)"
  using apple_final_ok [OF assms, of prio cpu 0 rt] assms
  by (auto simp: init_final join_workgroup_def split: if_splits)

theorem apple_worker_status_witness:
  "final_status (apple_add_args True example_system ''out'' 75 None 0 True ATS_OK) = ATS_OK \<and>
   final_status (apple_add_args True example_system ''none'' 75 None 0 True NO_WORKGROUP_PASSED) = NO_WORKGROUP_PASSED"
proof -
  have c: "apple_worker_ctor True example_system ''out'' = (ATS_OK, Some 2)"
    "join_workgroup True (macos_11 example_system) (Some 2) False 0 = Inr ATS_OK" by code_simp+
  have d: "apple_worker_ctor True example_system ''none'' = (INVALID_DEVICE_NAME_PASSED, None)"
    "join_workgroup True (macos_11 example_system) None False 0 = Inr NO_WORKGROUP_PASSED" by code_simp+
  have "macos_11 example_system" by code_simp
  then show ?thesis
    using apple_worker_status [OF c, of 75 None True] apple_worker_status [OF d, of 75 None True] by simp
qed

text \<open>
  A worker that has joined a workgroup leaves that workgroup when its thread ends. But the
  test is only whether there is a workgroup: for a device whose workgroup is cancelled the
  worker has never joined, and \<open>os_workgroup_leave\<close> is called all the same, with a join token
  that no call has set.
\<close>

theorem leave_after_join:
  assumes "joined coreaudio macos11 wg cancelled res"
  shows "leave_workgroup_if_needed macos11 wg = wg
    \<and> leave_workgroup_if_needed True (Some g) = Some g \<and> \<not> joined True True (Some g) True res'"
  using assms by (auto simp: joined_def leave_workgroup_if_needed_def)

theorem leave_after_join_witness: "leave_workgroup_if_needed True (Some 2) = Some 2"
  using leave_after_join [of True True "Some 2" False 0 2 0] by (simp add: joined_def)

text \<open>
  The time constraints given to the scheduler fit 32 bits: for every period of at least
  zero and every time base, with any monotone rounding of the floating-point operations that
  keeps zero, the period in ticks is between 0 and the largest \<open>uint32_t\<close>, and constraint and
  computation are equal to it.
\<close>

theorem realtime_policy_bounds:
  assumes "mono rnd" and "rnd 0 = 0" and "0 < numer" and "0 \<le> denom" and "0 \<le> period_ms"
  shows "0 \<le> period (realtime_policy rnd numer denom period_ms)
    \<and> period (realtime_policy rnd numer denom period_ms) \<le> UINT32_MAX
    \<and> constraint (realtime_policy rnd numer denom period_ms) = period (realtime_policy rnd numer denom period_ms)
    \<and> computation (realtime_policy rnd numer denom period_ms) = period (realtime_policy rnd numer denom period_ms)"
proof -
  have pos: "0 \<le> rnd x" if "0 \<le> x" for x using monoD [OF assms(1) that] assms(2) by simp
  have "0 \<le> rnd (period_ms * ticks_per_ms rnd numer denom)"
    using assms by (auto simp: ticks_per_ms_def intro!: pos mult_nonneg_nonneg divide_nonneg_nonneg)
  then have "0 \<le> \<lfloor>min (of_int UINT32_MAX) (rnd (period_ms * ticks_per_ms rnd numer denom))\<rfloor>"
    by (simp add: le_floor_iff)
  moreover have "\<lfloor>min (of_int UINT32_MAX) (rnd (period_ms * ticks_per_ms rnd numer denom))\<rfloor> \<le> UINT32_MAX"
    by (simp add: floor_le_iff)
  ultimately show ?thesis by (simp add: realtime_policy_def Let_def)
qed

theorem realtime_policy_bounds_witness:
  "period (realtime_policy id 125 3 2) \<le> UINT32_MAX \<and> 0 \<le> period (realtime_policy id 125 3 2)"
  using realtime_policy_bounds [of id 125 3 2] by (simp add: mono_def)

text \<open>
  Every status has a message of its own, but two: \<open>INVALID_DEVICE_NAME_PASSED\<close> and
  \<open>EMPTY\<close> both give the empty text.
\<close>

theorem status_messages:
  "(status_to_string s = status_to_string t) =
     (s = t \<or> {s, t} = {INVALID_DEVICE_NAME_PASSED, EMPTY})"
  by (cases s; cases t) (simp_all add: status_to_string_def doubleton_eq_iff)

end
