(* ===== verification/Cond_Ids.thy ===== *)
theory Cond_Ids
  imports Rt_State
begin

text \<open>
  The ids of the realtime condition variables, \<open>get_next_id\<close> and \<open>deregister_id\<close> of
  \<open>src/condition_variable_implementation.h\<close>: a static array of flags, one per id. The length
  of the list is \<open>TWINE_MAX_RT_CONDITION_VARS\<close>.
\<close>

subsection \<open>The array of ids\<close>

definition initial_ids :: "nat \<Rightarrow> bool list" where
  "initial_ids max_cond_vars = replicate max_cond_vars False"

function get_next_id_loop :: "nat \<Rightarrow> bool list \<Rightarrow> (failure + nat) \<times> bool list" where
  "get_next_id_loop i ids =
     (if i < length ids
      then (if ids ! i = False then (Inr i, ids[i := True]) else get_next_id_loop (i + 1) ids)
      else (Inl (Runtime_Error ''Maximum number of RtConditionVariables reached''), ids))"
  by pat_completeness auto
termination
  by (relation "measure (\<lambda>(i, ids). length ids - i)") auto

declare get_next_id_loop.simps [simp del]

definition get_next_id :: "bool list \<Rightarrow> (failure + nat) \<times> bool list" where
  "get_next_id ids = get_next_id_loop 0 ids"

text \<open>The assertion checks the upper bound.\<close>

definition deregister_id :: "nat \<Rightarrow> bool list \<Rightarrow> failure + bool list" where
  "deregister_id i ids =
     (if i < length ids then Inr (ids[i := False]) else Inl (Assertion ''id < MAX_RT_COND_VARS''))"

lemma get_next_id_loop_cases:
  assumes "\<forall>j < i. ids ! j"
  shows "if \<forall>j < length ids. ids ! j
     then \<exists>msg. get_next_id_loop i ids = (Inl (Runtime_Error msg), ids)
     else \<exists>k < length ids. get_next_id_loop i ids = (Inr k, ids[k := True]) \<and> \<not> ids ! k \<and> (\<forall>j < k. ids ! j)"
  using assms
proof (induction i ids rule: get_next_id_loop.induct)
  case (1 i ids)
  show ?case
  proof (cases "i < length ids")
    case False
    then show ?thesis using 1(2) by (auto simp: get_next_id_loop.simps [of i ids])
  next
    case i: True
    show ?thesis
    proof (cases "ids ! i")
      case False
      then show ?thesis using i 1(2) by (auto simp: get_next_id_loop.simps [of i ids])
    next
      case True
      then have eq: "get_next_id_loop i ids = get_next_id_loop (i + 1) ids"
        using i by (subst get_next_id_loop.simps) simp
      have nf: "ids ! i \<noteq> False" and le: "\<forall>j < i + 1. ids ! j" using True 1(2) by (auto simp: less_Suc_eq)
      show ?thesis unfolding eq by (rule 1(1) [OF i nf le])
    qed
  qed
qed

lemmas get_next_id_cases = get_next_id_loop_cases [of 0, simplified, folded get_next_id_def]

subsection \<open>The interface of an id allocator\<close>

datatype cv_op = NewCV | DropCV nat

text \<open>
  A history of creations and destructions, as the allocator sees it, with the ids of the objects alive: a creation
  that finds no id makes nothing; \<open>DropCV k\<close> destroys the \<open>k\<close>-th object alive.
\<close>

fun history :: "('s \<Rightarrow> (nat \<times> 's) option) \<Rightarrow> (nat \<Rightarrow> 's \<Rightarrow> 's) \<Rightarrow> cv_op list \<Rightarrow> nat list \<times> 's \<Rightarrow> nat list \<times> 's" where
  "history get put [] st = st"
| "history get put (NewCV # ops) (xs, s) =
     (case get s of
        None \<Rightarrow> history get put ops (xs, s)
      | Some (i, s') \<Rightarrow> history get put ops (xs @ [i], s'))"
| "history get put (DropCV k # ops) (xs, s) =
     (if k < length xs then history get put ops (take k xs @ drop (Suc k) xs, put (xs ! k) s)
      else history get put ops (xs, s))"

locale id_allocator =
  fixes get :: "'s \<Rightarrow> (nat \<times> 's) option"
    and put :: "nat \<Rightarrow> 's \<Rightarrow> 's"
    and taken :: "'s \<Rightarrow> nat set"
    and space :: "'s \<Rightarrow> nat set"
  assumes get_id: "get s = Some (i, s') \<Longrightarrow> i \<in> space s \<and> i \<notin> taken s \<and> taken s' = insert i (taken s) \<and> space s' = space s"
    and get_none: "get s = None \<longleftrightarrow> taken s = space s"
    and put_id: "i \<in> taken s \<Longrightarrow> taken (put i s) = taken s - {i} \<and> space (put i s) = space s"
begin

lemma drop_nth_set:
  assumes "distinct xs" and "k < length xs"
  shows "distinct (take k xs @ drop (Suc k) xs) \<and> set (take k xs @ drop (Suc k) xs) = set xs - {xs ! k}"
proof -
  have x: "xs = take k xs @ xs ! k # drop (Suc k) xs" using assms(2) by (rule id_take_nth_drop)
  have "distinct (take k xs @ xs ! k # drop (Suc k) xs)"
    by (subst x [symmetric]) (rule assms(1))
  moreover have "set (take k xs @ xs ! k # drop (Suc k) xs) = set xs"
    by (subst x [symmetric]) (rule refl)
  then have "set xs = set (take k xs @ xs ! k # drop (Suc k) xs)" by (rule sym)
  ultimately show ?thesis unfolding \<open>set xs = _\<close> by auto
qed

lemma history_distinct:
  "history get put ops (xs, s) = (ys, t) \<Longrightarrow> distinct xs \<Longrightarrow> set xs = taken s \<Longrightarrow>
   distinct ys \<and> set ys = taken t \<and> space t = space s"
proof (induction ops arbitrary: xs s)
  case (Cons op ops)
  note h = Cons.prems(1) and d = Cons.prems(2) and st = Cons.prems(3)
  show ?case
  proof (cases op)
    case NewCV
    show ?thesis
    proof (cases "get s")
      case None
      then have "history get put ops (xs, s) = (ys, t)" using h NewCV by simp
      then show ?thesis using d st by (rule Cons.IH)
    next
      case (Some p)
      obtain i s' where p: "get s = Some (i, s')" using Some by (cases p) auto
      have "history get put ops (xs @ [i], s') = (ys, t)" using h NewCV p by simp
      moreover have "distinct (xs @ [i])" "set (xs @ [i]) = taken s'"
        using get_id [OF p] d st by auto
      ultimately have "distinct ys \<and> set ys = taken t \<and> space t = space s'" by (rule Cons.IH)
      then show ?thesis using get_id [OF p] by simp
    qed
  next
    case (DropCV k)
    show ?thesis
    proof (cases "k < length xs")
      case True
      then have k: "xs ! k \<in> taken s" using st nth_mem by blast
      have "history get put ops (take k xs @ drop (Suc k) xs, put (xs ! k) s) = (ys, t)"
        using h DropCV True by simp
      moreover have "distinct (take k xs @ drop (Suc k) xs)"
        using drop_nth_set [OF d True] by blast
      moreover have "set (take k xs @ drop (Suc k) xs) = taken (put (xs ! k) s)"
        using drop_nth_set [OF d True] put_id [OF k] st by metis
      ultimately have "distinct ys \<and> set ys = taken t \<and> space t = space (put (xs ! k) s)" by (rule Cons.IH)
      then show ?thesis using put_id [OF k] by simp
    next
      case False
      then have "history get put ops (xs, s) = (ys, t)" using h DropCV by simp
      then show ?thesis using d st by (rule Cons.IH)
    qed
  qed
qed simp

text \<open>From nothing alive: a creation succeeds exactly while there is an id that nobody holds.\<close>

lemma history_capacity:
  assumes "history get put ops ([], s) = (ys, t)" and "taken s = {}"
  shows "distinct ys \<and> (get t = None \<longleftrightarrow> set ys = space s) \<and> set ys = taken t"
  using history_distinct [OF assms(1)] assms(2) get_none by auto

end

subsection \<open>The condition variables as users of the ids\<close>

text \<open>
  \<open>create_rt_condition_variable\<close> takes an id for the Xenomai and the EVL class before it runs
  the constructor; of the two destructors only Xenomai's gives it back.
\<close>

definition take_id :: "bool list \<Rightarrow> (nat \<times> bool list) option" where
  "take_id ids = (case get_next_id ids of (Inr i, ids') \<Rightarrow> Some (i, ids') | (Inl _, _) \<Rightarrow> None)"

definition drop_id :: "cond_var_class \<Rightarrow> nat \<Rightarrow> bool list \<Rightarrow> bool list" where
  "drop_id c i ids =
     (if c = XenomaiConditionVariable
      then (case deregister_id i ids of Inr ids' \<Rightarrow> ids' | Inl _ \<Rightarrow> ids)
      else ids)"

definition cond_var_history :: "cond_var_class \<Rightarrow> nat \<Rightarrow> cv_op list \<Rightarrow> nat list \<times> bool list" where
  "cond_var_history c max_cond_vars ops = history take_id (drop_id c) ops ([], initial_ids max_cond_vars)"

definition taken_ids :: "bool list \<Rightarrow> nat set" where
  "taken_ids ids = {i. i < length ids \<and> ids ! i}"

lemma take_id_Some:
  assumes "take_id ids = Some (i, ids')"
  shows "i < length ids \<and> \<not> ids ! i \<and> ids' = ids[i := True] \<and> (\<forall>j < i. ids ! j)"
  using get_next_id_cases [of ids] assms
  by (auto simp: take_id_def split: if_splits prod.splits sum.splits)

lemma take_id_None: "take_id ids = None \<longleftrightarrow> (\<forall>j < length ids. ids ! j)"
  using get_next_id_cases [of ids] by (auto simp: take_id_def split: if_splits)

lemma taken_update: "i < length ids \<Longrightarrow> taken_ids (ids[i := b]) = (if b then insert i (taken_ids ids) else taken_ids ids - {i})"
  by (auto simp: taken_ids_def nth_list_update)

interpretation xenomai_ids: id_allocator take_id "drop_id XenomaiConditionVariable" taken_ids
    "\<lambda>ids. {..< length ids}"
proof unfold_locales
  fix s i s'
  assume "take_id s = Some (i, s')"
  then show "i \<in> {..< length s} \<and> i \<notin> taken_ids s \<and> taken_ids s' = insert i (taken_ids s)
      \<and> {..< length s'} = {..< length s}"
    using take_id_Some [of s i s'] by (auto simp: taken_update) (auto simp: taken_ids_def)
next
  fix s
  show "take_id s = None \<longleftrightarrow> taken_ids s = {..< length s}"
    unfolding take_id_None by (auto simp: taken_ids_def)
next
  fix i s
  assume "i \<in> taken_ids s"
  then have "i < length s" by (simp add: taken_ids_def)
  then show "taken_ids (drop_id XenomaiConditionVariable i s) = taken_ids s - {i}
      \<and> {..< length (drop_id XenomaiConditionVariable i s)} = {..< length s}"
    by (simp add: drop_id_def deregister_id_def taken_update)
qed

lemma initial_taken: "taken_ids (initial_ids n) = {}" and initial_length: "length (initial_ids n) = n"
  by (auto simp: taken_ids_def initial_ids_def)

subsection \<open>Properties\<close>

text \<open>
  \<open>get_next_id\<close> gives the smallest id that is free and marks that id and no other; it throws
  exactly when every id is taken, and then changes nothing. Giving the id back with
  \<open>deregister_id\<close> restores the array.
\<close>

theorem get_next_id_lowest:
  "case get_next_id ids of
     (Inr i, ids') \<Rightarrow> i < length ids \<and> \<not> ids ! i \<and> (\<forall>j < i. ids ! j) \<and> ids' = ids[i := True]
        \<and> deregister_id i ids' = Inr ids
   | (Inl f, ids') \<Rightarrow> (\<forall>j < length ids. ids ! j) \<and> ids' = ids \<and> (\<exists>msg. f = Runtime_Error msg)"
proof (cases "\<forall>j < length ids. ids ! j")
  case True
  then show ?thesis using get_next_id_cases [of ids] by auto
next
  case False
  then obtain k where k: "k < length ids" "get_next_id ids = (Inr k, ids[k := True])" "\<not> ids ! k"
      "\<forall>j < k. ids ! j"
    using get_next_id_cases [of ids, unfolded if_not_P [OF False]] by blast
  then have "deregister_id k (ids[k := True]) = Inr ids"
    by (simp add: deregister_id_def) (metis (full_types) list_update_id)
  then show ?thesis using k by simp
qed

theorem get_next_id_lowest_witness:
  "get_next_id [True, False, False] = (Inr 1, [True, True, False]) \<and> deregister_id 1 [True, True, False] = Inr [True, False, False]"
proof -
  have c: "get_next_id [True, False, False] = (Inr 1, [True, True, False])" by code_simp
  show ?thesis using get_next_id_lowest [of "[True, False, False]"] c by simp
qed

text \<open>
  Where no constructor throws, Xenomai condition variables that are alive at the same time have different ids, in
  every history of creations, one after another, and destructions; the ids in use are those of the living objects, and
  the next creation fails exactly when all ids are used by living objects. \<open>Cond_Factory\<close> has the general case.
\<close>

theorem xenomai_ids_distinct:
  assumes "cond_var_history XenomaiConditionVariable n ops = (living, ids)"
  shows "distinct living \<and> set living \<subseteq> {..< n} \<and> (\<forall>i < n. ids ! i \<longleftrightarrow> i \<in> set living)
    \<and> (take_id ids = None \<longleftrightarrow> length living = n)"
proof -
  have h: "history take_id (drop_id XenomaiConditionVariable) ops ([], initial_ids n) = (living, ids)"
    using assms by (simp add: cond_var_history_def)
  have d: "distinct living" "set living = taken_ids ids" "{..< length ids} = {..< length (initial_ids n)}"
    using xenomai_ids.history_distinct [OF h] initial_taken by auto
  then have l: "length ids = n" using initial_length by (metis card_lessThan)
  then have sub: "set living \<subseteq> {..< n}" using d by (auto simp: taken_ids_def)
  have "take_id ids = None \<longleftrightarrow> set living = {..< n}"
    using xenomai_ids.get_none [of ids] d l by auto
  also have "\<dots> \<longleftrightarrow> length living = n"
    using d(1) sub by (metis card_lessThan card_subset_eq distinct_card finite_lessThan)
  finally show ?thesis using d l sub by (auto simp: taken_ids_def)
qed

theorem xenomai_ids_distinct_witness:
  "cond_var_history XenomaiConditionVariable 3 [NewCV, NewCV, NewCV, DropCV 1, NewCV] = ([0, 2, 1], [True, True, True])
   \<and> take_id [True, True, True] = None"
proof -
  have c: "cond_var_history XenomaiConditionVariable 3 [NewCV, NewCV, NewCV, DropCV 1, NewCV] = ([0, 2, 1], [True, True, True])"
    by code_simp
  show ?thesis using xenomai_ids_distinct [OF c] c by simp
qed

lemma evl_history_full:
  "length (filter (\<lambda>op. op = NewCV) ops) + n \<ge> length ids \<Longrightarrow> n \<le> length ids \<Longrightarrow> \<forall>j < n. ids ! j \<Longrightarrow>
   take_id (snd (history take_id (drop_id EvlConditionVariable) ops (xs, ids))) = None"
proof (induction ops arbitrary: n xs ids)
  case Nil
  then show ?case by (simp add: take_id_None)
next
  case (Cons op ops)
  show ?case
  proof (cases op)
    case NewCV
    show ?thesis
    proof (cases "take_id ids")
      case None
      then have "\<forall>j < length ids. ids ! j" by (simp add: take_id_None)
      then show ?thesis using Cons.IH [of ids "length ids"] NewCV None by simp
    next
      case (Some p)
      then obtain i where i: "take_id ids = Some (i, ids[i := True])" "i < length ids" "\<not> ids ! i" "\<forall>j < i. ids ! j"
        using take_id_Some by (cases p) blast
      then have "n \<le> i" using Cons.prems(3) by (metis linorder_not_le)
      then have "\<forall>j < Suc i. ids[i := True] ! j"
        using i by (auto simp: nth_list_update less_Suc_eq)
      then show ?thesis
        using Cons.IH [of "ids[i := True]" "Suc i" "xs @ [i]"] Cons.prems(1) i \<open>n \<le> i\<close> NewCV by simp
    qed
  next
    case (DropCV k)
    then show ?thesis using Cons by (simp add: drop_id_def)
  qed
qed

text \<open>
  EVL condition variables never give their ids back: after as many creations as there are
  ids, every further creation fails, even if every object has been destroyed in between.
\<close>

theorem evl_ids_run_out:
  assumes "n \<le> length (filter (\<lambda>op. op = NewCV) ops)"
  shows "take_id (snd (cond_var_history EvlConditionVariable n ops)) = None"
  unfolding cond_var_history_def
  by (rule evl_history_full [where n = 0]) (use assms initial_length in simp_all)

theorem evl_ids_run_out_witness:
  "take_id (snd (cond_var_history EvlConditionVariable 2 [NewCV, DropCV 0, NewCV, DropCV 0])) = None \<and>
   fst (cond_var_history EvlConditionVariable 2 [NewCV, DropCV 0, NewCV, DropCV 0]) = []"
proof -
  have "fst (cond_var_history EvlConditionVariable 2 [NewCV, DropCV 0, NewCV, DropCV 0]) = []"
    by code_simp
  then show ?thesis using evl_ids_run_out [of 2 "[NewCV, DropCV 0, NewCV, DropCV 0]"] by simp
qed

subsection \<open>Two threads\<close>

text \<open>
  \<open>get_next_id\<close> does not take the mutex that \<open>deregister_id\<close> takes: its scan and its mark are
  separate steps for other threads.
\<close>

datatype id_pc = Scan nat | Mark nat | Got nat | Threw

fun id_step :: "id_pc \<Rightarrow> bool list \<Rightarrow> id_pc \<times> bool list" where
  "id_step (Scan i) ids =
     (if i < length ids then (if ids ! i = False then (Mark i, ids) else (Scan (i + 1), ids))
      else (Threw, ids))"
| "id_step (Mark i) ids = (Got i, ids[i := True])"
| "id_step pc ids = (pc, ids)"

fun id_steps :: "bool list \<Rightarrow> id_pc \<times> id_pc \<Rightarrow> bool list \<Rightarrow> (id_pc \<times> id_pc) \<times> bool list" where
  "id_steps [] pcs ids = (pcs, ids)"
| "id_steps (first # sched) (a, b) ids =
     (if first then (let (a', ids') = id_step a ids in id_steps sched (a', b) ids')
      else (let (b', ids') = id_step b ids in id_steps sched (a, b') ids'))"

text \<open>
  Two threads that create a condition variable at the same time can get the same id, from
  the initial array of 32 ids.
\<close>

theorem concurrent_ids_collide:
  "fst (id_steps [True, False, True, False] (Scan 0, Scan 0) (initial_ids 32)) = (Got 0, Got 0)"
  by code_simp

end
