(* ===== verification/Cond_Vars.thy ===== *)
theory Cond_Vars
  imports Cond_Ids Posix_Semaphores Isolated_Cpus
begin

text \<open>
  The two condition variables of \<open>src/src/condition_variable_implementation.h\<close> that need no
  realtime kernel, \<open>StdConditionVariable\<close> and \<open>PosixSemaphoreConditionVariable\<close>: constructor,
  \<open>notify\<close>, \<open>wait\<close> and destructor, and the contract of \<open>twine.h\<close> as a locale. \<open>wait\<close> is \<open>None\<close>
  where it blocks.
\<close>

subsection \<open>StdConditionVariable\<close>

text \<open>
  Single steps under the mutex. There is at most one waiter (the documented limit); it is
  outside \<open>wait\<close>, asleep on the condition variable, or woken.
\<close>

datatype waiter = Outside | Asleep | Woken

record std_cv =
  std_flag :: bool
  std_waiter :: waiter

definition std_init :: std_cv where
  "std_init = \<lparr>std_flag = False, std_waiter = Outside\<rparr>"

definition std_notify :: "std_cv \<Rightarrow> std_cv" where
  "std_notify s =
     \<lparr>std_flag = True, std_waiter = (if std_waiter s = Asleep then Woken else std_waiter s)\<rparr>"

text \<open>\<open>_cond_var.wait(lock)\<close> has no predicate: it sleeps whatever the flag is.\<close>

definition std_wait_enter :: "std_cv \<Rightarrow> std_cv option" where
  "std_wait_enter s = (if std_waiter s = Outside then Some (s\<lparr>std_waiter := Asleep\<rparr>) else None)"

definition std_wait_leave :: "std_cv \<Rightarrow> (bool \<times> std_cv) option" where
  "std_wait_leave s =
     (if std_waiter s = Woken then Some (std_flag s, \<lparr>std_flag = False, std_waiter = Outside\<rparr>) else None)"

definition std_spurious :: "std_cv \<Rightarrow> std_cv option" where
  "std_spurious s = (if std_waiter s = Asleep then Some (s\<lparr>std_waiter := Woken\<rparr>) else None)"

datatype std_event = SNotify | SEnter | SSpurious | SLeave bool

inductive std_step :: "std_cv \<Rightarrow> std_event \<Rightarrow> std_cv \<Rightarrow> bool" where
  snotify: "std_step s SNotify (std_notify s)"
| senter: "std_wait_enter s = Some t \<Longrightarrow> std_step s SEnter t"
| sspurious: "std_spurious s = Some t \<Longrightarrow> std_step s SSpurious t"
| sleave: "std_wait_leave s = Some (r, t) \<Longrightarrow> std_step s (SLeave r) t"

inductive_simps std_step_notify [simp]: "std_step s SNotify t"
inductive_simps std_step_enter [simp]: "std_step s SEnter t"
inductive_simps std_step_spurious [simp]: "std_step s SSpurious t"
inductive_simps std_step_leave [simp]: "std_step s (SLeave r) t"

definition count_ev :: "std_event \<Rightarrow> std_event list \<Rightarrow> nat" where
  "count_ev e es = length (filter (\<lambda>x. x = e) es)"

subsection \<open>PosixSemaphoreConditionVariable\<close>

definition COND_VAR_BASE_NAME :: string where
  "COND_VAR_BASE_NAME = ''/twine_cond_''"

definition MAX_RETRIES :: nat where
  "MAX_RETRIES = 100"

text \<open>
  The loop \<open>while (--retries > 0)\<close>: \<open>rands i\<close> is the \<open>i\<close>-th value of \<open>std::rand()\<close>, and
  \<open>err\<close> what else the system may object to (0 for nothing).
\<close>

fun posix_open_loop ::
  "nat \<Rightarrow> nat \<Rightarrow> (nat \<Rightarrow> nat) \<Rightarrow> (int \<Rightarrow> string) \<Rightarrow> int \<Rightarrow> sem_world \<Rightarrow> (failure + string \<times> nat) \<times> sem_world" where
  "posix_open_loop (Suc (Suc k)) i rands strerror err w =
     (let name = COND_VAR_BASE_NAME @ dec (rands i)
      in case sem_open_excl name err w of
           (Inr h, w') \<Rightarrow> (Inr (name, h), w')
         | (Inl e, w') \<Rightarrow>
             if e \<noteq> EEXIST
             then (Inl (Runtime_Error (''Failed to initialize RtConditionVariable, '' @ strerror e)), w')
             else posix_open_loop (Suc k) (i + 1) rands strerror err w')"
| "posix_open_loop _ i rands strerror err w =
     (Inl (Runtime_Error ''Failed to initialize RtConditionVariable, no more retries.''), w)"

definition posix_cv_ctor ::
  "(nat \<Rightarrow> nat) \<Rightarrow> (int \<Rightarrow> string) \<Rightarrow> int \<Rightarrow> sem_world \<Rightarrow> (failure + string \<times> nat) \<times> sem_world" where
  "posix_cv_ctor rands strerror err w = posix_open_loop MAX_RETRIES 0 rands strerror err w"

definition posix_cv_notify :: "nat \<Rightarrow> sem_world \<Rightarrow> sem_world" where
  "posix_cv_notify h w = sem_post h w"

definition posix_cv_wait :: "nat \<Rightarrow> sem_world \<Rightarrow> (bool \<times> sem_world) option" where
  "posix_cv_wait h w = map_option (\<lambda>w'. (True, w')) (sem_wait h w)"

definition posix_cv_dtor :: "string \<times> nat \<Rightarrow> sem_world \<Rightarrow> sem_world" where
  "posix_cv_dtor cv w = sem_unlink (fst cv) (posix_cv_notify (snd cv) w)"

subsection \<open>StdConditionVariable: facts\<close>

text \<open>Notifications and spurious wake-ups not yet used up by a return.\<close>

definition std_balance :: "std_cv \<Rightarrow> std_event list \<Rightarrow> bool" where
  "std_balance s es \<longleftrightarrow>
     count_ev (SLeave True) es + (if std_flag s then 1 else 0) \<le> count_ev SNotify es
     \<and> count_ev (SLeave False) es + (if std_waiter s = Woken \<and> \<not> std_flag s then 1 else 0) \<le> count_ev SSpurious es"

lemma count_ev_simps [simp]:
  "count_ev e [] = 0" "count_ev e (es @ [x]) = count_ev e es + (if x = e then 1 else 0)"
  by (simp_all add: count_ev_def)

lemma std_balance_run:
  "run std_step s es t \<Longrightarrow> std_balance s fs \<Longrightarrow> std_balance t (fs @ es)"
proof (induction arbitrary: fs rule: run.induct)
  case (run_cons s e t es u)
  have "std_balance t (fs @ [e])"
    using run_cons(1,4)
    by (cases e) (auto simp: std_balance_def std_notify_def std_wait_enter_def std_wait_leave_def
        std_spurious_def split: if_splits)
  from run_cons(3) [OF this] show ?case by simp
qed simp

subsection \<open>The interface of a condition variable\<close>

text \<open>
  What \<open>twine.h\<close> promises for one waiting thread: a notification wakes one \<open>wait\<close>, now or
  later, and that \<open>wait\<close> returns true.
\<close>

locale rt_condition_variable =
  fixes notify :: "'s \<Rightarrow> 's"
    and wait :: "'s \<Rightarrow> (bool \<times> 's) option"
    and pending :: "'s \<Rightarrow> nat"
    and ok :: "'s \<Rightarrow> bool"
  assumes notify_ok: "ok s \<Longrightarrow> ok (notify s) \<and> pending (notify s) = pending s + 1"
    and wait_blocks: "ok s \<Longrightarrow> wait s = None \<longleftrightarrow> pending s = 0"
    and wait_true: "ok s \<Longrightarrow> wait s = Some (r, t) \<Longrightarrow> r \<and> ok t \<and> pending t + 1 = pending s"

text \<open>A sequence of calls, \<open>True\<close> for \<open>notify\<close>: the results of the waits, if none blocks.\<close>

fun cv_calls :: "('s \<Rightarrow> 's) \<Rightarrow> ('s \<Rightarrow> (bool \<times> 's) option) \<Rightarrow> bool list \<Rightarrow> 's \<Rightarrow> bool list option" where
  "cv_calls notify wait [] s = Some []"
| "cv_calls notify wait (True # cs) s = cv_calls notify wait cs (notify s)"
| "cv_calls notify wait (False # cs) s =
     (case wait s of None \<Rightarrow> None | Some (r, t) \<Rightarrow> map_option (\<lambda>rs. r # rs) (cv_calls notify wait cs t))"

text \<open>No prefix has more waits than notifications, with \<open>n\<close> notifications in advance.\<close>

fun covered :: "nat \<Rightarrow> bool list \<Rightarrow> bool" where
  "covered n [] = True"
| "covered n (True # cs) = covered (n + 1) cs"
| "covered n (False # cs) = (n > 0 \<and> covered (n - 1) cs)"

context rt_condition_variable
begin

lemma calls_complete:
  "ok s \<Longrightarrow> cv_calls notify wait cs s =
     (if covered (pending s) cs then Some (replicate (length (filter Not cs)) True) else None)"
proof (induction cs arbitrary: s)
  case (Cons c cs)
  show ?case
  proof (cases c)
    case True
    then show ?thesis using Cons notify_ok [OF Cons.prems] by simp
  next
    case False
    show ?thesis
    proof (cases "wait s")
      case None
      then show ?thesis using False wait_blocks [OF Cons.prems] by simp
    next
      case (Some p)
      obtain r t where p: "wait s = Some (r, t)" using Some by (cases p) auto
      note w = wait_true [OF Cons.prems p]
      then have "pending s > 0" "pending t = pending s - 1" by auto
      then show ?thesis using False p w Cons.IH [of t] by simp
    qed
  qed
qed simp

end

interpretation posix_cv: rt_condition_variable "posix_cv_notify h" "posix_cv_wait h" "\<lambda>w. sem_count w h"
    "\<lambda>w. sem_live w h" for h
  by unfold_locales
    (auto simp: posix_cv_notify_def posix_cv_wait_def sem_post_def sem_wait_def sem_count_def sem_live_def
      split: if_splits)

subsection \<open>Creating the POSIX semaphore\<close>

lemma sem_open_excl_cases:
  "sem_open_excl name 0 w =
     (if name \<in> fst ` set (sem_names w) then (Inl EEXIST, w)
      else (Inr (length (sem_counts w)), \<lparr>sem_names = (name, length (sem_counts w)) # sem_names w,
              sem_counts = sem_counts w @ [0]\<rparr>))"
  by (simp add: sem_open_excl_def new_named_def fresh_sem_def)

lemma posix_open_loop_ok:
  "posix_open_loop n i rands strerror 0 w =
     (case List.find (\<lambda>j. COND_VAR_BASE_NAME @ dec (rands j) \<notin> fst ` set (sem_names w)) [i ..< i + (n - 1)] of
        None \<Rightarrow> (Inl (Runtime_Error ''Failed to initialize RtConditionVariable, no more retries.''), w)
      | Some j \<Rightarrow> (Inr (COND_VAR_BASE_NAME @ dec (rands j), length (sem_counts w)),
           \<lparr>sem_names = (COND_VAR_BASE_NAME @ dec (rands j), length (sem_counts w)) # sem_names w,
            sem_counts = sem_counts w @ [0]\<rparr>))"
proof (induction n i rands strerror "0::int" w rule: posix_open_loop.induct)
  case (1 k i rands strerror w)
  have u: "[i ..< i + (Suc (Suc k) - 1)] = i # [i + 1 ..< i + 1 + (Suc k - 1)]"
    by (simp add: upt_conv_Cons)
  show ?case
  proof (cases "COND_VAR_BASE_NAME @ dec (rands i) \<in> fst ` set (sem_names w)")
    case True
    then show ?thesis using 1 unfolding u posix_open_loop.simps by (simp add: sem_open_excl_cases Let_def)
  next
    case False
    then show ?thesis unfolding u posix_open_loop.simps by (simp add: sem_open_excl_cases Let_def)
  qed
qed simp_all

subsection \<open>Properties\<close>

text \<open>
  C36. The POSIX condition variable keeps every notification: in any sequence of
  \<open>notify\<close> and \<open>wait\<close> calls on a variable that has just been created, no wait blocks if and
  only if no prefix has more waits than notifications, and every wait returns true. A
  notification that comes before the wait is not lost.
\<close>

theorem posix_cv_keeps_notifications:
  assumes "posix_cv_ctor rands strerror 0 w = (Inr (name, h), w')"
  shows "cv_calls (posix_cv_notify h) (posix_cv_wait h) cs w' =
    (if covered 0 cs then Some (replicate (length (filter Not cs)) True) else None)"
proof -
  have "sem_live w' h" "sem_count w' h = 0"
    using assms
    by (auto simp: posix_cv_ctor_def posix_open_loop_ok sem_live_def sem_count_def nth_append split: option.splits)
  then show ?thesis using posix_cv.calls_complete [of w' h cs] by simp
qed

theorem posix_cv_keeps_notifications_witness:
  "cv_calls (posix_cv_notify 0) (posix_cv_wait 0) [True, True, False, False]
     (snd (posix_cv_ctor (\<lambda>i. 7) (\<lambda>_. []) 0 empty_world)) = Some [True, True] \<and>
   cv_calls (posix_cv_notify 0) (posix_cv_wait 0) [True, False, False]
     (snd (posix_cv_ctor (\<lambda>i. 7) (\<lambda>_. []) 0 empty_world)) = None"
proof -
  obtain w' where c: "posix_cv_ctor (\<lambda>i. 7) (\<lambda>_. []) 0 empty_world = (Inr (COND_VAR_BASE_NAME @ dec 7, 0), w')"
    by (simp add: posix_cv_ctor_def MAX_RETRIES_def posix_open_loop_ok empty_world_def upt_conv_Cons)
  show ?thesis
    using posix_cv_keeps_notifications [OF c, of "[True, True, False, False]"]
      posix_cv_keeps_notifications [OF c, of "[True, False, False]"] c by (simp add: eval_nat_numeral)
qed

text \<open>
  The constructor of the POSIX condition variable tries the first 99 random names and takes
  the first that nobody uses: the semaphore is new, with count 0, and no other semaphore or name
  is touched. It throws exactly when all 99 names are in use (of the 100 retries one is never
  made), and then changes nothing.
\<close>

theorem posix_cv_ctor_unused_name:
  "case posix_cv_ctor rands strerror 0 w of
     (Inr (name, h), w') \<Rightarrow>
       (\<exists>j < 99. name = COND_VAR_BASE_NAME @ dec (rands j)
          \<and> (\<forall>i < j. COND_VAR_BASE_NAME @ dec (rands i) \<in> fst ` set (sem_names w)))
       \<and> name \<notin> fst ` set (sem_names w) \<and> \<not> sem_live w h \<and> sem_count w' h = 0
       \<and> sem_names w' = (name, h) # sem_names w \<and> sem_counts w' = sem_counts w @ [0]
   | (Inl f, w') \<Rightarrow> w' = w
       \<and> f = Runtime_Error ''Failed to initialize RtConditionVariable, no more retries.''
       \<and> (\<forall>i < 99. COND_VAR_BASE_NAME @ dec (rands i) \<in> fst ` set (sem_names w))"
proof -
  let ?p = "\<lambda>j. COND_VAR_BASE_NAME @ dec (rands j) \<notin> fst ` set (sem_names w)"
  have eq: "posix_cv_ctor rands strerror 0 w = (case List.find ?p [0 ..< 99] of
        None \<Rightarrow> (Inl (Runtime_Error ''Failed to initialize RtConditionVariable, no more retries.''), w)
      | Some j \<Rightarrow> (Inr (COND_VAR_BASE_NAME @ dec (rands j), length (sem_counts w)),
           \<lparr>sem_names = (COND_VAR_BASE_NAME @ dec (rands j), length (sem_counts w)) # sem_names w,
            sem_counts = sem_counts w @ [0]\<rparr>))"
    by (simp add: posix_cv_ctor_def MAX_RETRIES_def posix_open_loop_ok)
  show ?thesis
  proof (cases "List.find ?p [0 ..< 99]")
    case None
    then have "\<forall>i < 99. \<not> ?p i" by (simp add: find_None_iff)
    then show ?thesis unfolding eq None by simp
  next
    case (Some j)
    then have "j < 99" "?p j" "\<forall>i < j. \<not> ?p i" by (auto simp: find_Some_iff)
    then show ?thesis unfolding eq Some by (auto simp: sem_live_def sem_count_def nth_append)
  qed
qed

theorem posix_cv_ctor_unused_name_witness:
  "fst (posix_cv_ctor (\<lambda>i. i) (\<lambda>_. []) 0 \<lparr>sem_names = [(''/twine_cond_0'', 0)], sem_counts = [0]\<rparr>) =
     Inr (''/twine_cond_1'', 1)
   \<and> \<not> sem_live \<lparr>sem_names = [(''/twine_cond_0'', 0)], sem_counts = [0]\<rparr> 1"
proof -
  let ?w = "\<lparr>sem_names = [(''/twine_cond_0'', 0)], sem_counts = [0]\<rparr>"
  have c: "posix_cv_ctor (\<lambda>i. i) (\<lambda>_. []) 0 ?w = (Inr (''/twine_cond_1'', 1),
      \<lparr>sem_names = [(''/twine_cond_1'', 1), (''/twine_cond_0'', 0)], sem_counts = [0, 0]\<rparr>)"
    by code_simp
  show ?thesis using posix_cv_ctor_unused_name [where rands = "\<lambda>i. i" and strerror = "\<lambda>_. []" and w = ?w] c
    unfolding c by simp
qed

text \<open>
  The waits of \<open>StdConditionVariable\<close> report truthfully, whatever the interleaving of
  notifications, waits and spurious wake-ups: at most as many waits return true as there were
  notifications, and at most as many return false as there were spurious wake-ups.
\<close>

theorem std_wait_truthful:
  assumes "run std_step std_init es s"
  shows "count_ev (SLeave True) es \<le> count_ev SNotify es \<and> count_ev (SLeave False) es \<le> count_ev SSpurious es"
proof -
  have "std_balance std_init []" by (simp add: std_balance_def std_init_def)
  from std_balance_run [OF assms this] show ?thesis by (simp add: std_balance_def)
qed

theorem std_wait_truthful_witness:
  "count_ev (SLeave True) [SEnter, SNotify, SLeave True] \<le> count_ev SNotify [SEnter, SNotify, SLeave True]"
proof -
  have "run std_step std_init [SEnter, SNotify, SLeave True] \<lparr>std_flag = False, std_waiter = Outside\<rparr>"
    by (rule run.run_cons [where t = "\<lparr>std_flag = False, std_waiter = Asleep\<rparr>"],
        simp add: std_init_def std_wait_enter_def,
        rule run.run_cons [where t = "\<lparr>std_flag = True, std_waiter = Woken\<rparr>"], simp add: std_notify_def,
        rule run.run_cons [where t = "\<lparr>std_flag = False, std_waiter = Outside\<rparr>"],
        simp add: std_wait_leave_def, rule run.run_nil)
  from std_wait_truthful [OF this] show ?thesis by blast
qed

text \<open>
  \<open>StdConditionVariable\<close> loses a notification that comes before the wait: the waiting
  thread sleeps although the flag is set, and without a further notification or a spurious
  wake-up nothing can happen any more. (The other classes remember the notification.)
\<close>

theorem std_early_notify_lost:
  assumes "run std_step std_init (SNotify # SEnter # es) s"
    and "SNotify \<notin> set es" and "SSpurious \<notin> set es"
  shows "es = [] \<and> std_flag s \<and> std_waiter s = Asleep"
proof -
  have r: "run std_step \<lparr>std_flag = True, std_waiter = Asleep\<rparr> es s"
    using assms(1) by (auto simp: std_init_def std_notify_def std_wait_enter_def)
  have "es = []"
  proof (rule ccontr)
    assume "es \<noteq> []"
    then obtain e fs where e: "es = e # fs" by (cases es) auto
    then obtain t where "std_step \<lparr>std_flag = True, std_waiter = Asleep\<rparr> e t" using r by auto
    then show False using e assms(2,3)
      by (cases e) (auto simp: std_wait_enter_def std_wait_leave_def)
  qed
  then show ?thesis using r by auto
qed

theorem std_early_notify_lost_witness:
  "std_waiter \<lparr>std_flag = True, std_waiter = Asleep\<rparr> = Asleep \<and>
   run std_step std_init [SNotify, SEnter] \<lparr>std_flag = True, std_waiter = Asleep\<rparr>"
proof -
  have r: "run std_step std_init [SNotify, SEnter] \<lparr>std_flag = True, std_waiter = Asleep\<rparr>"
    by (rule run.run_cons [where t = "\<lparr>std_flag = True, std_waiter = Outside\<rparr>"],
        simp add: std_init_def std_notify_def,
        rule run.run_cons [where t = "\<lparr>std_flag = True, std_waiter = Asleep\<rparr>"],
        simp add: std_wait_enter_def, rule run.run_nil)
  from std_early_notify_lost [OF r] r show ?thesis by simp
qed

end
