(* ===== verification/Cond_Realtime.thy ===== *)
theory Cond_Realtime
  imports Cond_Ids Isolated_Cpus "HOL-Library.Word" "HOL-Library.Multiset"
begin

unbundle bit_operations_syntax

text \<open>
  The two realtime classes of \<open>src/src/condition_variable_implementation.h\<close>:
  \<open>XenomaiConditionVariable\<close> and \<open>EvlConditionVariable\<close>, with constructor, destructor, \<open>notify\<close>
  and \<open>wait\<close>. The kernels are a parameter: a record of the functions that the classes call, over
  a world \<open>'k\<close>. What the properties need to know of them is stated by three predicates:
  \<open>tracks\<close> (open and close), \<open>xenomai_queues\<close> and \<open>evl_buffers\<close> (what is written can be read).
\<close>

subsection \<open>The kernels\<close>

text \<open>
  \<open>k_poll\<close> gives the answer and the \<open>revents\<close> of every descriptor, \<open>None\<close> while it blocks;
  reads give the number of bytes read or a negative number. The four calls on the cross-buffers of
  EVL, which the class opens without \<open>O_NONBLOCK\<close>, are \<open>None\<close> while they block. Only the results that the
  classes use are results here.
\<close>

record 'k rt_kernel =
  cobalt_socket :: "'k \<Rightarrow> int \<times> 'k"
  cobalt_setsockopt :: "int \<Rightarrow> nat \<Rightarrow> 'k \<Rightarrow> 'k"          \<comment> \<open>\<open>XDDP_BUFSZ\<close>\<close>
  cobalt_bind :: "int \<Rightarrow> nat \<Rightarrow> 'k \<Rightarrow> int \<times> 'k"          \<comment> \<open>to a port\<close>
  cobalt_sendto :: "int \<Rightarrow> nat \<Rightarrow> 'k \<Rightarrow> 'k"             \<comment> \<open>so many bytes, \<open>MSG_MORE\<close>\<close>
  cobalt_close :: "int \<Rightarrow> 'k \<Rightarrow> 'k"
  k_eventfd :: "'k \<Rightarrow> int \<times> 'k"                       \<comment> \<open>\<open>eventfd(0, EFD_SEMAPHORE)\<close>\<close>
  k_open :: "string \<Rightarrow> 'k \<Rightarrow> int \<times> 'k"
  k_close :: "int \<Rightarrow> 'k \<Rightarrow> 'k"
  k_write :: "int \<Rightarrow> nat \<Rightarrow> 'k \<Rightarrow> 'k"
  k_read :: "int \<Rightarrow> nat \<Rightarrow> 'k \<Rightarrow> int \<times> 'k"
  k_poll :: "int list \<Rightarrow> int \<Rightarrow> 'k \<Rightarrow> (int \<times> int list) option"   \<comment> \<open>descriptors, time-out\<close>
  evl_create_xbuf :: "nat \<Rightarrow> nat \<Rightarrow> string \<Rightarrow> 'k \<Rightarrow> int \<times> 'k"
  xbuf_write :: "int \<Rightarrow> nat \<Rightarrow> 'k \<Rightarrow> 'k option"          \<comment> \<open>\<open>write\<close> to a cross-buffer\<close>
  xbuf_read :: "int \<Rightarrow> nat \<Rightarrow> 'k \<Rightarrow> (int \<times> 'k) option"   \<comment> \<open>\<open>read\<close> from one\<close>
  oob_write :: "int \<Rightarrow> nat \<Rightarrow> 'k \<Rightarrow> 'k option"
  oob_read :: "int \<Rightarrow> nat \<Rightarrow> 'k \<Rightarrow> (int \<times> 'k) option"
  k_errno :: "'k \<Rightarrow> int"

subsection \<open>XenomaiConditionVariable\<close>

definition NUM_ELEMENTS :: nat where
  "NUM_ELEMENTS = 64"

definition INFINITE_POLL_TIME :: int where
  "INFINITE_POLL_TIME = - 1"

record xenomai_cv =
  socket_handle :: int
  rt_file :: int
  non_rt_file :: int
  xenomai_id :: nat

definition xenomai_set_up_socket ::
  "'k rt_kernel \<Rightarrow> (int \<Rightarrow> string) \<Rightarrow> nat \<Rightarrow> 'k \<Rightarrow> (failure + int) \<times> 'k" where
  "xenomai_set_up_socket K strerror i w =
     (case cobalt_socket K w of (s, w1) \<Rightarrow>
        if s < 0 then (Inl (Runtime_Error ''xddp support not enabled in kernel''), w1)
        else (case cobalt_bind K s i (cobalt_setsockopt K s (NUM_ELEMENTS * 1) w1) of (res, w2) \<Rightarrow>
                if res < 0 then (Inl (Runtime_Error (strerror (k_errno K w2))), w2) else (Inr s, w2)))"

definition xenomai_set_up_files ::
  "'k rt_kernel \<Rightarrow> (int \<Rightarrow> string) \<Rightarrow> nat \<Rightarrow> 'k \<Rightarrow> (failure + int \<times> int) \<times> 'k" where
  "xenomai_set_up_files K strerror i w =
     (case k_eventfd K w of (non_rt, w1) \<Rightarrow>
        if non_rt \<le> 0 then (Inl (Runtime_Error (strerror (k_errno K w1))), w1)
        else (case k_open K (''/dev/rtp'' @ dec i) w1 of (rt, w2) \<Rightarrow>
                if rt \<le> 0 then (Inl (Runtime_Error (strerror (k_errno K w2))), w2) else (Inr (rt, non_rt), w2)))"

definition xenomai_cv_ctor ::
  "'k rt_kernel \<Rightarrow> (int \<Rightarrow> string) \<Rightarrow> nat \<Rightarrow> 'k \<Rightarrow> (failure + xenomai_cv) \<times> 'k" where
  "xenomai_cv_ctor K strerror i w =
     (case xenomai_set_up_socket K strerror i w of
        (Inl f, w1) \<Rightarrow> (Inl f, w1)
      | (Inr s, w1) \<Rightarrow>
          (case xenomai_set_up_files K strerror i w1 of
             (Inl f, w2) \<Rightarrow> (Inl f, w2)
           | (Inr (rt, non_rt), w2) \<Rightarrow>
               (Inr \<lparr>socket_handle = s, rt_file = rt, non_rt_file = non_rt, xenomai_id = i\<rparr>, w2)))"

text \<open>The destructor closes the descriptors and gives the id back.\<close>

definition xenomai_cv_dtor :: "'k rt_kernel \<Rightarrow> xenomai_cv \<Rightarrow> bool list \<Rightarrow> 'k \<Rightarrow> bool list \<times> 'k" where
  "xenomai_cv_dtor K cv ids w =
     (drop_id XenomaiConditionVariable (xenomai_id cv) ids,
      cobalt_close K (socket_handle cv) (k_close K (non_rt_file cv) (k_close K (rt_file cv) w)))"

text \<open>\<open>notify\<close> sends one byte on the socket, or writes the 8 bytes of an event.\<close>

definition xenomai_cv_notify :: "'k rt_kernel \<Rightarrow> bool \<Rightarrow> xenomai_cv \<Rightarrow> 'k \<Rightarrow> 'k" where
  "xenomai_cv_notify K realtime_thread cv w =
     (if realtime_thread then cobalt_sendto K (socket_handle cv) 1 w else k_write K (non_rt_file cv) 8 w)"

text \<open>The loop that drains the descriptors, each with its \<open>revents\<close>.\<close>

fun xenomai_drain :: "'k rt_kernel \<Rightarrow> (int \<times> int) list \<Rightarrow> int \<Rightarrow> 'k \<Rightarrow> int \<times> 'k" where
  "xenomai_drain K [] len w = (len, w)"
| "xenomai_drain K ((fd, revents) # ts) len w =
     (if revents \<noteq> 0
      then (case k_read K fd NUM_ELEMENTS w of (n, w') \<Rightarrow> xenomai_drain K ts (len + n) w')
      else xenomai_drain K ts len w)"

definition xenomai_cv_wait :: "'k rt_kernel \<Rightarrow> xenomai_cv \<Rightarrow> 'k \<Rightarrow> (bool \<times> 'k) option" where
  "xenomai_cv_wait K cv w =
     (let targets = [rt_file cv, non_rt_file cv]
      in case k_poll K targets INFINITE_POLL_TIME w of
           None \<Rightarrow> None
         | Some (_, revents) \<Rightarrow>
             (case xenomai_drain K (zip targets revents) 0 w of (len, w') \<Rightarrow> Some (len > 1, w')))"

subsection \<open>EvlConditionVariable\<close>

definition XBUF_SIZE :: nat where
  "XBUF_SIZE = 1024"

definition EVL_COND_VAR_WAIT_TIMEOUT :: int where
  "EVL_COND_VAR_WAIT_TIMEOUT = 1000"

definition EVL_SHUTDOWN_RETRIES :: nat where
  "EVL_SHUTDOWN_RETRIES = 10"

record evl_cv =
  xbuf_to_rt :: int
  xbuf_to_nonrt :: int
  evl_id :: nat

definition evl_cv_ctor :: "'k rt_kernel \<Rightarrow> (int \<Rightarrow> string) \<Rightarrow> nat \<Rightarrow> 'k \<Rightarrow> (failure + evl_cv) \<times> 'k" where
  "evl_cv_ctor K strerror i w =
     (case evl_create_xbuf K 0 XBUF_SIZE (''twinecv-tort-buf-'' @ dec i) w of (to_rt, w1) \<Rightarrow>
        if to_rt < 0 then (Inl (Runtime_Error (strerror (k_errno K w1))), w1)
        else (case evl_create_xbuf K XBUF_SIZE 0 (''twinecv-tononrt-buf-'' @ dec i) w1 of (to_nonrt, w2) \<Rightarrow>
                if to_rt < 0 then (Inl (Runtime_Error (strerror (k_errno K w2))), w2)
                else (Inr \<lparr>xbuf_to_rt = to_rt, xbuf_to_nonrt = to_nonrt, evl_id = i\<rparr>, w2)))"

text \<open>
  The destructor closes the buffers and waits for the waiter to leave: the successive values
  of \<open>_is_waiting\<close> are given (\<open>False\<close> after the end of the list). The first result is the time
  slept, in milliseconds.
\<close>

fun evl_shutdown_loop :: "nat \<Rightarrow> bool list \<Rightarrow> int" where
  "evl_shutdown_loop (Suc retries) (True # ws) =
     EVL_COND_VAR_WAIT_TIMEOUT div (int EVL_SHUTDOWN_RETRIES div 2) + evl_shutdown_loop retries ws"
| "evl_shutdown_loop _ _ = 0"

definition evl_cv_dtor :: "'k rt_kernel \<Rightarrow> bool list \<Rightarrow> evl_cv \<Rightarrow> 'k \<Rightarrow> int \<times> 'k" where
  "evl_cv_dtor K is_waiting cv w =
     (evl_shutdown_loop EVL_SHUTDOWN_RETRIES is_waiting, k_close K (xbuf_to_nonrt cv) (k_close K (xbuf_to_rt cv) w))"

text \<open>\<open>None\<close>: the write blocks.\<close>

definition evl_cv_notify :: "'k rt_kernel \<Rightarrow> bool \<Rightarrow> evl_cv \<Rightarrow> 'k \<Rightarrow> 'k option" where
  "evl_cv_notify K inband cv w =
     (if \<not> inband then oob_write K (xbuf_to_nonrt cv) 1 w else xbuf_write K (xbuf_to_rt cv) 1 w)"

definition POLLIN :: int where
  "POLLIN = 1"

text \<open>The errors \<open>POLLERR\<close>, \<open>POLLHUP\<close>, \<open>POLLNVAL\<close>.\<close>

definition POLL_FAULTS :: int where
  "POLL_FAULTS = (8 OR 16 OR 32)"

text \<open>
  The in-band loop: \<open>polls\<close> are the answers of \<open>poll\<close> in the successive rounds, its result and
  \<open>revents\<close>. \<open>None\<close>: still polling after all of them, or in a \<open>read\<close> that blocks.
\<close>

fun evl_poll_loop :: "'k rt_kernel \<Rightarrow> int \<Rightarrow> (int \<times> int) list \<Rightarrow> 'k \<Rightarrow> (int \<times> 'k) option" where
  "evl_poll_loop K fd [] w = None"
| "evl_poll_loop K fd ((res, revents) # polls) w =
     (if res > 0 \<and> (revents OR POLLIN) \<noteq> 0 then xbuf_read K fd 1 w
      else if (revents OR POLL_FAULTS) \<noteq> 0 then Some (0, w)
      else evl_poll_loop K fd polls w)"

definition evl_cv_wait :: "'k rt_kernel \<Rightarrow> bool \<Rightarrow> (int \<times> int) list \<Rightarrow> evl_cv \<Rightarrow> 'k \<Rightarrow> (bool \<times> 'k) option" where
  "evl_cv_wait K inband polls cv w =
     map_option (\<lambda>(len, w'). (len > 0, w'))
       (if \<not> inband then oob_read K (xbuf_to_rt cv) 1 w
        else evl_poll_loop K (xbuf_to_nonrt cv) polls w)"

subsection \<open>What is known of the kernels\<close>

text \<open>Opening and closing: \<open>fds\<close> are the descriptors that are open.\<close>

definition tracks :: "'k rt_kernel \<Rightarrow> ('k \<Rightarrow> int multiset) \<Rightarrow> bool" where
  "tracks K fds \<longleftrightarrow>
     (\<forall>w r w'. cobalt_socket K w = (r, w') \<longrightarrow> fds w' = (if r \<ge> 0 then add_mset r (fds w) else fds w)) \<and>
     (\<forall>w r w'. k_eventfd K w = (r, w') \<longrightarrow> fds w' = (if r \<ge> 0 then add_mset r (fds w) else fds w)) \<and>
     (\<forall>path w r w'. k_open K path w = (r, w') \<longrightarrow> fds w' = (if r \<ge> 0 then add_mset r (fds w) else fds w)) \<and>
     (\<forall>m n name w r w'. evl_create_xbuf K m n name w = (r, w') \<longrightarrow>
        fds w' = (if r \<ge> 0 then add_mset r (fds w) else fds w)) \<and>
     (\<forall>fd n w. fds (cobalt_setsockopt K fd n w) = fds w) \<and>
     (\<forall>fd i w. fds (snd (cobalt_bind K fd i w)) = fds w) \<and>
     (\<forall>fd w. fds (k_close K fd w) = fds w - {#fd#}) \<and>
     (\<forall>fd w. fds (cobalt_close K fd w) = fds w - {#fd#})"

lemma tracksD:
  assumes "tracks K fds"
  shows "cobalt_socket K w = (r, w') \<Longrightarrow> fds w' = (if r \<ge> 0 then add_mset r (fds w) else fds w)"
    and "k_eventfd K w = (r, w') \<Longrightarrow> fds w' = (if r \<ge> 0 then add_mset r (fds w) else fds w)"
    and "k_open K path w = (r, w') \<Longrightarrow> fds w' = (if r \<ge> 0 then add_mset r (fds w) else fds w)"
    and "evl_create_xbuf K m n name w = (r, w') \<Longrightarrow> fds w' = (if r \<ge> 0 then add_mset r (fds w) else fds w)"
    and "fds (cobalt_setsockopt K fd n w) = fds w"
    and "cobalt_bind K fd i w = (r, w') \<Longrightarrow> fds w' = fds w"
    and "fds (k_close K fd w) = fds w - {#fd#}"
    and "fds (cobalt_close K fd w) = fds w - {#fd#}"
  using assms unfolding tracks_def by (metis snd_conv)+

text \<open>
  The queues behind a Xenomai variable: the bytes sent on its socket, at most the size
  given to \<open>setsockopt\<close>, can be read from \<open>/dev/rtp<id>\<close>, all at once; the event descriptor is a
  counting semaphore that is read one event at a time. \<open>poll\<close> blocks while there is nothing.
\<close>

definition xenomai_queues :: "'k rt_kernel \<Rightarrow> xenomai_cv \<Rightarrow> ('k \<Rightarrow> nat) \<Rightarrow> ('k \<Rightarrow> nat) \<Rightarrow> bool" where
  "xenomai_queues K cv bytes events \<longleftrightarrow>
     (\<forall>w. bytes w \<le> NUM_ELEMENTS) \<and>
     (\<forall>w. bytes (cobalt_sendto K (socket_handle cv) 1 w) = min NUM_ELEMENTS (bytes w + 1)
        \<and> events (cobalt_sendto K (socket_handle cv) 1 w) = events w) \<and>
     (\<forall>w. events (k_write K (non_rt_file cv) 8 w) = events w + 1 \<and> bytes (k_write K (non_rt_file cv) 8 w) = bytes w) \<and>
     (\<forall>w. bytes w = 0 \<and> events w = 0 \<longrightarrow> k_poll K [rt_file cv, non_rt_file cv] INFINITE_POLL_TIME w = None) \<and>
     (\<forall>w. bytes w > 0 \<or> events w > 0 \<longrightarrow>
        (\<exists>n e1 e2. k_poll K [rt_file cv, non_rt_file cv] INFINITE_POLL_TIME w = Some (n, [e1, e2])
           \<and> (e1 \<noteq> 0 \<longleftrightarrow> bytes w > 0) \<and> (e2 \<noteq> 0 \<longleftrightarrow> events w > 0))) \<and>
     (\<forall>w. bytes w > 0 \<longrightarrow> (\<exists>w'. k_read K (rt_file cv) NUM_ELEMENTS w = (int (bytes w), w')
        \<and> bytes w' = 0 \<and> events w' = events w)) \<and>
     (\<forall>w. events w > 0 \<longrightarrow> (\<exists>w'. k_read K (non_rt_file cv) NUM_ELEMENTS w = (8, w')
        \<and> events w' = events w - 1 \<and> bytes w' = bytes w))"

lemma xenomai_queuesD:
  assumes "xenomai_queues K cv bytes events"
  shows "bytes (cobalt_sendto K (socket_handle cv) 1 w) = min NUM_ELEMENTS (bytes w + 1)"
    and "events (cobalt_sendto K (socket_handle cv) 1 w) = events w"
    and "events (k_write K (non_rt_file cv) 8 w) = events w + 1"
    and "bytes (k_write K (non_rt_file cv) 8 w) = bytes w"
    and "bytes w = 0 \<Longrightarrow> events w = 0 \<Longrightarrow> k_poll K [rt_file cv, non_rt_file cv] INFINITE_POLL_TIME w = None"
    and "bytes w > 0 \<or> events w > 0 \<Longrightarrow>
      \<exists>n e1 e2. k_poll K [rt_file cv, non_rt_file cv] INFINITE_POLL_TIME w = Some (n, [e1, e2])
         \<and> (e1 \<noteq> 0 \<longleftrightarrow> bytes w > 0) \<and> (e2 \<noteq> 0 \<longleftrightarrow> events w > 0)"
    and "bytes w > 0 \<Longrightarrow> \<exists>w'. k_read K (rt_file cv) NUM_ELEMENTS w = (int (bytes w), w')
      \<and> bytes w' = 0 \<and> events w' = events w"
    and "events w > 0 \<Longrightarrow> \<exists>w'. k_read K (non_rt_file cv) NUM_ELEMENTS w = (8, w')
      \<and> events w' = events w - 1 \<and> bytes w' = bytes w"
  using assms unfolding xenomai_queues_def by blast+

text \<open>
  The buffers of an EVL variable, one for each direction, with the numbers of bytes in them: \<open>unread\<close>
  from out-of-band to in-band threads, \<open>pend\<close> the other way. A write blocks while the buffer is full.
  A read takes one byte if there is one; of an empty buffer it may block or fail.
\<close>

definition evl_buffers :: "'k rt_kernel \<Rightarrow> evl_cv \<Rightarrow> ('k \<Rightarrow> nat) \<Rightarrow> ('k \<Rightarrow> nat) \<Rightarrow> bool" where
  "evl_buffers K cv unread pend \<longleftrightarrow>
     (\<forall>w. unread w \<le> XBUF_SIZE \<and> pend w \<le> XBUF_SIZE) \<and>
     (\<forall>w. case oob_write K (xbuf_to_nonrt cv) 1 w of
            None \<Rightarrow> unread w = XBUF_SIZE
          | Some w' \<Rightarrow> unread w' = unread w + 1 \<and> pend w' = pend w) \<and>
     (\<forall>w. case xbuf_write K (xbuf_to_rt cv) 1 w of
            None \<Rightarrow> pend w = XBUF_SIZE
          | Some w' \<Rightarrow> pend w' = pend w + 1 \<and> unread w' = unread w) \<and>
     (\<forall>w. case xbuf_read K (xbuf_to_nonrt cv) 1 w of
            None \<Rightarrow> unread w = 0
          | Some (n, w') \<Rightarrow> unread w' = unread w - 1 \<and> pend w' = pend w \<and> (if unread w > 0 then n = 1 else n \<le> 0)) \<and>
     (\<forall>w. case oob_read K (xbuf_to_rt cv) 1 w of
            None \<Rightarrow> pend w = 0
          | Some (n, w') \<Rightarrow> pend w' = pend w - 1 \<and> unread w' = unread w \<and> (if pend w > 0 then n = 1 else n \<le> 0))"

lemma evl_buffersD:
  assumes "evl_buffers K cv unread pend"
  shows "unread w \<le> XBUF_SIZE" "pend w \<le> XBUF_SIZE"
    and "oob_write K (xbuf_to_nonrt cv) 1 w = Some w' \<Longrightarrow> unread w' = unread w + 1 \<and> pend w' = pend w"
    and "oob_write K (xbuf_to_nonrt cv) 1 w = None \<Longrightarrow> unread w = XBUF_SIZE"
    and "xbuf_write K (xbuf_to_rt cv) 1 w = Some w' \<Longrightarrow> pend w' = pend w + 1 \<and> unread w' = unread w"
    and "xbuf_write K (xbuf_to_rt cv) 1 w = None \<Longrightarrow> pend w = XBUF_SIZE"
    and "xbuf_read K (xbuf_to_nonrt cv) 1 w = Some (n, w') \<Longrightarrow>
      unread w' = unread w - 1 \<and> pend w' = pend w \<and> (if unread w > 0 then n = 1 else n \<le> 0)"
    and "xbuf_read K (xbuf_to_nonrt cv) 1 w = None \<Longrightarrow> unread w = 0"
    and "oob_read K (xbuf_to_rt cv) 1 w = Some (n, w') \<Longrightarrow>
      pend w' = pend w - 1 \<and> unread w' = unread w \<and> (if pend w > 0 then n = 1 else n \<le> 0)"
    and "oob_read K (xbuf_to_rt cv) 1 w = None \<Longrightarrow> pend w = 0"
proof -
  note a = assms [unfolded evl_buffers_def]
  show "unread w \<le> XBUF_SIZE" "pend w \<le> XBUF_SIZE" using a by blast+
  have ow: "case oob_write K (xbuf_to_nonrt cv) 1 w of None \<Rightarrow> unread w = XBUF_SIZE
      | Some w' \<Rightarrow> unread w' = unread w + 1 \<and> pend w' = pend w" using a by blast
  have xw: "case xbuf_write K (xbuf_to_rt cv) 1 w of None \<Rightarrow> pend w = XBUF_SIZE
      | Some w' \<Rightarrow> pend w' = pend w + 1 \<and> unread w' = unread w" using a by blast
  have xr: "case xbuf_read K (xbuf_to_nonrt cv) 1 w of None \<Rightarrow> unread w = 0
      | Some (n, w') \<Rightarrow> unread w' = unread w - 1 \<and> pend w' = pend w \<and> (if unread w > 0 then n = 1 else n \<le> 0)"
    using a by blast
  have or: "case oob_read K (xbuf_to_rt cv) 1 w of None \<Rightarrow> pend w = 0
      | Some (n, w') \<Rightarrow> pend w' = pend w - 1 \<and> unread w' = unread w \<and> (if pend w > 0 then n = 1 else n \<le> 0)"
    using a by blast
  show "oob_write K (xbuf_to_nonrt cv) 1 w = Some w' \<Longrightarrow> unread w' = unread w + 1 \<and> pend w' = pend w"
    "oob_write K (xbuf_to_nonrt cv) 1 w = None \<Longrightarrow> unread w = XBUF_SIZE" using ow by simp_all
  show "xbuf_write K (xbuf_to_rt cv) 1 w = Some w' \<Longrightarrow> pend w' = pend w + 1 \<and> unread w' = unread w"
    "xbuf_write K (xbuf_to_rt cv) 1 w = None \<Longrightarrow> pend w = XBUF_SIZE" using xw by simp_all
  show "xbuf_read K (xbuf_to_nonrt cv) 1 w = Some (n, w') \<Longrightarrow>
      unread w' = unread w - 1 \<and> pend w' = pend w \<and> (if unread w > 0 then n = 1 else n \<le> 0)"
    "xbuf_read K (xbuf_to_nonrt cv) 1 w = None \<Longrightarrow> unread w = 0" using xr by simp_all
  show "oob_read K (xbuf_to_rt cv) 1 w = Some (n, w') \<Longrightarrow>
      pend w' = pend w - 1 \<and> unread w' = unread w \<and> (if pend w > 0 then n = 1 else n \<le> 0)"
    "oob_read K (xbuf_to_rt cv) 1 w = None \<Longrightarrow> pend w = 0" using or by simp_all
qed

subsection \<open>Descriptors\<close>

lemma drop_xenomai_id: "i < length ids \<Longrightarrow> drop_id XenomaiConditionVariable i ids = ids[i := False]"
  by (simp add: drop_id_def deregister_id_def)

text \<open>
  C37. A Xenomai condition variable that has been made and destroyed leaves the open descriptors
  and the ids as they were. But a constructor that throws closes nothing: whatever it had opened
  stays open, at least the socket if that was not what failed.
\<close>

theorem xenomai_cv_lifetime:
  assumes "tracks K fds" and "xenomai_cv_ctor K strerror i w = (res, w')"
    and "i < length ids"
  shows "case res of
      Inr cv \<Rightarrow> fds w' = {#socket_handle cv, non_rt_file cv, rt_file cv#} + fds w
        \<and> fst (xenomai_cv_dtor K cv ids w') = ids[i := False] \<and> fds (snd (xenomai_cv_dtor K cv ids w')) = fds w
    | Inl f \<Rightarrow> (\<exists>open_ones. fds w' = open_ones + fds w \<and> (0 \<le> fst (cobalt_socket K w) \<longrightarrow> open_ones \<noteq> {#}))"
proof -
  note t = tracksD [OF assms(1)]
  obtain s w1 where s: "cobalt_socket K w = (s, w1)" by fastforce
  show ?thesis
  proof (cases "s < 0")
    case True
    then show ?thesis using assms(2) s t(1) [OF s] by (auto simp: xenomai_cv_ctor_def xenomai_set_up_socket_def)
  next
    case s0: False
    obtain b w2 where b: "cobalt_bind K s i (cobalt_setsockopt K s (NUM_ELEMENTS * 1) w1) = (b, w2)" by fastforce
    have f2: "fds w2 = {#s#} + fds w" using t(6) [OF b] t(5) t(1) [OF s] s0 by simp
    obtain e w3 where e: "k_eventfd K w2 = (e, w3)" by fastforce
    obtain r w4 where r: "k_open K (''/dev/rtp'' @ dec i) w3 = (r, w4)" by fastforce
    note m = assms(2) s b e r s0 t(2) [OF e] t(3) [OF r] f2
    show ?thesis
    proof (cases "b < 0 \<or> e \<le> 0 \<or> r \<le> 0")
      case True
      then obtain f where f: "res = Inl f" and
        w': "w' = (if b < 0 then w2 else if e \<le> 0 then w3 else w4)"
        using m by (auto simp: xenomai_cv_ctor_def xenomai_set_up_socket_def xenomai_set_up_files_def split: if_splits)
      have "\<exists>A. fds w' = add_mset s A + fds w"
        using w' m by (auto intro: exI [of _ "{#}"] exI [of _ "{#e#}"] exI [of _ "{#e, r#}"])
      then show ?thesis using f s by fastforce
    next
      case False
      then have "res = Inr \<lparr>socket_handle = s, rt_file = r, non_rt_file = e, xenomai_id = i\<rparr>" "w' = w4"
        using m by (auto simp: xenomai_cv_ctor_def xenomai_set_up_socket_def xenomai_set_up_files_def)
      then show ?thesis using m False t(7,8) assms(3)
        by (simp add: xenomai_cv_dtor_def drop_xenomai_id)
    qed
  qed
qed

subsection \<open>An example kernel\<close>

text \<open>
  A kernel for one variable: counters of the unread bytes and events and the descriptors that are
  open, numbered from 3 (so that a Xenomai variable has its socket at 3, its events at 4 and
  its file at 5); requests for descriptors can be refused.
\<close>

record example_world =
  ex_bytes :: nat
  ex_events :: nat
  ex_open :: "int list"
  ex_refuse :: "bool list"    \<comment> \<open>the answers to the next requests\<close>

definition ex_request :: "example_world \<Rightarrow> int \<times> example_world" where
  "ex_request w =
     (case ex_refuse w of
        True # rs \<Rightarrow> (- 1, w\<lparr>ex_refuse := rs\<rparr>)
      | rs \<Rightarrow> (3 + int (length (ex_open w)),
               w\<lparr>ex_open := (3 + int (length (ex_open w))) # ex_open w, ex_refuse := tl rs\<rparr>))"

definition ex_close :: "int \<Rightarrow> example_world \<Rightarrow> example_world" where
  "ex_close fd w = w\<lparr>ex_open := remove1 fd (ex_open w)\<rparr>"

definition ex_world :: "bool list \<Rightarrow> example_world" where
  "ex_world refusals = \<lparr>ex_bytes = 0, ex_events = 0, ex_open = [], ex_refuse = refusals\<rparr>"

definition ex_cv :: xenomai_cv where
  "ex_cv = \<lparr>socket_handle = 3, rt_file = 5, non_rt_file = 4, xenomai_id = 0\<rparr>"

definition ex_kernel :: "example_world rt_kernel" where
  "ex_kernel =
     \<lparr>cobalt_socket = ex_request, cobalt_setsockopt = (\<lambda>fd n w. w), cobalt_bind = (\<lambda>fd i w. (0, w)),
      cobalt_sendto = (\<lambda>fd n w. w\<lparr>ex_bytes := min NUM_ELEMENTS (ex_bytes w + n)\<rparr>), cobalt_close = ex_close,
      k_eventfd = ex_request, k_open = (\<lambda>path. ex_request), k_close = ex_close,
      k_write = (\<lambda>fd n w. if fd = 4 then w\<lparr>ex_events := ex_events w + 1\<rparr> else w),
      k_read = (\<lambda>fd n w. if fd = 5 then (int (min NUM_ELEMENTS (ex_bytes w)), w\<lparr>ex_bytes := 0\<rparr>)
         else (8, w\<lparr>ex_events := ex_events w - 1\<rparr>)),
      k_poll = (\<lambda>fds time w. if ex_bytes w = 0 \<and> ex_events w = 0 then None
         else Some (1, [if ex_bytes w > 0 then 1 else 0, if ex_events w > 0 then 1 else 0])),
      evl_create_xbuf = (\<lambda>m n name. ex_request),
      xbuf_write = (\<lambda>fd n w. if ex_events w \<ge> XBUF_SIZE then None else Some (w\<lparr>ex_events := ex_events w + 1\<rparr>)),
      xbuf_read = (\<lambda>fd n w. if ex_bytes w = 0 then None else Some (1, w\<lparr>ex_bytes := min XBUF_SIZE (ex_bytes w) - 1\<rparr>)),
      oob_write = (\<lambda>fd n w. if ex_bytes w \<ge> XBUF_SIZE then None else Some (w\<lparr>ex_bytes := ex_bytes w + 1\<rparr>)),
      oob_read = (\<lambda>fd n w. if ex_events w = 0 then None else Some (1, w\<lparr>ex_events := min XBUF_SIZE (ex_events w) - 1\<rparr>)),
      k_errno = (\<lambda>w. 12)\<rparr>"

lemma ex_tracks: "tracks ex_kernel (\<lambda>w. mset (ex_open w))"
  by (auto simp: tracks_def ex_kernel_def ex_request_def ex_close_def split: list.splits bool.splits)

lemma ex_queues: "xenomai_queues ex_kernel ex_cv (\<lambda>w. min NUM_ELEMENTS (ex_bytes w)) ex_events"
  by (auto simp: xenomai_queues_def ex_kernel_def ex_cv_def NUM_ELEMENTS_def)

lemma ex_buffers: "evl_buffers ex_kernel cv (\<lambda>w. min XBUF_SIZE (ex_bytes w)) (\<lambda>w. min XBUF_SIZE (ex_events w))"
  by (auto simp: evl_buffers_def ex_kernel_def XBUF_SIZE_def)

text \<open>One request granted, one refused: the socket stays open.\<close>

theorem xenomai_cv_lifetime_witness:
  "\<exists>open_ones. mset (ex_open (snd (xenomai_cv_ctor ex_kernel (\<lambda>_. ''No memory'') 0 (ex_world [False, True])))) = open_ones
     \<and> open_ones \<noteq> {#}"
proof -
  let ?r = "xenomai_cv_ctor ex_kernel (\<lambda>_. ''No memory'') 0 (ex_world [False, True])"
  have f: "fst ?r = Inl (Runtime_Error ''No memory'')" and o: "0 \<le> fst (cobalt_socket ex_kernel (ex_world [False, True]))"
    by code_simp+
  have c: "?r = (Inl (Runtime_Error ''No memory''), snd ?r)" using f by (metis prod.collapse)
  have "ex_open (ex_world [False, True]) = []" by code_simp
  then show ?thesis using xenomai_cv_lifetime [OF ex_tracks c, of "[True]"] o by auto
qed

subsection \<open>Notifications\<close>

text \<open>
  C38. The Xenomai \<open>wait\<close> blocks exactly while nothing has been sent, and then takes all
  realtime bytes and one event. It returns true if there was an event or more than one byte:
  so every notification of a thread that is not realtime gives one \<open>wait\<close> that is true, but
  a single one of a realtime thread, the documented use, wakes the waiter with false, although
  \<open>twine.h\<close> promises true after a call to \<open>notify\<close>.
\<close>

theorem xenomai_wait_result:
  assumes "xenomai_queues K cv bytes events"
  shows "(xenomai_cv_wait K cv w = None \<longleftrightarrow> bytes w = 0 \<and> events w = 0)
    \<and> (\<forall>b w'. xenomai_cv_wait K cv w = Some (b, w') \<longrightarrow>
         b = (events w > 0 \<or> bytes w > 1) \<and> bytes w' = 0 \<and> events w' = events w - 1)
    \<and> (bytes w = 0 \<and> events w = 0 \<longrightarrow>
         (\<exists>w1 w2. xenomai_cv_wait K cv (xenomai_cv_notify K True cv w) = Some (False, w1)
            \<and> xenomai_cv_wait K cv (xenomai_cv_notify K False cv w) = Some (True, w2)))"
proof -
  note q = xenomai_queuesD [OF assms]
  have w: "if bytes w = 0 \<and> events w = 0 then xenomai_cv_wait K cv w = None
      else \<exists>w'. xenomai_cv_wait K cv w = Some (events w > 0 \<or> bytes w > 1, w') \<and> bytes w' = 0 \<and> events w' = events w - 1"
    for w
  proof (cases "bytes w = 0 \<and> events w = 0")
    case True
    then show ?thesis using q(5) [of w] by (simp add: xenomai_cv_wait_def)
  next
    case False
    then obtain n e1 e2 where p: "k_poll K [rt_file cv, non_rt_file cv] INFINITE_POLL_TIME w = Some (n, [e1, e2])"
      and e: "e1 \<noteq> 0 \<longleftrightarrow> bytes w > 0" "e2 \<noteq> 0 \<longleftrightarrow> events w > 0" using q(6) [of w] by auto
    obtain n1 w1 where r: "k_read K (rt_file cv) NUM_ELEMENTS w = (n1, w1)" by fastforce
    have r1: "bytes w > 0 \<Longrightarrow> n1 = int (bytes w) \<and> bytes w1 = 0 \<and> events w1 = events w"
      using q(7) [of w] r by auto
    have r2: "events v > 0 \<Longrightarrow> \<exists>v'. k_read K (non_rt_file cv) NUM_ELEMENTS v = (8, v') \<and> events v' = events v - 1 \<and> bytes v' = bytes v"
      for v using q(8) [of v] by auto
    show ?thesis
      using False p e r r1 r2 [of w] r2 [of w1]
      by (cases "bytes w = 0"; cases "events w = 0") (auto simp: xenomai_cv_wait_def)
  qed
  have "bytes (xenomai_cv_notify K True cv w) = 1" "events (xenomai_cv_notify K True cv w) = 0"
    "bytes (xenomai_cv_notify K False cv w) = 0" "events (xenomai_cv_notify K False cv w) = 1"
    if "bytes w = 0" "events w = 0"
    using that q(1-4) by (simp_all add: xenomai_cv_notify_def NUM_ELEMENTS_def)
  then show ?thesis
    using w [of w] w [of "xenomai_cv_notify K True cv w"] w [of "xenomai_cv_notify K False cv w"]
    by (auto split: if_splits)
qed

theorem xenomai_wait_result_witness:
  "\<exists>w. xenomai_cv_wait ex_kernel ex_cv (xenomai_cv_notify ex_kernel True ex_cv (ex_world [])) = Some (False, w)"
proof -
  have "min NUM_ELEMENTS (ex_bytes (ex_world [])) = 0" "ex_events (ex_world []) = 0" by code_simp+
  then show ?thesis using xenomai_wait_result [OF ex_queues, of "ex_world []"] by blast
qed

lemma or_nonzero: "(x OR 1) \<noteq> (0::int)" "(x OR 56) \<noteq> (0::int)"
proof -
  have "bit (x OR 1) 0" by (simp add: bit_simps)
  then show "(x OR 1) \<noteq> 0" by auto
  have "bit (56::int) 3" by (simp add: bit_iff_odd)
  then have "bit (x OR 56) 3" by (simp add: bit_or_iff)
  then show "(x OR 56) \<noteq> 0" by auto
qed

lemma evl_poll_once:
  "evl_poll_loop K fd ((res, revents) # polls) w = (if res > 0 then xbuf_read K fd 1 w else Some (0, w))"
  using or_nonzero [of revents] by (simp add: POLLIN_def POLL_FAULTS_def)

lemma evl_wait_inband:
  assumes "evl_buffers K cv unread pend"
  shows "case evl_cv_wait K True ((res, revents) # polls) cv w of
      None \<Rightarrow> res > 0 \<and> unread w = 0
    | Some (b, w') \<Rightarrow> b = (res > 0 \<and> unread w > 0) \<and> pend w' = pend w \<and> unread w' = (if b then unread w - 1 else unread w)"
  using evl_buffersD(7,8) [OF assms, of w]
  by (auto simp: evl_cv_wait_def evl_poll_once simp del: evl_poll_loop.simps split: option.splits if_splits)

lemma evl_wait_oob:
  assumes "evl_buffers K cv unread pend"
  shows "case evl_cv_wait K False polls cv w of
      None \<Rightarrow> pend w = 0
    | Some (b, w') \<Rightarrow> b = (pend w > 0) \<and> unread w' = unread w \<and> pend w' = (if b then pend w - 1 else pend w)"
  using evl_buffersD(9,10) [OF assms, of w] by (auto simp: evl_cv_wait_def split: option.splits if_splits)

text \<open>
  C39. The EVL \<open>wait\<close>, for every answer of \<open>poll\<close>. The in-band \<open>wait\<close> ends after one \<open>poll\<close>, also after a
  time-out, where the comment in the loop says that it polls again (the tests combine \<open>revents\<close> with
  the flags by a bitwise or, which is never zero), unless \<open>poll\<close> reports something where there is no data, an
  error: then the code reads nevertheless, and that is the only case in which it can block. It returns true, and
  takes one notification, exactly if \<open>poll\<close> reported something and there was a notification. The
  out-of-band \<open>wait\<close> can block only without a notification, and returns true exactly with one. A notification from an
  out-of-band thread reaches the next in-band \<open>wait\<close> that does not time out; but one from a thread of the waiter's own
  kind makes no \<open>wait\<close> true.
\<close>

theorem evl_wait_result:
  assumes "evl_buffers K cv unread pend"
  shows "(case evl_cv_wait K True ((res, revents) # polls) cv w of
        None \<Rightarrow> res > 0 \<and> unread w = 0
      | Some (b, w') \<Rightarrow> b = (res > 0 \<and> unread w > 0) \<and> pend w' = pend w \<and> unread w' = (if b then unread w - 1 else unread w))
    \<and> (case evl_cv_wait K False polls cv w of
        None \<Rightarrow> pend w = 0
      | Some (b, w') \<Rightarrow> b = (pend w > 0) \<and> unread w' = unread w \<and> pend w' = (if b then pend w - 1 else pend w))
    \<and> (\<forall>w1. evl_cv_notify K False cv w = Some w1 \<longrightarrow>
        (res > 0 \<longrightarrow> (\<exists>w2. evl_cv_wait K True ((res, revents) # polls) cv w1 = Some (True, w2) \<and> unread w2 = unread w))
        \<and> (pend w = 0 \<longrightarrow> (\<forall>w2. evl_cv_wait K False polls cv w1 \<noteq> Some (True, w2))))
    \<and> (\<forall>w1. evl_cv_notify K True cv w = Some w1 \<longrightarrow>
        (\<exists>w2. evl_cv_wait K False polls cv w1 = Some (True, w2) \<and> pend w2 = pend w)
        \<and> (unread w = 0 \<longrightarrow> (\<forall>w2. evl_cv_wait K True ((res, revents) # polls) cv w1 \<noteq> Some (True, w2))))"
proof -
  note i = evl_wait_inband [OF assms, where res = res and revents = revents and polls = polls]
    and o = evl_wait_oob [OF assms, where polls = polls]
  have "(res > 0 \<longrightarrow> (\<exists>w2. evl_cv_wait K True ((res, revents) # polls) cv w1 = Some (True, w2) \<and> unread w2 = unread w))
      \<and> (pend w = 0 \<longrightarrow> (\<forall>w2. evl_cv_wait K False polls cv w1 \<noteq> Some (True, w2)))"
    if "evl_cv_notify K False cv w = Some w1" for w1
  proof -
    have "unread w1 = unread w + 1" "pend w1 = pend w"
      using that evl_buffersD(3) [OF assms] by (simp_all add: evl_cv_notify_def)
    then show ?thesis using i [where w = w1] o [where w = w1] by (auto split: option.splits)
  qed
  moreover have "(\<exists>w2. evl_cv_wait K False polls cv w1 = Some (True, w2) \<and> pend w2 = pend w)
      \<and> (unread w = 0 \<longrightarrow> (\<forall>w2. evl_cv_wait K True ((res, revents) # polls) cv w1 \<noteq> Some (True, w2)))"
    if "evl_cv_notify K True cv w = Some w1" for w1
  proof -
    have "pend w1 = pend w + 1" "unread w1 = unread w"
      using that evl_buffersD(5) [OF assms] by (simp_all add: evl_cv_notify_def)
    then show ?thesis using i [where w = w1] o [where w = w1] by (auto split: option.splits)
  qed
  ultimately show ?thesis using i [where w = w] o [where w = w] by blast
qed

text \<open>
  One out-of-band notification: a \<open>wait\<close> whose \<open>poll\<close> times out returns false and leaves it, the next one takes it.
\<close>

theorem evl_wait_result_witness:
  "\<exists>w1 w2 w3. evl_cv_notify ex_kernel False \<lparr>xbuf_to_rt = 3, xbuf_to_nonrt = 4, evl_id = 0\<rparr> (ex_world []) = Some w1
     \<and> evl_cv_wait ex_kernel True [(0, 0)] \<lparr>xbuf_to_rt = 3, xbuf_to_nonrt = 4, evl_id = 0\<rparr> w1 = Some (False, w2)
     \<and> evl_cv_wait ex_kernel True [(1, POLLIN)] \<lparr>xbuf_to_rt = 3, xbuf_to_nonrt = 4, evl_id = 0\<rparr> w2 = Some (True, w3)"
proof -
  let ?cv = "\<lparr>xbuf_to_rt = 3, xbuf_to_nonrt = 4, evl_id = 0\<rparr>"
  have "evl_cv_notify ex_kernel False ?cv (ex_world []) \<noteq> None" by code_simp
  then obtain w1 where w1: "evl_cv_notify ex_kernel False ?cv (ex_world []) = Some w1" by blast
  have "min XBUF_SIZE (ex_bytes (the (evl_cv_notify ex_kernel False ?cv (ex_world [])))) = 1" by code_simp
  then have n: "min XBUF_SIZE (ex_bytes w1) = 1" by (simp add: w1)
  obtain w2 where w2: "evl_cv_wait ex_kernel True [(0, 0)] ?cv w1 = Some (False, w2)" "min XBUF_SIZE (ex_bytes w2) = 1"
    using conjunct1 [OF evl_wait_result [OF ex_buffers, where res = 0 and revents = 0 and polls = "[]" and cv = ?cv and w = w1]] n by (auto split: option.splits)
  obtain w3 where "evl_cv_wait ex_kernel True [(1, POLLIN)] ?cv w2 = Some (True, w3)"
    using conjunct1 [OF evl_wait_result [OF ex_buffers, where res = 1 and revents = POLLIN and polls = "[]" and cv = ?cv and w = w2]] w2(2) by (auto split: option.splits)
  then show ?thesis using w1 w2(1) by blast
qed

lemma evl_shutdown_bound:
  "0 \<le> evl_shutdown_loop n ws \<and> evl_shutdown_loop n ws \<le> 200 * int (min n (length (takeWhile id ws)))"
  by (induction n ws rule: evl_shutdown_loop.induct)
    (auto simp: EVL_COND_VAR_WAIT_TIMEOUT_def EVL_SHUTDOWN_RETRIES_def)

text \<open>
  What the destructor reads from \<open>_is_waiting\<close> when the waiter leaves \<open>wait\<close> at the time \<open>leave\<close>, in
  milliseconds after the buffers were closed, if every sleep takes the time it was asked for.
\<close>

definition waiting_until :: "int \<Rightarrow> nat \<Rightarrow> bool list" where
  "waiting_until leave n = map (\<lambda>k. 200 * int k < leave) [0..<n]"

lemma waiting_until_Suc: "waiting_until leave (Suc n) = (0 < leave) # waiting_until (leave - 200) n"
  by (simp add: waiting_until_def map_upt_Suc algebra_simps del: upt_Suc)

lemma evl_shutdown_waiter:
  "0 \<le> leave \<Longrightarrow> (if leave \<le> 200 * int n then leave \<le> evl_shutdown_loop n (waiting_until leave n)
       \<and> evl_shutdown_loop n (waiting_until leave n) < leave + 200
     else evl_shutdown_loop n (waiting_until leave n) = 200 * int n)"
proof (induction n arbitrary: leave)
  case (Suc n)
  have s: "evl_shutdown_loop (Suc n) (waiting_until leave (Suc n)) =
      (if 0 < leave then 200 + evl_shutdown_loop n (waiting_until (leave - 200) n) else 0)"
    by (simp add: waiting_until_Suc EVL_COND_VAR_WAIT_TIMEOUT_def EVL_SHUTDOWN_RETRIES_def)
  show ?case
  proof (cases "leave \<le> 200")
    case True
    have "waiting_until (leave - 200) n = [] \<or> hd (waiting_until (leave - 200) n) = False"
      using True by (cases n) (auto simp: waiting_until_Suc, simp add: waiting_until_def)
    then have "evl_shutdown_loop n (waiting_until (leave - 200) n) = 0"
      by (cases "(n, waiting_until (leave - 200) n)" rule: evl_shutdown_loop.cases) auto
    then show ?thesis using s True Suc.prems by auto
  next
    case False
    then show ?thesis using s Suc.IH [of "leave - 200"] by (auto split: if_splits)
  qed
qed (auto simp: waiting_until_def)

text \<open>
  C40. The EVL destructor closes both buffers of a variable that has both, and sleeps at most
  two seconds. It returns after the waiter has left, and less than one sleep later, exactly if
  the waiter leaves within two seconds, as an in-band one does, whose \<open>poll\<close> ends after one; a
  waiter in the out-of-band read, which has no time-out, is left with a
  destroyed object. And the constructor succeeds also when the second buffer could not be created (its
  second test repeats the first), and the variable then holds an invalid descriptor.
\<close>

theorem evl_cv_lifetime:
  assumes "tracks K fds" and "evl_cv_ctor K strerror i w = (Inr cv, w')" and "0 \<le> leave"
  shows "fst (evl_cv_dtor K ws cv w') \<le> 2 * EVL_COND_VAR_WAIT_TIMEOUT
    \<and> (if leave \<le> 2 * EVL_COND_VAR_WAIT_TIMEOUT
       then leave \<le> fst (evl_cv_dtor K (waiting_until leave EVL_SHUTDOWN_RETRIES) cv w')
         \<and> fst (evl_cv_dtor K (waiting_until leave EVL_SHUTDOWN_RETRIES) cv w') < leave + 200
       else fst (evl_cv_dtor K (waiting_until leave EVL_SHUTDOWN_RETRIES) cv w') < leave)
    \<and> (0 \<le> xbuf_to_nonrt cv \<longrightarrow> fds (snd (evl_cv_dtor K ws cv w')) = fds w)
    \<and> (0 \<le> xbuf_to_nonrt cv \<longleftrightarrow> 0 \<le> fst (evl_create_xbuf K XBUF_SIZE 0 (''twinecv-tononrt-buf-'' @ dec i)
          (snd (evl_create_xbuf K 0 XBUF_SIZE (''twinecv-tort-buf-'' @ dec i) w))))"
proof -
  note t = tracksD [OF assms(1)]
  obtain a w1 where a: "evl_create_xbuf K 0 XBUF_SIZE (''twinecv-tort-buf-'' @ dec i) w = (a, w1)" by fastforce
  obtain b w2 where b: "evl_create_xbuf K XBUF_SIZE 0 (''twinecv-tononrt-buf-'' @ dec i) w1 = (b, w2)" by fastforce
  have cv: "0 \<le> a" "cv = \<lparr>xbuf_to_rt = a, xbuf_to_nonrt = b, evl_id = i\<rparr>" "w' = w2"
    using assms(2) a b by (auto simp: evl_cv_ctor_def split: if_splits)
  have n: "int EVL_SHUTDOWN_RETRIES = 10" "EVL_COND_VAR_WAIT_TIMEOUT = 1000"
    by (simp_all add: EVL_SHUTDOWN_RETRIES_def EVL_COND_VAR_WAIT_TIMEOUT_def)
  have d: "fst (evl_cv_dtor K v cv w') = evl_shutdown_loop EVL_SHUTDOWN_RETRIES v" for v
    by (simp add: evl_cv_dtor_def)
  have "evl_shutdown_loop EVL_SHUTDOWN_RETRIES ws \<le> 2 * EVL_COND_VAR_WAIT_TIMEOUT"
    using evl_shutdown_bound [of EVL_SHUTDOWN_RETRIES ws] n by linarith
  moreover have "0 \<le> b \<longrightarrow> fds (snd (evl_cv_dtor K ws cv w')) = fds w"
    using a b cv t(4) [OF a] t(4) [OF b] t(7) by (simp add: evl_cv_dtor_def)
  ultimately show ?thesis
    using evl_shutdown_waiter [OF assms(3), of EVL_SHUTDOWN_RETRIES] a b cv(2) unfolding d n
    by (auto split: if_splits)
qed

theorem evl_cv_lifetime_witness:
  "\<not> 0 \<le> xbuf_to_nonrt (projr (fst (evl_cv_ctor ex_kernel (\<lambda>_. []) 0 (ex_world [False, True]))))
   \<and> fst (evl_cv_dtor ex_kernel (waiting_until 5000 EVL_SHUTDOWN_RETRIES) \<lparr>xbuf_to_rt = 3, xbuf_to_nonrt = - 1, evl_id = 0\<rparr>
       (snd (evl_cv_ctor ex_kernel (\<lambda>_. []) 0 (ex_world [False, True])))) < 5000"
proof -
  let ?r = "evl_cv_ctor ex_kernel (\<lambda>_. []) 0 (ex_world [False, True])"
  have f: "fst ?r = Inr \<lparr>xbuf_to_rt = 3, xbuf_to_nonrt = - 1, evl_id = 0\<rparr>" by code_simp
  have "?r = (Inr \<lparr>xbuf_to_rt = 3, xbuf_to_nonrt = - 1, evl_id = 0\<rparr>, snd ?r)" using f by (metis prod.collapse)
  from evl_cv_lifetime [OF ex_tracks this, of 5000 "[]"] f show ?thesis
    by (simp add: EVL_COND_VAR_WAIT_TIMEOUT_def)
qed

end
