(* ===== verification/Twine_Api.thy ===== *)
theory Twine_Api
  imports Pool_Host Pool_Hazards Helper_Properties Apple_Threading Cond_Vars Cond_Realtime
begin

text \<open>
  The two factories of \<open>src/twine.cpp\<close>, which put the components together:
  \<open>create_worker_pool\<close> (thread type, barrier, cores) and \<open>create_rt_condition_variable\<close> (class,
  id, constructor).
\<close>

subsection \<open>create_worker_pool\<close>

text \<open>
  The thread libraries, and the class of helper that the constructors of \<open>BarrierWithTrigger\<close>
  and \<open>WorkerThread\<close> make for their thread type; a class that the build does not have is an
  assertion.
\<close>

record 'w thread_libs =
  lib_pthread :: "'w pthread_api"
  lib_named_sems :: "'w named_sem_api"
  lib_cobalt :: "'w pthread_api"
  lib_cobalt_sems :: "'w cobalt_sem_api"
  lib_evl :: "'w evl_api"
  lib_gettid :: string

definition new_thread_helper :: "build \<Rightarrow> 'w thread_libs \<Rightarrow> thread_type \<Rightarrow> failure + 'w thread_helper" where
  "new_thread_helper b L type =
     (case type of
        PTHREAD \<Rightarrow> Inr (PosixThreadHelper (lib_pthread L) (lib_named_sems L))
      | COBALT \<Rightarrow>
          (if b = Xenomai_Build then Inr (CobaltThreadHelper (lib_cobalt L) (lib_cobalt_sems L))
           else Inl (Assertion ''Not built with Cobalt support''))
      | EVL \<Rightarrow>
          (if b = Evl_Build then Inr (EvlThreadHelper (lib_evl L) (lib_pthread L) (lib_gettid L))
           else Inl (Assertion ''Not built with EVL support'')))"

text \<open>
  The constructor of \<open>WorkerPoolImpl\<close> runs the constructor of the barrier, a member, before
  its body makes the core list.
\<close>

definition create_worker_pool ::
  "build \<Rightarrow> bool \<Rightarrow> (int \<Rightarrow> string) \<Rightarrow> 'w thread_libs \<Rightarrow> string option \<Rightarrow> int \<Rightarrow> 'w \<Rightarrow>
   (failure + thread_type \<times> barrier_object \<times> pool) \<times> 'w" where
  "create_worker_pool b flag strerror L isolated_file no_cores w =
     (case pool_type b flag of
        Inl f \<Rightarrow> (Inl f, w)
      | Inr type \<Rightarrow>
          (case new_thread_helper b L type of
             Inl f \<Rightarrow> (Inl f, w)
           | Inr H \<Rightarrow>
               (case barrier_ctor H w of
                  (Inl e, w') \<Rightarrow> (Inl (Runtime_Error (strerror e)), w')
                | (Inr B, w') \<Rightarrow>
                    (case initial_cores (b = Evl_Build) type isolated_file no_cores of
                       Inl u \<Rightarrow> (Inl (Undefined_Behaviour u), w')
                     | Inr list \<Rightarrow> (Inr (type, B, new_pool list), w')))))"

subsection \<open>create_rt_condition_variable\<close>

datatype cond_var = XenomaiCV xenomai_cv | EvlCV evl_cv | StdCV std_cv | PosixCV "string \<times> nat"

text \<open>
  \<open>K\<close> is the realtime kernel, \<open>rands\<close> and \<open>err\<close> are for the POSIX class. The two realtime
  classes get their id as the argument of their constructor.
\<close>

definition create_rt_condition_variable ::
  "build \<Rightarrow> bool \<Rightarrow> 'k rt_kernel \<Rightarrow> (nat \<Rightarrow> nat) \<Rightarrow> (int \<Rightarrow> string) \<Rightarrow> int \<Rightarrow> bool list \<Rightarrow> sem_world \<Rightarrow> 'k \<Rightarrow>
   (failure + cond_var) \<times> bool list \<times> sem_world \<times> 'k" where
  "create_rt_condition_variable b flag K rands strerror err ids w k =
     (case cond_var_type b flag of
        XenomaiConditionVariable \<Rightarrow>
          (case get_next_id ids of
             (Inl f, ids') \<Rightarrow> (Inl f, ids', w, k)
           | (Inr i, ids') \<Rightarrow>
               (case xenomai_cv_ctor K strerror i k of
                  (Inl f, k') \<Rightarrow> (Inl f, ids', w, k')
                | (Inr cv, k') \<Rightarrow> (Inr (XenomaiCV cv), ids', w, k')))
      | EvlConditionVariable \<Rightarrow>
          (case get_next_id ids of
             (Inl f, ids') \<Rightarrow> (Inl f, ids', w, k)
           | (Inr i, ids') \<Rightarrow>
               (case evl_cv_ctor K strerror i k of
                  (Inl f, k') \<Rightarrow> (Inl f, ids', w, k')
                | (Inr cv, k') \<Rightarrow> (Inr (EvlCV cv), ids', w, k')))
      | StdConditionVariable \<Rightarrow> (Inr (StdCV std_init), ids, w, k)
      | PosixSemaphoreConditionVariable \<Rightarrow>
          (case posix_cv_ctor rands strerror err w of
             (Inl f, w') \<Rightarrow> (Inl f, ids, w', k)
           | (Inr h, w') \<Rightarrow> (Inr (PosixCV h), ids, w', k)))"

text \<open>The virtual destructor; \<open>is_waiting\<close> is for EVL.\<close>

definition destroy_rt_condition_variable ::
  "'k rt_kernel \<Rightarrow> bool list \<Rightarrow> cond_var \<Rightarrow> bool list \<Rightarrow> sem_world \<Rightarrow> 'k \<Rightarrow> bool list \<times> sem_world \<times> 'k" where
  "destroy_rt_condition_variable K is_waiting v ids w k =
     (case v of
        XenomaiCV cv \<Rightarrow> (case xenomai_cv_dtor K cv ids k of (ids', k') \<Rightarrow> (ids', w, k'))
      | EvlCV cv \<Rightarrow> (ids, w, snd (evl_cv_dtor K is_waiting cv k))
      | StdCV cv \<Rightarrow> (ids, w, k)
      | PosixCV cv \<Rightarrow> (ids, posix_cv_dtor cv w, k))"

subsection \<open>Facts\<close>

lemma ctor_ids:
  "xenomai_cv_ctor K strerror i k = (Inr cv, k') \<Longrightarrow> xenomai_id cv = i"
  "evl_cv_ctor K strerror i k = (Inr cv', k') \<Longrightarrow> evl_id cv' = i"
  by (auto simp: xenomai_cv_ctor_def evl_cv_ctor_def split: prod.splits sum.splits if_splits)

lemma isolated_nonempty:
  assumes "get_isolated_cpus isolated_file n = Inr (Some list)" and "0 < n"
  shows "list \<noteq> []"
  using assms by (auto simp: get_isolated_cpus_def min_le_iff_disj split: option.splits sum.splits if_splits)

lemma initial_cores_nonempty:
  assumes "initial_cores e type isolated_file n = Inr list" and "0 < n"
  shows "list \<noteq> []"
proof -
  have b: "build_core_list 0 n = Inr l \<Longrightarrow> l \<noteq> []" for l
    using length_build_core_list [of 0 n l] assms(2) by auto
  show ?thesis
    using assms b isolated_nonempty [OF _ assms(2)]
    by (auto simp: initial_cores_def split: if_splits sum.splits option.splits)
qed

lemma create_worker_pool_pool:
  assumes "create_worker_pool b flag strerror L isolated_file n w = (Inr (type, B, s0), w')"
    and "new_thread_helper b L type = Inr H"
  obtains list where "s0 = new_pool list" "initial_cores (b = Evl_Build) type isolated_file n = Inr list"
    "pool_type b flag = Inr type" "barrier_ctor H w = (Inr B, w')"
  using assms by (auto simp: create_worker_pool_def split: sum.splits prod.splits)

text \<open>The assertions about the build never fail: the thread type is one that the build has.\<close>

lemma helper_of_pool_type: "pool_type b flag = Inr type \<Longrightarrow> \<exists>H. new_thread_helper b L type = Inr H"
  by (auto simp: pool_type_def new_thread_helper_def split: if_splits)

definition sys_libs :: "sys thread_libs" where
  "sys_libs = \<lparr>lib_pthread = c_pthread, lib_named_sems = c_named_sems, lib_cobalt = c_pthread,
     lib_cobalt_sems = cobalt_sems, lib_evl = evl_lib, lib_gettid = ''1234''\<rparr>"

lemma sys_libs_helper: "new_thread_helper b sys_libs type = Inr H \<Longrightarrow> H = helper_of type"
  by (auto simp: new_thread_helper_def sys_libs_def helper_of_def split: thread_type.splits if_splits)

end
