(* ===== verification/Object_Lifetime.thy ===== *)
theory Object_Lifetime
  imports Helper_Objects Lifetime_Properties Twine_Api
begin

text \<open>
  The C++ objects of a pool from \<open>new\<close> to \<open>delete\<close>: the constructor and the destructor of
  \<open>BarrierWithTrigger\<close> and the thread helper of \<open>WorkerThread\<close>
  (\<open>src/src/worker_pool_implementation.h\<close>) in the order of the code, on the heap of
  \<open>Helper_Objects\<close>; and the proof that a pool never uses a pointer wrongly.
\<close>

subsection \<open>Construction and destruction\<close>

text \<open>A virtual call goes to the class of the object behind \<open>_thread_helper\<close>.\<close>

definition virtual_helper :: "build \<Rightarrow> 'w thread_libs \<Rightarrow> 'w machine \<Rightarrow> nat \<Rightarrow> failure + thread_type \<times> 'w thread_helper" where
  "virtual_helper b L m p =
     (case (if p < length (heap m) then heap m ! p else None) of
        Some (HelperObject type) \<Rightarrow> map_sum id (Pair type) (new_thread_helper b L type)
      | Some _ \<Rightarrow> Inl (Undefined_Behaviour InvalidCast)
      | None \<Rightarrow> Inl (Undefined_Behaviour InvalidPointer))"

text \<open>
  The constructor: the results are the address of the helper and the fields, with addresses
  where \<open>barrier_ctor\<close> has handles. (Running out of memory is not modelled.)
\<close>

definition barrier_new ::
    "build \<Rightarrow> 'w thread_libs \<Rightarrow> (int \<Rightarrow> string) \<Rightarrow> thread_type \<Rightarrow> 'w machine \<Rightarrow> (failure + nat \<times> barrier_object) \<times> 'w machine" where
  "barrier_new b L strerror type m =
     (case new_thread_helper b L type of
        Inl f \<Rightarrow> (Inl f, m)
      | Inr H \<Rightarrow>
          (let (ph, m1) = new_object (HelperObject type) m;
               (s0, m2) = new_object (new_sem_class type None) m1;
               (s1, m3) = new_object (new_sem_class type None) m2;
               (p, m4) = new_object (new_mutex_class type None) m3;
               (c, m5) = new_object (new_cond_class type None) m4;
               (res, m6) = create_at (sem_cast type) (new_sem_class type) (semaphore_create H ''/twine-barrier-sem-0'') s0 m5
           in if res \<noteq> 0 then (Inl (Runtime_Error (strerror res)), m6)
              else let (res, m7) = create_at (sem_cast type) (new_sem_class type) (semaphore_create H ''/twine-barrier-sem-1'') s1 m6
                   in if res \<noteq> 0 then (Inl (Runtime_Error (strerror res)), m7)
                      else let (_, m8) = create_at (mutex_cast type) (new_mutex_class type) (mutex_create H ''/twine-barrier-mutex'') p m7;
                               (_, m9) = create_at (cond_cast type) (new_cond_class type) (condition_var_create H ''/twine-barrier-condvar'') c m8
                           in (Inr (ph, \<lparr>semaphores = (s0, s1), calling_mutex = p, calling_cond = c,
                                         obj_active_idx = 0, obj_on_barrier = 0, obj_no_threads = 0\<rparr>), m9)))"

text \<open>The destructor destroys the four objects and then deletes all five.\<close>

definition barrier_delete :: "build \<Rightarrow> 'w thread_libs \<Rightarrow> nat \<Rightarrow> barrier_object \<Rightarrow> 'w machine \<Rightarrow> failure + 'w machine" where
  "barrier_delete b L ph B m =
     (case virtual_helper b L m ph of
        Inl f \<Rightarrow> Inl f
      | Inr (type, H) \<Rightarrow>
          (let (_, m1) = call_at (mutex_cast type) (mutex_destroy H) (calling_mutex B) m;
               (_, m2) = call_at (cond_cast type) (condition_var_destroy H) (calling_cond B) m1;
               (_, m3) = call_at (sem_cast type) (\<lambda>x. semaphore_destroy H x ''/twine-barrier-sem-0'') (fst (semaphores B)) m2;
               (_, m4) = call_at (sem_cast type) (\<lambda>x. semaphore_destroy H x ''/twine-barrier-sem-1'') (snd (semaphores B)) m3;
               m5 = delete_object (fst (semaphores B)) m4;
               m6 = delete_object (snd (semaphores B)) m5;
               m7 = delete_object (calling_mutex B) m6;
               m8 = delete_object (calling_cond B) m7
           in Inr (delete_object ph m8)))"

text \<open>The helper of a worker, which its destructor deletes after the join.\<close>

definition worker_new_helper :: "build \<Rightarrow> 'w thread_libs \<Rightarrow> thread_type \<Rightarrow> 'w machine \<Rightarrow> failure + nat \<times> 'w machine" where
  "worker_new_helper b L type m = map_sum id (\<lambda>H. new_object (HelperObject type) m) (new_thread_helper b L type)"

definition worker_delete :: "build \<Rightarrow> 'w thread_libs \<Rightarrow> nat \<Rightarrow> nat \<Rightarrow> 'w machine \<Rightarrow> failure + 'w machine option" where
  "worker_delete b L handle ph m =
     map_sum id (\<lambda>(type, H). map_option (delete_object ph) (thread_dtor (object_helper type H) handle m)) (virtual_helper b L m ph)"

text \<open>The five objects of a barrier, as far as they have been created.\<close>

definition barrier_cells :: "thread_type \<Rightarrow> nat option \<Rightarrow> nat option \<Rightarrow> nat option \<Rightarrow> nat option \<Rightarrow> cells" where
  "barrier_cells type x0 x1 y z =
     [Some (HelperObject type), Some (new_sem_class type x0), Some (new_sem_class type x1),
      Some (new_mutex_class type y), Some (new_cond_class type z)]"

definition written :: "int \<Rightarrow> nat \<Rightarrow> nat option" where
  "written res x = (if res = 0 then Some x else None)"

lemma create_in:
  assumes "cast ob = Some None" and "cs ! p = Some ob" and "p < length cs"
  shows "create_at cast mk f p (m\<lparr>heap := cs\<rparr>) =
    (case f (below m) of (res, x, w) \<Rightarrow> (res, m\<lparr>heap := cs[p := Some (mk (written res x))], below := w\<rparr>))"
  using assms by (simp add: create_at_def written_def split: prod.split)

text \<open>What the constructor does, from the answers of the library.\<close>

lemma barrier_new_eq:
  assumes H: "new_thread_helper b L type = Inr H"
    and s0: "semaphore_create H ''/twine-barrier-sem-0'' (below m) = (r0, x0, w0)"
    and s1: "semaphore_create H ''/twine-barrier-sem-1'' w0 = (r1, x1, w1)"
    and mu: "mutex_create H ''/twine-barrier-mutex'' w1 = (r2, y, w2)"
    and cv: "condition_var_create H ''/twine-barrier-condvar'' w2 = (r3, z, w3)"
  shows "barrier_new b L strerror type m =
    (let n = length (heap m) in
     if r0 \<noteq> 0 then (Inl (Runtime_Error (strerror r0)), m\<lparr>heap := heap m @ barrier_cells type None None None None, below := w0\<rparr>)
     else if r1 \<noteq> 0 then (Inl (Runtime_Error (strerror r1)), m\<lparr>heap := heap m @ barrier_cells type (Some x0) None None None, below := w1\<rparr>)
     else (Inr (n, \<lparr>semaphores = (n + 1, n + 2), calling_mutex = n + 3, calling_cond = n + 4,
                    obj_active_idx = 0, obj_on_barrier = 0, obj_no_threads = 0\<rparr>),
           m\<lparr>heap := heap m @ barrier_cells type (Some x0) (Some x1) (written r2 y) (written r3 z), below := w3\<rparr>))"
  using assms
  by (simp add: barrier_new_def Let_def create_at_def barrier_cells_def written_def nth_append list_update_append split: prod.split)

lemma makes:
  "make_object (mutex_cast type) (new_mutex_class type) f m = (case f (below m) of (res, x, w) \<Rightarrow>
     (res, length (heap m), m\<lparr>heap := heap m @ [Some (new_mutex_class type (written res x))], below := w\<rparr>))"
  "make_object (cond_cast type) (new_cond_class type) f m = (case f (below m) of (res, x, w) \<Rightarrow>
     (res, length (heap m), m\<lparr>heap := heap m @ [Some (new_cond_class type (written res x))], below := w\<rparr>))"
  "make_object (sem_cast type) (new_sem_class type) f m = (case f (below m) of (res, x, w) \<Rightarrow>
     (res, length (heap m), m\<lparr>heap := heap m @ [Some (new_sem_class type (written res x))], below := w\<rparr>))"
  unfolding written_def by (rule make_eq, simp)+

lemma call_results:
  obtains r0 x0 w0 r1 x1 w1 r2 y w2 r3 z w3 where
    "semaphore_create H ''/twine-barrier-sem-0'' w = (r0, x0, w0)"
    "semaphore_create H ''/twine-barrier-sem-1'' w0 = (r1, x1, w1)"
    "mutex_create H ''/twine-barrier-mutex'' w1 = (r2, y, w2)"
    "condition_var_create H ''/twine-barrier-condvar'' w2 = (r3, z, w3)"
  by (metis prod_cases3)

text \<open>
  The constructor in the order of the code makes the same barrier as \<open>barrier_ctor\<close> on the objects'
  helper, after the object for the helper; the four answers of the library are the same ones.
\<close>

lemma barrier_new_ctor:
  assumes H: "new_thread_helper b L type = Inr H" and c: "barrier_new b L strerror type m = (Inr (ph, B), m')"
  shows "barrier_ctor (object_helper type H) (m\<lparr>heap := heap m @ [Some (HelperObject type)]\<rparr>) = (Inr B, m')"
    and "unread_results (object_helper type H) (m\<lparr>heap := heap m @ [Some (HelperObject type)]\<rparr>) = unread_results H (below m)"
    and "ph = length (heap m)" and "fst (semaphores B) = ph + 1" "snd (semaphores B) = ph + 2" "calling_mutex B = ph + 3"
      "calling_cond B = ph + 4"
    and "\<exists>x0 x1 y z. heap m' = heap m @ barrier_cells type x0 x1 y z" and "fault m' = fault m"
proof -
  obtain r0 x0 w0 r1 x1 w1 r2 y w2 r3 z w3 where r:
    "semaphore_create H ''/twine-barrier-sem-0'' (below m) = (r0, x0, w0)"
    "semaphore_create H ''/twine-barrier-sem-1'' w0 = (r1, x1, w1)"
    "mutex_create H ''/twine-barrier-mutex'' w1 = (r2, y, w2)"
    "condition_var_create H ''/twine-barrier-condvar'' w2 = (r3, z, w3)"
    by (rule call_results [of H "below m"]) blast
  note n = barrier_new_eq [OF H r, of strerror]
  have ok: "r0 = 0" "r1 = 0" using c unfolding n by (auto simp: Let_def split: if_splits)
  let ?n = "length (heap m)"
  have B: "ph = ?n" "B = \<lparr>semaphores = (?n + 1, ?n + 2), calling_mutex = ?n + 3, calling_cond = ?n + 4,
        obj_active_idx = 0, obj_on_barrier = 0, obj_no_threads = 0\<rparr>"
    and m': "m' = m\<lparr>heap := heap m @ barrier_cells type (Some x0) (Some x1) (written r2 y) (written r3 z), below := w3\<rparr>"
    using c unfolding n by (auto simp: ok Let_def)
  have w: "written 0 x = Some x" for x by (simp add: written_def)
  show "barrier_ctor (object_helper type H) (m\<lparr>heap := heap m @ [Some (HelperObject type)]\<rparr>) = (Inr B, m')"
    using ok by (simp add: barrier_ctor_def makes r B(2) m' barrier_cells_def w)
  show "unread_results (object_helper type H) (m\<lparr>heap := heap m @ [Some (HelperObject type)]\<rparr>) = unread_results H (below m)"
    by (simp add: unread_results_def makes r)
  show "ph = length (heap m)" "fst (semaphores B) = ph + 1" "snd (semaphores B) = ph + 2" "calling_mutex B = ph + 3"
    "calling_cond B = ph + 4" using B by simp_all
  show "\<exists>x0 x1 y z. heap m' = heap m @ barrier_cells type x0 x1 y z" "fault m' = fault m" unfolding m' by auto
qed

subsection \<open>No pointer is used wrongly\<close>

text \<open>
  \<open>quiet_step m m'\<close>: a step neither changes the heap nor runs into undefined behaviour.
\<close>

definition quiet_step :: "'w machine \<Rightarrow> 'w machine \<Rightarrow> bool" where
  "quiet_step m m' \<longleftrightarrow> heap m' = heap m \<and> fault m' = fault m"

lemma quiet_step_simps [simp]: "quiet_step m m" "quiet_step m (m'\<lparr>below := w\<rparr>) = quiet_step m m'"
  by (simp_all add: quiet_step_def)

lemma quiet_at:
  assumes "field_at cast (heap m) p = Inr x"
  shows "quiet_step m (snd (call_at cast f p m))"
    and "block_at cast g p m = Some (res, m') \<Longrightarrow> quiet_step m m'"
  using assms by (auto simp: at_good [OF assms] split: prod.split)

definition same_pointers :: "barrier_object \<Rightarrow> barrier_object \<Rightarrow> bool" where
  "same_pointers B B' \<longleftrightarrow> semaphores B' = semaphores B \<and> calling_mutex B' = calling_mutex B \<and> calling_cond B' = calling_cond B"

lemma good_pointers:
  assumes "objs_ok (object_view type view m) B"
  obtains x y s where "field_at (mutex_cast type) (heap m) (calling_mutex B) = Inr x"
    "field_at (cond_cast type) (heap m) (calling_cond B) = Inr y" "\<And>k. field_at (sem_cast type) (heap m) (sem_at B k) = Inr (s k)"
proof -
  have l: "m_live (object_view type view m) (calling_mutex B)" "c_live (object_view type view m) (calling_cond B)"
    "s_live (object_view type view m) (sem_at B k)" for k
    using assms sem_at_live [OF assms] by (auto simp: objs_ok_def)
  have "\<exists>s. \<forall>k. field_at (sem_cast type) (heap m) (sem_at B k) = Inr (s k)"
    by (rule choice) (metis object_liveE(3) [OF l(3)])
  then show thesis using that object_liveE(1) [OF l(1)] object_liveE(2) [OF l(2)] by metis
qed

lemma wait_code_quiet:
  assumes "objs_ok (object_view type view m) B" and "wait_code (object_helper type H) i pc B m = Some (pc', B', m')"
  shows "quiet_step m m' \<and> same_pointers B B'"
proof -
  obtain x y s where g: "field_at (mutex_cast type) (heap m) (calling_mutex B) = Inr x"
    "field_at (cond_cast type) (heap m) (calling_cond B) = Inr y" "\<And>k. field_at (sem_cast type) (heap m) (sem_at B k) = Inr (s k)"
    using good_pointers [OF assms(1)] by metis
  show ?thesis using assms(2)
    by (cases pc) (auto simp: at_good g Let_def same_pointers_def split: option.splits prod.splits if_splits)
qed

lemma call_code_quiet:
  assumes "objs_ok (object_view type view m) B" and "call_code (object_helper type H) pc B m = Some (pc', B', m')"
  shows "quiet_step m m' \<and> same_pointers B B'"
proof -
  obtain x y s where g: "field_at (mutex_cast type) (heap m) (calling_mutex B) = Inr x"
    "field_at (cond_cast type) (heap m) (calling_cond B) = Inr y" "\<And>k. field_at (sem_cast type) (heap m) (sem_at B k) = Inr (s k)"
    using good_pointers [OF assms(1)] by metis
  show ?thesis using assms(2)
    by (cases pc) (auto simp: at_good wait_at_good [OF g(2,1)] g same_pointers_def split: option.splits prod.splits if_splits)
qed

lemma running_quiet:
  assumes "running_step (object_helper type H) (object_wake type wake) (s, B, m) l (t, B', m')"
    and "objs_ok (object_view type view m) B"
  shows "quiet_step m m' \<and> same_pointers B B'"
  using assms(1)
proof cases
  case worker_in
  then show ?thesis using wait_code_quiet [OF assms(2)] by blast
next
  case caller_in
  then show ?thesis using call_code_quiet [OF assms(2)] by blast
next
  case step_wake
  then show ?thesis by (simp add: object_wake_def same_pointers_def split: sum.split)
qed (simp add: same_pointers_def)

lemma thread_quiet:
  "thread_run (object_helper type H) fixed_core a prio cpu this m = (res, h, m') \<Longrightarrow> quiet_step m m'"
  "thread_dtor (object_helper type H) h m = Some m' \<Longrightarrow> quiet_step m m'"
  "quiet_step m (object_finish finish h m') = quiet_step m m'"
  by (auto simp: thread_run_def thread_dtor_def thread_below_def object_finish_def Let_def split: prod.splits if_splits)

text \<open>The heap after the destructor.\<close>

definition deleted_cells :: "barrier_object \<Rightarrow> cells \<Rightarrow> cells" where
  "deleted_cells B cs =
     cs[calling_mutex B := None, calling_cond B := None, fst (semaphores B) := None, snd (semaphores B) := None]"

definition distinct_pointers :: "barrier_object \<Rightarrow> bool" where
  "distinct_pointers B \<longleftrightarrow> distinct [fst (semaphores B), snd (semaphores B), calling_mutex B, calling_cond B]"

lemma same_pointersD:
  assumes "same_pointers B B'"
  shows "deleted_cells B' = deleted_cells B" "distinct_pointers B' = distinct_pointers B"
    "sem_at B' k = sem_at B k" "semaphores B' = semaphores B" "calling_mutex B' = calling_mutex B" "calling_cond B' = calling_cond B"
  using assms by (auto simp: same_pointers_def deleted_cells_def distinct_pointers_def sem_at_def)

lemma delete_good:
  "p < length (heap m) \<Longrightarrow> heap m ! p \<noteq> None \<Longrightarrow> delete_object p m = m\<lparr>heap := (heap m)[p := None]\<rparr>"
  by (simp add: delete_object_def)

lemma barrier_dtor_objects:
  assumes ok: "objs_ok (object_view type view m) B" and d: "distinct_pointers B"
  shows "heap (barrier_dtor (object_helper type H) B m) = deleted_cells B (heap m)"
    and "fault (barrier_dtor (object_helper type H) B m) = fault m"
    and "virtual_helper b L m ph = Inr (type, H) \<Longrightarrow> ph \<notin> {fst (semaphores B), snd (semaphores B), calling_mutex B, calling_cond B} \<Longrightarrow>
      barrier_delete b L ph B m = Inr (delete_object ph (barrier_dtor (object_helper type H) B m))"
proof -
  obtain x y s where g: "field_at (mutex_cast type) (heap m) (calling_mutex B) = Inr x"
    "field_at (cond_cast type) (heap m) (calling_cond B) = Inr y" "\<And>k. field_at (sem_cast type) (heap m) (sem_at B k) = Inr (s k)"
    using good_pointers [OF ok] by metis
  have g': "field_at (sem_cast type) (heap m) (fst (semaphores B)) = Inr (s 0)" "field_at (sem_cast type) (heap m) (snd (semaphores B)) = Inr (s 1)"
    using g(3) [of 0] g(3) [of 1] by (simp_all add: sem_at_def)
  obtain r1 w1 where d1: "mutex_destroy H x (below m) = (r1, w1)" by fastforce
  obtain r2 w2 where d2: "condition_var_destroy H y w1 = (r2, w2)" by fastforce
  obtain r3 w3 where d3: "semaphore_destroy H (s 0) ''/twine-barrier-sem-0'' w2 = (r3, w3)" by fastforce
  obtain r4 w4 where d4: "semaphore_destroy H (s 1) ''/twine-barrier-sem-1'' w3 = (r4, w4)" by fastforce
  have ne: "fst (semaphores B) \<noteq> snd (semaphores B)" "fst (semaphores B) \<noteq> calling_mutex B" "fst (semaphores B) \<noteq> calling_cond B"
    "snd (semaphores B) \<noteq> calling_mutex B" "snd (semaphores B) \<noteq> calling_cond B" "calling_mutex B \<noteq> calling_cond B"
    using d by (auto simp: distinct_pointers_def)
  note [simp] = ne ne [symmetric] field_at_delete g(1,2) g' d1 d2 d3 d4 d4 [unfolded One_nat_def]
  have e: "barrier_dtor (object_helper type H) B m = m\<lparr>heap := deleted_cells B (heap m), below := w4\<rparr>"
    by (simp add: barrier_dtor_def Let_def at_good(3) deleted_cells_def)
  show "heap (barrier_dtor (object_helper type H) B m) = deleted_cells B (heap m)"
    and "fault (barrier_dtor (object_helper type H) B m) = fault m" by (simp_all add: e)
  assume v: "virtual_helper b L m ph = Inr (type, H)" and p: "ph \<notin> {fst (semaphores B), snd (semaphores B), calling_mutex B, calling_cond B}"
  have f: "fst (semaphores B) < length (heap m)" "snd (semaphores B) < length (heap m)" "calling_mutex B < length (heap m)"
    "calling_cond B < length (heap m)" "heap m ! fst (semaphores B) \<noteq> None" "heap m ! snd (semaphores B) \<noteq> None"
    "heap m ! calling_mutex B \<noteq> None" "heap m ! calling_cond B \<noteq> None"
    using field_atD [OF g(1)] field_atD [OF g(2)] field_atD [OF g'(1)] field_atD [OF g'(2)] by auto
  have "(heap m)[fst (semaphores B) := None, snd (semaphores B) := None, calling_mutex B := None, calling_cond B := None] =
      deleted_cells B (heap m)"
    by (simp add: deleted_cells_def list_update_swap)
  then have "delete_object (calling_cond B) (delete_object (calling_mutex B)
      (delete_object (snd (semaphores B)) (delete_object (fst (semaphores B)) (m\<lparr>below := w4\<rparr>)))) =
      m\<lparr>heap := deleted_cells B (heap m), below := w4\<rparr>"
    by (simp add: delete_good f)
  then show "barrier_delete b L ph B m = Inr (delete_object ph (barrier_dtor (object_helper type H) B m))"
    unfolding e by (simp add: barrier_delete_def v Let_def at_good(1))
qed

text \<open>What is known of the heap in every state of a pool, from the constructor of the barrier on.\<close>

definition heap_inv :: "'w machine \<Rightarrow> barrier_object \<Rightarrow> 'w machine life \<Rightarrow> bool" where
  "heap_inv m0 B0 c \<longleftrightarrow>
     (case c of (s, B, m, hs, h) \<Rightarrow>
        fault m = fault m0 \<and> same_pointers B0 B \<and>
        heap m = (if ctl s = Gone then deleted_cells B0 (heap m0) else heap m0))"

lemma heap_inv_quiet:
  "heap_inv m0 B0 (s, B, m, hs, h) \<Longrightarrow> ctl s \<noteq> Gone \<Longrightarrow> ctl t \<noteq> Gone \<Longrightarrow> quiet_step m m' \<and> same_pointers B B' \<Longrightarrow>
   heap_inv m0 B0 (t, B', m', hs', h')"
  by (auto simp: heap_inv_def quiet_step_def same_pointers_def)

context thread_contract begin

abbreviation object_life :: "thread_type \<Rightarrow> bool \<Rightarrow> 'a machine life \<Rightarrow> label \<Rightarrow> 'a machine life \<Rightarrow> bool" where
  "object_life type \<equiv> life_step (object_helper type H) (object_wake type wake) (object_finish finish)"

lemma heap_inv_step:
  assumes st: "object_life type fixed_core c l d"
    and li: "life_inv (object_view type view) (\<lambda>m. tstate (below m)) m1 c"
    and inv: "heap_inv m0 B0 c" and d: "distinct_pointers B0"
  shows "heap_inv m0 B0 d"
proof -
  note T = object_helper_threads [of type]
  have alive: "ctl (fst c) \<noteq> Gone \<and> ctl (fst c) \<noteq> Undefined InvalidHandle"
    using thread_contract.life_dead [OF T li] st by blast
  then have ok: "objs_ok (object_view type view m) B" if "c = (s, B, m, hs, h)" for s B m hs h
    using li that by (auto simp: life_inv_def running_inv_def)
  show ?thesis using st
  proof cases
    case (life_other s B m t B' m' hs h)
    have "ctl t \<noteq> Gone" using running_same_shape [OF life_other(4,3)] alive life_other(1) by simp
    then show ?thesis
      using heap_inv_quiet [OF inv [unfolded life_other(1)] _ _ running_quiet [OF life_other(4) ok [OF life_other(1)]]]
        alive life_other(1,2) by simp
  next
    case (life_run s a k m res h' m' B hs h)
    have "ctl (add_exec (answered res a) k s) \<noteq> Gone" by (simp add: add_exec_def Let_def)
    then show ?thesis
      using heap_inv_quiet [OF inv [unfolded life_run(1)]] thread_quiet(1) [OF life_run(5)] alive life_run(1,3)
      by (simp add: same_pointers_def)
  next
    case (life_pop s st hs m m' B h)
    then show ?thesis
      using heap_inv_quiet [OF inv [unfolded life_pop(1)]] thread_quiet(2) [OF life_pop(5)] by (simp add: same_pointers_def)
  next
    case (life_join s i hs m m' B h)
    then show ?thesis
      using heap_inv_quiet [OF inv [unfolded life_join(1)]] thread_quiet(2) [OF life_join(6)] by (simp add: same_pointers_def)
  next
    case (life_gone s i B m hs h)
    have p: "same_pointers B0 B" using inv life_gone by (simp add: heap_inv_def)
    then have "distinct_pointers B" using d same_pointersD(2) by blast
    note e = barrier_dtor_objects [OF ok [OF life_gone(1)] this]
    show ?thesis using inv life_gone same_pointersD(1) [OF p] by (simp add: heap_inv_def e(1,2))
  next
    case (life_exit s i B m t B' m' hs h)
    have "ctl t \<noteq> Gone" using leaves_step [OF life_exit(4,5)] alive life_exit(1) by auto
    then show ?thesis
      using heap_inv_quiet [OF inv [unfolded life_exit(1)], of t "object_finish finish (hs ! i) m'" B']
        running_quiet [OF life_exit(5) ok [OF life_exit(1)]] alive life_exit(1-3) by (simp add: thread_quiet(3))
  qed (use inv in \<open>auto simp: heap_inv_def\<close>)
qed

lemma heap_inv_reach:
  assumes H: "new_thread_helper b L type = Inr H" and c: "barrier_new b L strerror type m = (Inr (ph, B0), m0)"
    and u: "unread_results H (below m) = (0, 0)"
    and r: "reach (object_life type fixed_core) (new_pool cs, B0, m0, [], 0) d"
  shows "heap_inv m0 B0 d" and "life_inv (object_view type view) (\<lambda>m. tstate (below m)) (m\<lparr>heap := heap m @ [Some (HelperObject type)]\<rparr>) d"
proof -
  note T = object_helper_threads [of type] and n = barrier_new_ctor [OF H c]
  have d: "distinct_pointers B0" by (simp add: distinct_pointers_def n(4-7))
  note li = thread_contract.life_reach_inv [OF T n(1) n(2) [unfolded u]]
  show "life_inv (object_view type view) (\<lambda>m. tstate (below m)) (m\<lparr>heap := heap m @ [Some (HelperObject type)]\<rparr>) d"
    by (rule li [OF r])
  from r show "heap_inv m0 B0 d"
  proof (induction rule: reach.induct)
    case reach_init
    show ?case by (simp add: heap_inv_def same_pointers_def new_pool_def)
  next
    case (reach_step c' l d')
    show ?case by (rule heap_inv_step [OF reach_step.hyps(2) li [OF reach_step.hyps(1)] reach_step.IH d])
  qed
qed

end

lemma deleted_barrier_cells:
  assumes "heap m0 = cs @ barrier_cells type x0 x1 y z" and "ph = length cs"
    and "fst (semaphores B) = ph + 1" "snd (semaphores B) = ph + 2" "calling_mutex B = ph + 3" "calling_cond B = ph + 4"
  shows "deleted_cells B (heap m0) = cs @ [Some (HelperObject type), None, None, None, None]"
  using assms by (simp add: deleted_cells_def barrier_cells_def list_update_append)

subsection \<open>Properties\<close>

text \<open>
  C15. The C++ objects of a pool, for every thread type that the build has and every library
  whose helper meets its contract, from \<open>new\<close> to the end of the destructor, in every interleaving:
  no pointer is cast to a wrong class, used after \<open>delete\<close> or used before the object was created; \<open>_thread_helper\<close>
  leads to the helper of the thread type as long as the pool exists; the destructor in the order of the
  code does what the destructor of the model does; and after it all five objects are deleted, once each,
  and no other.
\<close>

theorem pool_pointers_good:
  assumes "new_thread_helper b L type = Inr H" and "thread_contract H view wake tstate finish"
    and "barrier_new b L strerror type m = (Inr (ph, B0), m0)" and "unread_results H (below m) = (0, 0)" and "fault m = None"
    and "reach (life_step (object_helper type H) (object_wake type wake) (object_finish finish) fixed_core)
      (new_pool cs, B0, m0, [], 0) (s, B, u, hs, h)"
  shows "fault u = None \<and> (ctl s \<noteq> Gone \<longrightarrow> virtual_helper b L u ph = Inr (type, H))
    \<and> (\<forall>i. ctl s = DtorJoin i \<and> num s \<le> i \<longrightarrow>
         barrier_delete b L ph B u = Inr (delete_object ph (barrier_dtor (object_helper type H) B u)))
    \<and> (ctl s = Gone \<longrightarrow> fault (delete_object ph u) = None \<and> heap (delete_object ph u) = heap m @ replicate 5 None)"
proof -
  note n = barrier_new_ctor [OF assms(1,3)]
  note i = thread_contract.heap_inv_reach [OF assms(2,1,3,4,6)]
  obtain x0 x1 y z where h0: "heap m0 = heap m @ barrier_cells type x0 x1 y z" using n(8) by blast
  note del = deleted_barrier_cells [OF h0 n(3-7)]
  have p: "same_pointers B0 B" and f: "fault u = None"
    and hu: "heap u = (if ctl s = Gone then deleted_cells B0 (heap m0) else heap m0)"
    using i(1) n(9) assms(5) by (simp_all add: heap_inv_def)
  have v: "virtual_helper b L u ph = Inr (type, H)" if "ctl s \<noteq> Gone"
    using that hu h0 n(3) assms(1) by (simp add: virtual_helper_def barrier_cells_def nth_append)
  have "barrier_delete b L ph B u = Inr (delete_object ph (barrier_dtor (object_helper type H) B u))" if "ctl s = DtorJoin k" for k
  proof (rule barrier_dtor_objects(3))
    show "objs_ok (object_view type view u) B" using i(2) that by (simp add: life_inv_def running_inv_def)
    show "distinct_pointers B" using same_pointersD(2) [OF p] n(4-7) by (simp add: distinct_pointers_def)
    show "virtual_helper b L u ph = Inr (type, H)" using v that by simp
    show "ph \<notin> {fst (semaphores B), snd (semaphores B), calling_mutex B, calling_cond B}"
      using same_pointersD(4-6) [OF p] n(4-7) by simp
  qed
  moreover have "fault (delete_object ph u) = None \<and> heap (delete_object ph u) = heap m @ replicate 5 None" if "ctl s = Gone"
    using that hu del n(3) f by (simp add: delete_object_def nth_append list_update_append eval_nat_numeral)
  ultimately show ?thesis using f v by blast
qed

text \<open>A pool on EVL, with one worker, destroyed again.\<close>

definition empty_machine :: "sys machine" where
  "empty_machine = \<lparr>heap = [], below = new_sys [], fault = None\<rparr>"

definition evl_barrier :: "nat \<times> barrier_object" where
  "evl_barrier = projr (fst (barrier_new Evl_Build sys_libs (\<lambda>_. []) EVL empty_machine))"

definition object_start :: "sys machine life" where
  "object_start =
     (new_pool two_cores, snd evl_barrier, snd (barrier_new Evl_Build sys_libs (\<lambda>_. []) EVL empty_machine), [], 0)"

definition object_call :: "nat \<Rightarrow> call \<Rightarrow> sys machine life \<Rightarrow> sys machine life" where
  "object_call n k c = snd (drive_life (object_helper EVL (helper_of EVL)) (object_finish finish_thread) True n
     (case c of (s, B, w, hs, h) \<Rightarrow> (host_call k s, B, w, hs, h)))"

definition destroyed_pool :: "sys machine life" where
  "destroyed_pool = object_call 40 Destroy (object_call 30 (AddWorker good_args) object_start)"

abbreviation object_life_step :: "sys machine life \<Rightarrow> label \<Rightarrow> sys machine life \<Rightarrow> bool" where
  "object_life_step \<equiv> life_step (object_helper EVL (helper_of EVL)) (object_wake EVL cond_wake) (object_finish finish_thread) True"

lemma object_call_reach:
  assumes "reach object_life_step c0 c" and "ctl (fst c) = Host"
  shows "reach object_life_step c0 (object_call n k c)"
proof -
  obtain s B w hs h where c: "c = (s, B, w, hs, h)" by (rule prod_cases5)
  have "object_life_step c (LCall k) (host_call k s, B, w, hs, h)"
    unfolding c by (rule life_other) (use assms(2) c in \<open>auto intro: running_step.step_outside step_call\<close>)
  then have r: "reach object_life_step c0 (host_call k s, B, w, hs, h)" by (rule reach.reach_step [OF assms(1)])
  obtain ls d where d: "drive_life (object_helper EVL (helper_of EVL)) (object_finish finish_thread) True n
      (host_call k s, B, w, hs, h) = (ls, d)" by (metis surj_pair)
  have "run object_life_step (host_call k s, B, w, hs, h) ls d"
    using drive_life_run [OF d] by blast
  from reach_run [OF this r] show ?thesis using d by (simp add: object_call_def c)
qed

lemma evl_helper_new: "new_thread_helper Evl_Build sys_libs EVL = Inr (helper_of EVL)"
  by (simp add: new_thread_helper_def sys_libs_def helper_of_def)

theorem pool_pointers_good_witness:
  "\<exists>s B u hs h. destroyed_pool = (s, B, u, hs, h) \<and> ctl s = Gone \<and> fault (delete_object 0 u) = None
     \<and> heap (delete_object 0 u) = [None, None, None, None, None]"
proof -
  have n: "isl (fst (barrier_new Evl_Build sys_libs (\<lambda>_. []) EVL empty_machine)) = False" "fst evl_barrier = 0"
    "unread_results (helper_of EVL) (below empty_machine) = (0, 0)" "fault empty_machine = None" "heap empty_machine = []"
    by code_simp+
  have c: "barrier_new Evl_Build sys_libs (\<lambda>_. []) EVL empty_machine =
      (Inr (0, snd evl_barrier), snd (barrier_new Evl_Build sys_libs (\<lambda>_. []) EVL empty_machine))"
    using n(1,2) unfolding evl_barrier_def
    by (cases "barrier_new Evl_Build sys_libs (\<lambda>_. []) EVL empty_machine"; cases "fst (barrier_new Evl_Build sys_libs (\<lambda>_. []) EVL empty_machine)") auto
  have g: "ctl (fst object_start) = Host" "ctl (fst (object_call 30 (AddWorker good_args) object_start)) = Host"
    "ctl (fst destroyed_pool) = Gone" by code_simp+
  obtain s B u hs h where d: "destroyed_pool = (s, B, u, hs, h)" by (rule prod_cases5)
  have "reach object_life_step object_start destroyed_pool"
    unfolding destroyed_pool_def by (rule object_call_reach [OF object_call_reach [OF reach.reach_init g(1)] g(2)])
  then have r: "reach object_life_step (new_pool two_cores, snd evl_barrier, snd (barrier_new Evl_Build sys_libs (\<lambda>_. []) EVL empty_machine), [], 0)
      (s, B, u, hs, h)" unfolding object_start_def d .
  note pool_pointers_good [OF evl_helper_new sys_helper_threads.thread_contract_axioms c n(3,4) r]
  moreover have "ctl s = Gone" using g(3) by (simp add: d)
  ultimately show ?thesis using d n(5)
    by (intro exI [of _ s] exI [of _ B] exI [of _ u] exI [of _ hs] exI [of _ h]) (simp add: eval_nat_numeral)
qed

text \<open>
  C33. A constructor that throws, because a semaphore was refused: the five objects that it made with
  \<open>new\<close> stay on the heap, where no pointer leads to them any more, and the first semaphore, if it could be
  created, stays in the system; for every thread type and every library whose helper meets its contract.
\<close>

theorem failed_ctor_leaks:
  assumes "new_thread_helper b L type = Inr H" and "helper_contract H view wake"
    and "barrier_new b L strerror type m = (Inl f, m')"
  shows "(\<exists>e. e \<noteq> 0 \<and> f = Runtime_Error (strerror e)) \<and> fault m' = fault m
    \<and> (\<exists>x. heap m' = heap m @ [Some (HelperObject type), Some (new_sem_class type x), Some (new_sem_class type None),
            Some (new_mutex_class type None), Some (new_cond_class type None)]
         \<and> (case x of None \<Rightarrow> fst (semaphore_create H ''/twine-barrier-sem-0'' (below m)) \<noteq> 0
            | Some h \<Rightarrow> \<not> s_live (view (below m)) h \<and> s_live (view (below m')) h))"
proof -
  obtain r0 x0 w0 r1 x1 w1 r2 y w2 r3 z w3 where r:
    "semaphore_create H ''/twine-barrier-sem-0'' (below m) = (r0, x0, w0)"
    "semaphore_create H ''/twine-barrier-sem-1'' w0 = (r1, x1, w1)"
    "mutex_create H ''/twine-barrier-mutex'' w1 = (r2, y, w2)"
    "condition_var_create H ''/twine-barrier-condvar'' w2 = (r3, z, w3)"
    by (rule call_results [of H "below m"]) blast
  note n = barrier_new_eq [OF assms(1) r, of strerror]
  show ?thesis
  proof (cases "r0 = 0")
    case True
    then have e: "r1 \<noteq> 0" "f = Runtime_Error (strerror r1)"
        "m' = m\<lparr>heap := heap m @ barrier_cells type (Some x0) None None None, below := w1\<rparr>"
      using assms(3) unfolding n by (auto simp: Let_def split: if_splits)
    have l: "\<not> s_live (view (below m)) x0" "s_live (view w0) x0"
      using helper_contract.sem_create_fresh [OF assms(2) r(1) [unfolded True]] by simp_all
    moreover have "s_live (view w1) x0"
      using helper_contract.sem_create_keeps [OF assms(2) r(2)] l(2) by (simp add: keeps_def)
    ultimately show ?thesis using e by (intro conjI exI [of _ "Some x0"] exI [of _ r1]) (simp_all add: barrier_cells_def)
  next
    case False
    then have "f = Runtime_Error (strerror r0)" "m' = m\<lparr>heap := heap m @ barrier_cells type None None None None, below := w0\<rparr>"
      using assms(3) unfolding n by (auto simp: Let_def)
    then show ?thesis using False r(1) by (intro conjI exI [of _ "None :: nat option"] exI [of _ r0]) (simp_all add: barrier_cells_def)
  qed
qed

theorem failed_ctor_leaks_witness:
  "length (heap (snd (barrier_new Posix_Build sys_libs (\<lambda>_. ''No space'') PTHREAD (empty_machine\<lparr>below := new_sys [0, EAGAIN]\<rparr>)))) = 5"
proof -
  let ?r = "barrier_new Posix_Build sys_libs (\<lambda>_. ''No space'') PTHREAD (empty_machine\<lparr>below := new_sys [0, EAGAIN]\<rparr>)"
  have "fst ?r = Inl (Runtime_Error ''No space'')" by code_simp
  then have c: "?r = (Inl (Runtime_Error ''No space''), snd ?r)" by (metis prod.collapse)
  have h: "new_thread_helper Posix_Build sys_libs PTHREAD = Inr (helper_of PTHREAD)"
    by (simp add: new_thread_helper_def sys_libs_def helper_of_def)
  have "heap (empty_machine\<lparr>below := new_sys [0, EAGAIN]\<rparr>) = []" by (simp add: empty_machine_def)
  then show ?thesis
    using failed_ctor_leaks [OF h sys_helper.helper_contract_axioms c] by (auto simp del: EAGAIN_def)
qed

text \<open>The helper of a worker: made by its constructor, deleted after the join by its destructor.\<close>

lemma worker_helper_lifetime:
  assumes "new_thread_helper b L type = Inr H" and "worker_new_helper b L type m = Inr (ph, m1)"
    and "heap m2 = heap m1 @ cs"
  shows "worker_delete b L handle ph m2 = Inr (map_option (delete_object ph) (thread_dtor (object_helper type H) handle m2))"
    and "thread_dtor (object_helper type H) handle m2 = Some m3 \<Longrightarrow>
      heap (delete_object ph m3) = heap m @ None # cs \<and> fault (delete_object ph m3) = fault m2"
proof -
  have n: "ph = length (heap m)" "heap m1 = heap m @ [Some (HelperObject type)]"
    using assms(1,2) by (auto simp: worker_new_helper_def)
  then have "virtual_helper b L m2 ph = Inr (type, H)"
    using assms(1,3) by (simp add: virtual_helper_def nth_append)
  then show "worker_delete b L handle ph m2 = Inr (map_option (delete_object ph) (thread_dtor (object_helper type H) handle m2))"
    by (simp add: worker_delete_def)
  show "heap (delete_object ph m3) = heap m @ None # cs \<and> fault (delete_object ph m3) = fault m2"
    if "thread_dtor (object_helper type H) handle m2 = Some m3"
    using thread_quiet(2) [OF that] n assms(3) by (simp add: quiet_step_def delete_object_def nth_append list_update_append)
qed

end
