(* ===== verification/Cond_Concurrent.thy ===== *)
theory Cond_Concurrent
  imports Cond_Realtime
begin

text \<open>
  The realtime condition variables with a waiter and notifiers that run at the same time:
  \<open>wait\<close> of \<open>XenomaiConditionVariable\<close> and of \<open>EvlConditionVariable\<close>
  (\<open>src/src/condition_variable_implementation.h\<close>) as programs of single calls of the kernel,
  between which any number of notifications can arrive. \<open>Cond_Realtime\<close> has the same methods as
  functions, for a caller that is alone.
\<close>

subsection \<open>A waiter and its notifiers\<close>

text \<open>
  The state: the place of the waiter inside \<open>wait\<close>, if it is there, the kernel, and the history:
  how many notifications came from realtime (or out-of-band) threads and from others, and what \<open>wait\<close>
  has returned. There is one waiter, as \<open>twine.h\<close> demands.
\<close>

record cv_history =
  h_rt :: nat
  h_nonrt :: nat
  h_rets :: "bool list"

type_synonym ('pc, 'k) waiting = "'pc option \<times> 'k \<times> cv_history"

datatype cv_label = NotifyRt | NotifyNonRt | EnterWait | WaitWork

definition no_history :: cv_history where
  "no_history = \<lparr>h_rt = 0, h_nonrt = 0, h_rets = []\<rparr>"

text \<open>
  \<open>notify rt\<close> is \<open>notify\<close> from a thread that is realtime or not, \<open>None\<close> while it blocks; \<open>wait_step\<close> relates a
  place and the kernel to what one step of \<open>wait\<close> can lead to, a place or a result.
\<close>

inductive cv_step ::
    "(bool \<Rightarrow> 'k \<Rightarrow> 'k option) \<Rightarrow> 'pc \<Rightarrow> ('pc \<Rightarrow> 'k \<Rightarrow> 'pc + bool \<Rightarrow> 'k \<Rightarrow> bool) \<Rightarrow>
     ('pc, 'k) waiting \<Rightarrow> cv_label \<Rightarrow> ('pc, 'k) waiting \<Rightarrow> bool"
  for notify :: "bool \<Rightarrow> 'k \<Rightarrow> 'k option" and start :: 'pc
    and wait_step :: "'pc \<Rightarrow> 'k \<Rightarrow> 'pc + bool \<Rightarrow> 'k \<Rightarrow> bool" where
  cv_notify_rt: "notify True w = Some w' \<Longrightarrow> cv_step notify start wait_step (p, w, h) NotifyRt (p, w', h\<lparr>h_rt := h_rt h + 1\<rparr>)"
| cv_notify_nonrt: "notify False w = Some w' \<Longrightarrow>
     cv_step notify start wait_step (p, w, h) NotifyNonRt (p, w', h\<lparr>h_nonrt := h_nonrt h + 1\<rparr>)"
| cv_enter: "cv_step notify start wait_step (None, w, h) EnterWait (Some start, w, h)"
| cv_work: "wait_step pc w (Inl pc') w' \<Longrightarrow> cv_step notify start wait_step (Some pc, w, h) WaitWork (Some pc', w', h)"
| cv_return: "wait_step pc w (Inr b) w' \<Longrightarrow>
     cv_step notify start wait_step (Some pc, w, h) WaitWork (None, w', h\<lparr>h_rets := h_rets h @ [b]\<rparr>)"

abbreviation trues :: "cv_history \<Rightarrow> nat" where
  "trues h \<equiv> cnt id (h_rets h)"

text \<open>
  The contract of a class towards its users. One kind of notification (\<open>counted\<close>: from realtime threads or from
  others) is counted: \<open>left\<close> are those in the kernel, \<open>held\<close> those that the waiter has taken. \<open>avail\<close> and
  \<open>got\<close> are the same for all notifications that can make a \<open>wait\<close> true (\<open>works\<close>). \<open>ok\<close> is what
  a place of the waiter knows of the kernel, \<open>stuck\<close> tells where it may block, and \<open>togo\<close> bounds the steps it has left.
\<close>

definition sent :: "(bool \<Rightarrow> bool) \<Rightarrow> cv_history \<Rightarrow> nat" where
  "sent works h = (if works True then h_rt h else 0) + (if works False then h_nonrt h else 0)"

lemma sent_rets [simp]: "sent works (h\<lparr>h_rets := rs\<rparr>) = sent works h"
  by (simp add: sent_def)

definition at_place :: "('pc \<Rightarrow> nat) \<Rightarrow> 'pc option \<Rightarrow> nat" where
  "at_place f p = (case p of None \<Rightarrow> 0 | Some pc \<Rightarrow> f pc)"

lemma at_place_simps [simp]: "at_place f None = 0" "at_place f (Some pc) = f pc"
  by (simp_all add: at_place_def)

locale cv_counting =
  fixes notify :: "bool \<Rightarrow> 'k \<Rightarrow> 'k option" and start :: 'pc
    and wait_step :: "'pc \<Rightarrow> 'k \<Rightarrow> 'pc + bool \<Rightarrow> 'k \<Rightarrow> bool"
    and counted :: bool and works :: "bool \<Rightarrow> bool" and left :: "'k \<Rightarrow> nat" and avail :: "'k \<Rightarrow> nat"
    and held :: "'pc \<Rightarrow> nat" and got :: "'pc \<Rightarrow> nat" and ok :: "'pc \<Rightarrow> 'k \<Rightarrow> bool" and stuck :: "'pc \<Rightarrow> 'k \<Rightarrow> bool"
    and togo :: "'pc \<Rightarrow> nat"
  assumes start_ok: "ok start w" "held start = 0" "got start = 0"
    and notify_ok: "notify rt w = Some w' \<Longrightarrow> ok pc w \<Longrightarrow> ok pc w'"
    and notify_left: "notify rt w = Some w' \<Longrightarrow> left w' = left w + (if rt = counted then 1 else 0)"
    and notify_avail: "notify rt w = Some w' \<Longrightarrow> avail w' \<le> avail w + (if works rt then 1 else 0)"
    and step_ok: "ok pc w \<Longrightarrow> wait_step pc w (Inl pc') w' \<Longrightarrow>
      ok pc' w' \<and> left w + held pc \<le> left w' + held pc' \<and> got pc' + avail w' \<le> got pc + avail w \<and> togo pc' < togo pc"
    and return_ok: "ok pc w \<Longrightarrow> wait_step pc w (Inr b) w' \<Longrightarrow>
      left w + held pc \<le> left w' + (if b then 1 else 0) \<and> (if b then 1 else 0) + avail w' \<le> got pc + avail w"
    and goes_on: "ok pc w \<Longrightarrow> \<not> stuck pc w \<Longrightarrow> \<exists>r w'. wait_step pc w r w'"
begin

abbreviation system :: "('pc, 'k) waiting \<Rightarrow> cv_label \<Rightarrow> ('pc, 'k) waiting \<Rightarrow> bool" where
  "system \<equiv> cv_step notify start wait_step"

definition waiting_inv :: "('pc, 'k) waiting \<Rightarrow> bool" where
  "waiting_inv c \<longleftrightarrow>
     (case c of (p, w, h) \<Rightarrow>
        (\<forall>pc. p = Some pc \<longrightarrow> ok pc w) \<and>
        (if counted then h_rt h else h_nonrt h) \<le> left w + at_place held p + trues h \<and>
        trues h + at_place got p + avail w \<le> sent works h)"

lemma waiting_inv_step: "system c l d \<Longrightarrow> waiting_inv c \<Longrightarrow> waiting_inv d"
proof (induction rule: cv_step.induct)
  case (cv_notify_rt w w' p h)
  then show ?case
    using notify_ok [of True w w'] notify_left [of True w w'] notify_avail [of True w w'] by (auto simp: waiting_inv_def sent_def)
next
  case (cv_notify_nonrt w w' p h)
  then show ?case
    using notify_ok [of False w w'] notify_left [of False w w'] notify_avail [of False w w'] by (auto simp: waiting_inv_def sent_def)
next
  case (cv_enter w h)
  then show ?case using start_ok by (auto simp: waiting_inv_def)
next
  case (cv_work pc w pc' w' h)
  then show ?case using step_ok [of pc w pc' w'] by (auto simp: waiting_inv_def)
next
  case (cv_return pc w b w' h)
  then show ?case using return_ok [of pc w b w'] by (cases b) (auto simp: waiting_inv_def)
qed

lemma waiting_reach:
  assumes "reach system (None, w0, no_history) c" and "left w0 = 0" and "avail w0 = 0"
  shows "waiting_inv c"
  using assms(1)
proof (induction rule: reach.induct)
  case reach_init
  show ?case using assms(2,3) by (simp add: waiting_inv_def no_history_def)
qed (rule waiting_inv_step)

text \<open>Once it can go on, \<open>wait\<close> returns after boundedly many steps of its own, however many notifications arrive.\<close>

lemma waiting_bounded:
  "run system (Some pc, w, h) ls (Some pc', w', h') \<Longrightarrow> ok pc w \<Longrightarrow> h_rets h' = h_rets h \<Longrightarrow>
   cnt (\<lambda>l. l = WaitWork) ls + togo pc' \<le> togo pc"
proof (induction ls arbitrary: pc w h)
  case (Cons l ls)
  obtain q v k where st: "system (Some pc, w, h) l (q, v, k)" and r: "run system (q, v, k) ls (Some pc', w', h')"
    using Cons.prems(1) by (metis prod_cases3 run_consE)
  have mono: "length (h_rets (snd (snd c))) \<le> length (h_rets (snd (snd d)))" if "run system c ms d" for c d ms
    using that by (induction rule: run.induct) (auto elim!: cv_step.cases)
  from st show ?case
  proof cases
    case (cv_work pc2)
    have s: "ok pc2 v" "togo pc2 < togo pc" using step_ok [OF Cons.prems(2) cv_work(4)] by simp_all
    have "cnt (\<lambda>l. l = WaitWork) ls + togo pc' \<le> togo pc2"
      by (rule Cons.IH [OF _ s(1)]) (use r cv_work Cons.prems(3) in auto)
    then show ?thesis using s(2) cv_work by simp
  next
    case (cv_return b)
    then have "length (h_rets h) < length (h_rets h')" using mono [OF r] by simp
    then show ?thesis using Cons.prems(3) by simp
  qed (use Cons r notify_ok in auto)
qed auto

text \<open>And it does go on, unless it is where it may block.\<close>

lemma waiting_goes_on:
  assumes "waiting_inv (Some pc, w, h)" and "\<not> stuck pc w"
  shows "\<exists>d. system (Some pc, w, h) WaitWork d"
proof -
  have "ok pc w" using assms(1) by (simp add: waiting_inv_def)
  from goes_on [OF this assms(2)] obtain r w' where r: "wait_step pc w r w'" by blast
  show ?thesis
  proof (cases r)
    case (Inl pc')
    then show ?thesis
      using cv_work [where wait_step = wait_step and pc = pc and w = w and pc' = pc' and w' = w'] r by blast
  next
    case (Inr b)
    then show ?thesis
      using cv_return [where wait_step = wait_step and pc = pc and w = w and b = b and w' = w'] r by blast
  qed
qed

end

subsection \<open>Xenomai\<close>

text \<open>
  \<open>XPoll\<close>: before \<open>poll\<close>; \<open>XDrain ts len\<close>: at the loop over the poll targets that are left, with their
  \<open>revents\<close>.
\<close>

datatype xenomai_pc = XPoll | XDrain "(int \<times> int) list" int

fun xenomai_wait_step ::
    "'k rt_kernel \<Rightarrow> xenomai_cv \<Rightarrow> xenomai_pc \<Rightarrow> 'k \<Rightarrow> ((xenomai_pc + bool) \<times> 'k) option" where
  "xenomai_wait_step K cv XPoll w =
     (let targets = [rt_file cv, non_rt_file cv]
      in case k_poll K targets INFINITE_POLL_TIME w of
           None \<Rightarrow> None
         | Some (_, revents) \<Rightarrow> Some (Inl (XDrain (zip targets revents) 0), w))"
| "xenomai_wait_step K cv (XDrain ((fd, revents) # ts) len) w =
     (if revents \<noteq> 0 then (case k_read K fd NUM_ELEMENTS w of (n, w') \<Rightarrow> Some (Inl (XDrain ts (len + n)), w'))
      else Some (Inl (XDrain ts len), w))"
| "xenomai_wait_step K cv (XDrain [] len) w = Some (Inr (len > 1), w)"

abbreviation xenomai_step ::
    "'k rt_kernel \<Rightarrow> xenomai_cv \<Rightarrow> (xenomai_pc, 'k) waiting \<Rightarrow> cv_label \<Rightarrow> (xenomai_pc, 'k) waiting \<Rightarrow> bool" where
  "xenomai_step K cv \<equiv> cv_step (\<lambda>rt w. Some (xenomai_cv_notify K rt cv w)) XPoll
     (\<lambda>pc w r w'. xenomai_wait_step K cv pc w = Some (r, w'))"

text \<open>Alone, the steps are the function.\<close>

lemma xenomai_drain_steps:
  "\<exists>ls. run (xenomai_step K cv) (Some (XDrain ts len), w, h) ls
     (None, snd (xenomai_drain K ts len w), h\<lparr>h_rets := h_rets h @ [fst (xenomai_drain K ts len w) > 1]\<rparr>)
   \<and> set ls = {WaitWork} \<and> length ls = length ts + 1"
proof (induction K ts len w rule: xenomai_drain.induct)
  case (1 K len w)
  have "xenomai_step K cv (Some (XDrain [] len), w, h) WaitWork (None, w, h\<lparr>h_rets := h_rets h @ [len > 1]\<rparr>)"
    by (rule cv_return) simp
  then show ?case by (intro exI [of _ "[WaitWork]"]) (auto intro: run.intros)
next
  case (2 K fd revents ts len w)
  define l' w' where lw: "l' = (if revents \<noteq> 0 then len + fst (k_read K fd NUM_ELEMENTS w) else len)"
    "w' = (if revents \<noteq> 0 then snd (k_read K fd NUM_ELEMENTS w) else w)"
  have st: "xenomai_step K cv (Some (XDrain ((fd, revents) # ts) len), w, h) WaitWork (Some (XDrain ts l'), w', h)"
    by (rule cv_work) (simp add: lw split: prod.split)
  obtain ls where ls: "run (xenomai_step K cv) (Some (XDrain ts l'), w', h) ls
      (None, snd (xenomai_drain K ts l' w'), h\<lparr>h_rets := h_rets h @ [fst (xenomai_drain K ts l' w') > 1]\<rparr>)"
    "set ls = {WaitWork}" "length ls = length ts + 1"
    using 2 lw by (cases "revents \<noteq> 0"; cases "k_read K fd NUM_ELEMENTS w") auto
  have "xenomai_drain K ((fd, revents) # ts) len w = xenomai_drain K ts l' w'" by (simp add: lw split: prod.split)
  then show ?case using run.run_cons [OF st ls(1)] ls(2,3) by (intro exI [of _ "WaitWork # ls"]) simp
qed

lemma xenomai_wait_steps:
  assumes "xenomai_cv_wait K cv w = Some (b, w')"
  shows "\<exists>ls. run (xenomai_step K cv) (Some XPoll, w, h) ls (None, w', h\<lparr>h_rets := h_rets h @ [b]\<rparr>)
    \<and> set ls = {WaitWork} \<and> length ls \<le> 4"
proof -
  let ?t = "[rt_file cv, non_rt_file cv]"
  obtain n rs where p: "k_poll K ?t INFINITE_POLL_TIME w = Some (n, rs)"
    and b: "b = (fst (xenomai_drain K (zip ?t rs) 0 w) > 1)" "w' = snd (xenomai_drain K (zip ?t rs) 0 w)"
    using assms by (auto simp: xenomai_cv_wait_def Let_def split: option.splits prod.splits)
  have st: "xenomai_step K cv (Some XPoll, w, h) WaitWork (Some (XDrain (zip ?t rs) 0), w, h)"
    by (rule cv_work) (simp add: p)
  obtain ls where ls: "run (xenomai_step K cv) (Some (XDrain (zip ?t rs) 0), w, h) ls (None, w', h\<lparr>h_rets := h_rets h @ [b]\<rparr>)"
    "set ls = {WaitWork}" "length ls = length (zip ?t rs) + 1"
    using xenomai_drain_steps [of K cv "zip ?t rs" 0 w h] b by auto
  then show ?thesis using run.run_cons [OF st ls(1)] by (intro exI [of _ "WaitWork # ls"]) auto
qed

text \<open>What a place of the waiter knows: a descriptor that \<open>poll\<close> has reported still has something.\<close>

definition xenomai_ok ::
    "xenomai_cv \<Rightarrow> ('k \<Rightarrow> nat) \<Rightarrow> ('k \<Rightarrow> nat) \<Rightarrow> xenomai_pc \<Rightarrow> 'k \<Rightarrow> bool" where
  "xenomai_ok cv bytes events pc w \<longleftrightarrow>
     (case pc of
        XPoll \<Rightarrow> True
      | XDrain ts len \<Rightarrow>
          (\<exists>e1 e2. ts = [(rt_file cv, e1), (non_rt_file cv, e2)] \<and> len = 0 \<and> (e1 \<noteq> 0 \<or> e2 \<noteq> 0) \<and>
             (e1 \<noteq> 0 \<longrightarrow> 0 < bytes w) \<and> (e2 \<noteq> 0 \<longrightarrow> 0 < events w)) \<or>
          (\<exists>e2. ts = [(non_rt_file cv, e2)] \<and> 0 \<le> len \<and> (len = 0 \<longrightarrow> e2 \<noteq> 0) \<and> (e2 \<noteq> 0 \<longrightarrow> 0 < events w)) \<or>
          ts = [] \<and> 0 < len)"

fun xenomai_held :: "xenomai_pc \<Rightarrow> nat" where
  "xenomai_held (XDrain [] len) = (if len > 1 then 1 else 0)"
| "xenomai_held _ = 0"

fun xenomai_got :: "xenomai_pc \<Rightarrow> nat" where
  "xenomai_got (XDrain ts len) = (if len > 0 then 1 else 0)"
| "xenomai_got XPoll = 0"

fun xenomai_togo :: "xenomai_pc \<Rightarrow> nat" where
  "xenomai_togo XPoll = 4"
| "xenomai_togo (XDrain ts len) = length ts + 1"

lemma xenomai_notify_queues:
  assumes "xenomai_queues K cv bytes events"
  shows "bytes (xenomai_cv_notify K rt cv w) = (if rt then min NUM_ELEMENTS (bytes w + 1) else bytes w)"
    and "events (xenomai_cv_notify K rt cv w) = (if rt then events w else events w + 1)"
  using xenomai_queuesD(1-4) [OF assms] by (simp_all add: xenomai_cv_notify_def)

lemma xenomai_wait_ok:
  assumes q: "xenomai_queues K cv bytes events" and ok: "xenomai_ok cv bytes events pc w"
    and st: "xenomai_wait_step K cv pc w = Some (r, w')"
  shows "case r of
      Inl pc' \<Rightarrow> xenomai_ok cv bytes events pc' w' \<and> events w + xenomai_held pc \<le> events w' + xenomai_held pc'
        \<and> xenomai_got pc' + (bytes w' + events w') \<le> xenomai_got pc + (bytes w + events w) \<and> xenomai_togo pc' < xenomai_togo pc
    | Inr b \<Rightarrow> events w + xenomai_held pc \<le> events w' + (if b then 1 else 0)
        \<and> (if b then 1 else 0) + (bytes w' + events w') \<le> xenomai_got pc + (bytes w + events w)"
proof (cases pc)
  case XPoll
  then have "k_poll K [rt_file cv, non_rt_file cv] INFINITE_POLL_TIME w \<noteq> None" using st by (auto simp: Let_def split: option.splits)
  then have pos: "bytes w > 0 \<or> events w > 0" using xenomai_queuesD(5) [OF q, of w] by fastforce
  from xenomai_queuesD(6) [OF q this] obtain n e1 e2
    where p: "k_poll K [rt_file cv, non_rt_file cv] INFINITE_POLL_TIME w = Some (n, [e1, e2])"
      "e1 \<noteq> 0 \<longleftrightarrow> bytes w > 0" "e2 \<noteq> 0 \<longleftrightarrow> events w > 0" by (elim exE conjE)
  have "r = Inl (XDrain [(rt_file cv, e1), (non_rt_file cv, e2)] 0)" "w' = w"
    using st XPoll p(1) by (auto simp: Let_def)
  then show ?thesis using XPoll p(2,3) pos by (auto simp: xenomai_ok_def)
next
  case (XDrain ts len)
  consider (both) e1 e2 where "ts = [(rt_file cv, e1), (non_rt_file cv, e2)]" "len = 0" "e1 \<noteq> 0 \<or> e2 \<noteq> 0"
      "e1 \<noteq> 0 \<longrightarrow> 0 < bytes w" "e2 \<noteq> 0 \<longrightarrow> 0 < events w"
    | (event) e2 where "ts = [(non_rt_file cv, e2)]" "0 \<le> len" "len = 0 \<longrightarrow> e2 \<noteq> 0" "e2 \<noteq> 0 \<longrightarrow> 0 < events w"
    | (none) "ts = []" "0 < len"
    using ok XDrain by (auto simp: xenomai_ok_def)
  then show ?thesis
  proof cases
    case both
    show ?thesis
    proof (cases "e1 = 0")
      case True
      then show ?thesis using st XDrain both by (auto simp: xenomai_ok_def)
    next
      case False
      then have pos: "0 < bytes w" using both(4) by simp
      from xenomai_queuesD(7) [OF q this]
      obtain v where "k_read K (rt_file cv) NUM_ELEMENTS w = (int (bytes w), v)" "bytes v = 0" "events v = events w"
        by (elim exE conjE)
      then show ?thesis using st XDrain both False pos by (auto simp: xenomai_ok_def)
    qed
  next
    case event
    show ?thesis
    proof (cases "e2 = 0")
      case True
      then show ?thesis using st XDrain event by (auto simp: xenomai_ok_def)
    next
      case False
      then have pos: "0 < events w" using event(4) by simp
      from xenomai_queuesD(8) [OF q this]
      obtain v where "k_read K (non_rt_file cv) NUM_ELEMENTS w = (8, v)" "events v = events w - 1" "bytes v = bytes w"
        by (elim exE conjE)
      then show ?thesis using st XDrain event False pos by (auto simp: xenomai_ok_def)
    qed
  next
    case none
    then show ?thesis using st XDrain by auto
  qed
qed

lemma xenomai_counting:
  assumes q: "xenomai_queues K cv bytes events"
  shows "cv_counting (\<lambda>rt w. Some (xenomai_cv_notify K rt cv w)) XPoll
    (\<lambda>pc w r w'. xenomai_wait_step K cv pc w = Some (r, w')) False (\<lambda>_. True) events (\<lambda>w. bytes w + events w)
    xenomai_held xenomai_got (xenomai_ok cv bytes events) (\<lambda>pc w. pc = XPoll \<and> bytes w + events w = 0) xenomai_togo"
proof
  note n = xenomai_notify_queues [OF q]
  have b: "bytes w \<le> NUM_ELEMENTS" for w using q unfolding xenomai_queues_def by blast
  show "xenomai_ok cv bytes events XPoll w" "xenomai_held XPoll = 0" "xenomai_got XPoll = 0" for w
    by (simp_all add: xenomai_ok_def)
  show "xenomai_ok cv bytes events pc w'" if "Some (xenomai_cv_notify K rt cv w) = Some w'" "xenomai_ok cv bytes events pc w" for pc w rt w'
    using that by (auto simp: xenomai_ok_def n NUM_ELEMENTS_def split: xenomai_pc.splits)
  show "events w' = events w + (if rt = False then 1 else 0)" if "Some (xenomai_cv_notify K rt cv w) = Some w'" for rt w w'
    using that by (auto simp: n)
  show "bytes w' + events w' \<le> bytes w + events w + (if True then 1 else 0)" if "Some (xenomai_cv_notify K rt cv w) = Some w'" for rt w w'
    using that b [of w] by (auto simp: n)
  show "xenomai_ok cv bytes events pc' w' \<and> events w + xenomai_held pc \<le> events w' + xenomai_held pc' \<and>
      xenomai_got pc' + (bytes w' + events w') \<le> xenomai_got pc + (bytes w + events w) \<and> xenomai_togo pc' < xenomai_togo pc"
    if "xenomai_ok cv bytes events pc w" "xenomai_wait_step K cv pc w = Some (Inl pc', w')" for pc w pc' w'
    using xenomai_wait_ok [OF q that] by simp
  show "events w + xenomai_held pc \<le> events w' + (if b then 1 else 0) \<and>
      (if b then 1 else 0) + (bytes w' + events w') \<le> xenomai_got pc + (bytes w + events w)"
    if "xenomai_ok cv bytes events pc w" "xenomai_wait_step K cv pc w = Some (Inr b, w')" for pc w b w'
    using xenomai_wait_ok [OF q that] by simp
  show "\<exists>r w'. xenomai_wait_step K cv pc w = Some (r, w')"
    if "xenomai_ok cv bytes events pc w" "\<not> (pc = XPoll \<and> bytes w + events w = 0)" for pc w
  proof (cases pc)
    case XPoll
    then show ?thesis using that(2) xenomai_queuesD(6) [OF q, of w] by (auto simp: Let_def)
  next
    case (XDrain ts len)
    then show ?thesis by (cases ts) (auto split: prod.splits)
  qed
qed

text \<open>
  C34. The Xenomai condition variable with one waiter, in every interleaving with notifications from any
  threads: every notification from a thread that is not realtime is still in the kernel, or a \<open>wait\<close> of its
  own has returned true for it (or is about to); \<open>wait\<close> never returns true without a notification; a read in
  \<open>wait\<close> is made only where there is something to read, so that it cannot block; and if anything has been sent, \<open>wait\<close>
  can go on and returns within four steps of its own, whatever else arrives.
\<close>

theorem xenomai_answers_all:
  assumes "xenomai_queues K cv bytes events" and "bytes w0 = 0" and "events w0 = 0"
    and "reach (xenomai_step K cv) (None, w0, no_history) (p, w, h)"
  shows "h_nonrt h \<le> events w + trues h + at_place xenomai_held p
    \<and> trues h + bytes w + events w \<le> h_rt h + h_nonrt h
    \<and> (\<forall>fd e ts len. p = Some (XDrain ((fd, e) # ts) len) \<and> e \<noteq> 0 \<longrightarrow> fd = rt_file cv \<and> 0 < bytes w \<or> fd = non_rt_file cv \<and> 0 < events w)
    \<and> (p \<noteq> None \<and> (p \<noteq> Some XPoll \<or> 0 < bytes w + events w) \<longrightarrow> (\<exists>d. xenomai_step K cv (p, w, h) WaitWork d))
    \<and> (\<forall>ls pc w' h'. p \<noteq> None \<and> run (xenomai_step K cv) (p, w, h) ls (Some pc, w', h') \<and> h_rets h' = h_rets h \<longrightarrow>
         cnt (\<lambda>l. l = WaitWork) ls < 4)"
proof -
  note C = xenomai_counting [OF assms(1)]
  have inv: "cv_counting.waiting_inv False (\<lambda>_. True) events (\<lambda>w. bytes w + events w) xenomai_held xenomai_got
      (xenomai_ok cv bytes events) (p, w, h)"
    by (rule cv_counting.waiting_reach [OF C assms(4)]) (use assms(2,3) in simp_all)
  note I = inv [unfolded cv_counting.waiting_inv_def [OF C]]
  have ok: "xenomai_ok cv bytes events pc w" if "p = Some pc" for pc using I that by simp
  have t: "0 < xenomai_togo pc" "xenomai_togo pc \<le> 4" if "xenomai_ok cv bytes events pc v" for pc v
    using that by (auto simp: xenomai_ok_def split: xenomai_pc.splits)
  have pos: "0 < xenomai_togo pc" for pc by (cases pc) simp_all
  have "cnt (\<lambda>l. l = WaitWork) ls < 4"
    if ne: "p \<noteq> None" and r: "run (xenomai_step K cv) (p, w, h) ls (Some pc, w', h')" and same: "h_rets h' = h_rets h" for ls pc w' h'
  proof -
    obtain q where q: "p = Some q" using ne by blast
    show ?thesis using cv_counting.waiting_bounded [OF C r [unfolded q] ok [OF q] same] t(2) [OF ok [OF q]] pos [of pc] by simp
  qed
  note bounded = this
  have goes: "\<exists>d. xenomai_step K cv (p, w, h) WaitWork d" if ne: "p \<noteq> None" and go: "p \<noteq> Some XPoll \<or> 0 < bytes w + events w"
  proof -
    obtain q where q: "p = Some q" using ne by blast
    show ?thesis unfolding q by (rule cv_counting.waiting_goes_on [OF C inv [unfolded q]]) (use go q in auto)
  qed
  have reads: "fd = rt_file cv \<and> 0 < bytes w \<or> fd = non_rt_file cv \<and> 0 < events w"
    if "p = Some (XDrain ((fd, e) # ts) len)" "e \<noteq> 0" for fd e ts len
    using ok [OF that(1)] that(2) by (auto simp: xenomai_ok_def)
  have counts: "h_nonrt h \<le> events w + trues h + at_place xenomai_held p"
    "trues h + bytes w + events w \<le> h_rt h + h_nonrt h"
    using I by (simp_all add: sent_def)
  show ?thesis
  proof (intro conjI allI impI)
    show "fd = rt_file cv \<and> 0 < bytes w \<or> fd = non_rt_file cv \<and> 0 < events w"
      if "p = Some (XDrain ((fd, e) # ts) len) \<and> e \<noteq> 0" for fd e ts len using reads that by blast
    show "cnt (\<lambda>l. l = WaitWork) ls < 4"
      if "p \<noteq> None \<and> run (xenomai_step K cv) (p, w, h) ls (Some pc, w', h') \<and> h_rets h' = h_rets h" for ls pc w' h'
      using bounded that by blast
    show "\<exists>d. xenomai_step K cv (p, w, h) WaitWork d" if "p \<noteq> None \<and> (p \<noteq> Some XPoll \<or> 0 < bytes w + events w)"
      using goes that by blast
  qed (rule counts)+
qed

text \<open>
  An example: the waiter polls and sees one byte of a realtime thread; before it reads, an event comes
  from another thread. This \<open>wait\<close> takes the byte only and returns false, the next one takes the event.
\<close>

fun exec_cv ::
    "(bool \<Rightarrow> 'k \<Rightarrow> 'k option) \<Rightarrow> 'pc \<Rightarrow> ('pc \<Rightarrow> 'k \<Rightarrow> (('pc + bool) \<times> 'k) option) \<Rightarrow> cv_label list \<Rightarrow> ('pc, 'k) waiting \<Rightarrow>
     ('pc, 'k) waiting option" where
  "exec_cv notify start step [] c = Some c"
| "exec_cv notify start step (NotifyRt # ls) (p, w, h) =
     (case notify True w of None \<Rightarrow> None | Some w' \<Rightarrow> exec_cv notify start step ls (p, w', h\<lparr>h_rt := h_rt h + 1\<rparr>))"
| "exec_cv notify start step (NotifyNonRt # ls) (p, w, h) =
     (case notify False w of None \<Rightarrow> None | Some w' \<Rightarrow> exec_cv notify start step ls (p, w', h\<lparr>h_nonrt := h_nonrt h + 1\<rparr>))"
| "exec_cv notify start step (EnterWait # ls) (None, w, h) = exec_cv notify start step ls (Some start, w, h)"
| "exec_cv notify start step (WaitWork # ls) (Some pc, w, h) =
     (case step pc w of
        None \<Rightarrow> None
      | Some (Inl pc', w') \<Rightarrow> exec_cv notify start step ls (Some pc', w', h)
      | Some (Inr b, w') \<Rightarrow> exec_cv notify start step ls (None, w', h\<lparr>h_rets := h_rets h @ [b]\<rparr>))"
| "exec_cv notify start step _ c = None"

lemma exec_cv_run:
  assumes "exec_cv notify start step ls c = Some d" and imp: "\<And>pc w r w'. step pc w = Some (r, w') \<Longrightarrow> wait_step pc w r w'"
  shows "run (cv_step notify start wait_step) c ls d"
  using assms(1)
proof (induction ls arbitrary: c)
  case Nil
  then show ?case by (auto intro: run.intros)
next
  case (Cons l ls)
  let ?s = "cv_step notify start wait_step"
  obtain p w h where c: "c = (p, w, h)" by (rule prod_cases3)
  have "\<exists>c'. ?s c l c' \<and> exec_cv notify start step ls c' = Some d"
  proof (cases l)
    case NotifyRt
    then obtain w' where w': "notify True w = Some w'" "exec_cv notify start step ls (p, w', h\<lparr>h_rt := h_rt h + 1\<rparr>) = Some d"
      using Cons.prems c by (auto split: option.splits)
    then show ?thesis using c NotifyRt cv_notify_rt [of notify w w' start wait_step p h] by blast
  next
    case NotifyNonRt
    then obtain w' where w': "notify False w = Some w'" "exec_cv notify start step ls (p, w', h\<lparr>h_nonrt := h_nonrt h + 1\<rparr>) = Some d"
      using Cons.prems c by (auto split: option.splits)
    then show ?thesis using c NotifyNonRt cv_notify_nonrt [of notify w w' start wait_step p h] by blast
  next
    case EnterWait
    then show ?thesis using Cons.prems c cv_enter [of notify start wait_step w h] by (cases p) auto
  next
    case WaitWork
    then obtain pc r v where r: "p = Some pc" "step pc w = Some (r, v)"
      using Cons.prems c by (cases p) (auto split: option.splits)
    note st = imp [OF r(2)]
    show ?thesis
    proof (cases r)
      case (Inl pc')
      then show ?thesis
        using Cons.prems c r WaitWork cv_work [of wait_step pc w pc' v notify start h] st by auto
    next
      case (Inr b)
      then show ?thesis
        using Cons.prems c r WaitWork cv_return [of wait_step pc w b v notify start h] st by auto
    qed
  qed
  then obtain c' where "?s c l c'" "run ?s c' ls d" using Cons.IH by blast
  then show ?case by (rule run.run_cons)
qed

definition late_event :: "cv_label list" where
  "late_event = [EnterWait, NotifyRt, WaitWork, NotifyNonRt, WaitWork, WaitWork, WaitWork]"

definition after_late_event :: "(xenomai_pc, example_world) waiting" where
  "after_late_event = the (exec_cv (\<lambda>rt w. Some (xenomai_cv_notify ex_kernel rt ex_cv w)) XPoll (xenomai_wait_step ex_kernel ex_cv) late_event
     (None, ex_world [], no_history))"

theorem xenomai_answers_all_witness:
  "\<exists>w h. after_late_event = (None, w, h) \<and> h_rets h = [False] \<and> h_nonrt h = 1 \<and> 1 \<le> ex_events w"
proof -
  obtain p w h where c: "after_late_event = (p, w, h)" by (rule prod_cases3)
  have "fst after_late_event = None" "h_rets (snd (snd after_late_event)) = [False]" "h_nonrt (snd (snd after_late_event)) = 1"
    by code_simp+
  then have f: "p = None" "h_rets h = [False]" "h_nonrt h = 1" by (simp_all add: c)
  have "exec_cv (\<lambda>rt w. Some (xenomai_cv_notify ex_kernel rt ex_cv w)) XPoll (xenomai_wait_step ex_kernel ex_cv) late_event
      (None, ex_world [], no_history) \<noteq> None" by code_simp
  then have "exec_cv (\<lambda>rt w. Some (xenomai_cv_notify ex_kernel rt ex_cv w)) XPoll (xenomai_wait_step ex_kernel ex_cv) late_event
      (None, ex_world [], no_history) = Some (p, w, h)" using c unfolding after_late_event_def by (metis option.collapse)
  then have "run (xenomai_step ex_kernel ex_cv) (None, ex_world [], no_history) late_event (p, w, h)"
    by (rule exec_cv_run) simp_all
  from reach_run [OF this reach.reach_init]
  have r: "reach (xenomai_step ex_kernel ex_cv) (None, ex_world [], no_history) (p, w, h)" .
  have z: "min NUM_ELEMENTS (ex_bytes (ex_world [])) = 0" "ex_events (ex_world []) = 0" by code_simp+
  have "h_nonrt h \<le> ex_events w + trues h + at_place xenomai_held p"
    using xenomai_answers_all [OF ex_queues z r] by blast
  then show ?thesis using c f by (intro exI [of _ w] exI [of _ h]) simp
qed

subsection \<open>EVL\<close>

text \<open>
  \<open>wait\<close>, over a kernel with the field \<open>_is_waiting\<close>: \<open>EStore\<close> sets it, \<open>EOobRead\<close> is before the \<open>oob_read\<close> of
  an out-of-band thread, \<open>EPoll\<close> at \<open>poll\<close>, which gives its answer, \<open>ERead revents\<close> before \<open>read\<close>, with what
  \<open>poll\<close> has left in \<open>fd.revents\<close>, \<open>EClear len\<close> after the loop. A step is \<open>None\<close> while a read blocks.
\<close>

datatype evl_pc = EStore | EOobRead | EPoll | ERead int | EClear int

fun evl_wait_step ::
    "'k rt_kernel \<Rightarrow> bool \<Rightarrow> evl_cv \<Rightarrow> int \<times> int \<Rightarrow> evl_pc \<Rightarrow> 'k \<times> bool \<Rightarrow> ((evl_pc + bool) \<times> 'k \<times> bool) option" where
  "evl_wait_step K inband cv answer EStore (w, is_waiting) = Some (Inl (if \<not> inband then EOobRead else EPoll), w, True)"
| "evl_wait_step K inband cv answer EOobRead (w, is_waiting) =
     (case oob_read K (xbuf_to_rt cv) 1 w of
        None \<Rightarrow> None
      | Some (n, w') \<Rightarrow> Some (Inl (EClear (0 + n)), w', is_waiting))"
| "evl_wait_step K inband cv (res, revents) EPoll (w, is_waiting) =
     (if res > 0 \<and> (revents OR POLLIN) \<noteq> 0 then Some (Inl (ERead revents), w, is_waiting)
      else if (revents OR POLL_FAULTS) \<noteq> 0 then Some (Inl (EClear 0), w, is_waiting)
      else Some (Inl EPoll, w, is_waiting))"
| "evl_wait_step K inband cv answer (ERead revents) (w, is_waiting) =
     (case xbuf_read K (xbuf_to_nonrt cv) 1 w of
        None \<Rightarrow> None
      | Some (n, w') \<Rightarrow> Some (Inl (EClear (0 + n)), w', is_waiting))"
| "evl_wait_step K inband cv answer (EClear len) (w, is_waiting) = Some (Inr (len > 0), w, False)"

text \<open>
  \<open>answers\<close>: what \<open>poll\<close> can answer, at a time-out, with data, or with errors of any kind. All that is relied
  upon is that a positive result comes with \<open>revents\<close> and that \<open>POLLIN\<close> is set only if there is data.
\<close>

definition evl_polls :: "('k \<Rightarrow> int \<times> int \<Rightarrow> bool) \<Rightarrow> ('k \<Rightarrow> nat) \<Rightarrow> bool" where
  "evl_polls answers unread \<longleftrightarrow>
     (\<forall>w. \<exists>a. answers w a) \<and>
     (\<forall>w res revents. answers w (res, revents) \<longrightarrow>
        (res > 0 \<longrightarrow> revents \<noteq> 0) \<and> (revents AND POLLIN \<noteq> 0 \<longrightarrow> 0 < unread w))"

abbreviation evl_step ::
    "'k rt_kernel \<Rightarrow> bool \<Rightarrow> evl_cv \<Rightarrow> ('k \<Rightarrow> int \<times> int \<Rightarrow> bool) \<Rightarrow>
     (evl_pc, 'k \<times> bool) waiting \<Rightarrow> cv_label \<Rightarrow> (evl_pc, 'k \<times> bool) waiting \<Rightarrow> bool" where
  "evl_step K inband cv answers \<equiv>
     cv_step (\<lambda>rt v. map_option (\<lambda>w. (w, snd v)) (evl_cv_notify K (\<not> rt) cv (fst v))) EStore
       (\<lambda>pc v r v'. \<exists>a. answers (fst v) a \<and> evl_wait_step K inband cv a pc v = Some (r, v'))"

text \<open>The buffer that a \<open>wait\<close> of an in-band thread, or of an out-of-band one, reads.\<close>

abbreviation evl_queue :: "('k \<Rightarrow> nat) \<Rightarrow> ('k \<Rightarrow> nat) \<Rightarrow> bool \<Rightarrow> 'k \<Rightarrow> nat" where
  "evl_queue unread pend inband \<equiv> (if inband then unread else pend)"

fun evl_ok :: "('k \<Rightarrow> nat) \<Rightarrow> evl_pc \<Rightarrow> 'k \<times> bool \<Rightarrow> bool" where
  "evl_ok unread EStore (w, b) = True"
| "evl_ok unread EOobRead (w, b) = b"
| "evl_ok unread EPoll (w, b) = b"
| "evl_ok unread (ERead revents) (w, b) = (b \<and> revents \<noteq> 0 \<and> (revents AND POLLIN \<noteq> 0 \<longrightarrow> 0 < unread w))"
| "evl_ok unread (EClear len) (w, b) = (b \<and> len \<le> 1)"

fun evl_stuck :: "('k \<Rightarrow> nat) \<Rightarrow> ('k \<Rightarrow> nat) \<Rightarrow> evl_pc \<Rightarrow> 'k \<times> bool \<Rightarrow> bool" where
  "evl_stuck unread pend EOobRead (w, b) = (pend w = 0)"
| "evl_stuck unread pend (ERead revents) (w, b) = (unread w = 0)"
| "evl_stuck unread pend _ _ = False"

fun evl_got :: "evl_pc \<Rightarrow> nat" where
  "evl_got (EClear len) = nat len"
| "evl_got _ = 0"

fun evl_togo :: "evl_pc \<Rightarrow> nat" where
  "evl_togo EStore = 4"
| "evl_togo EOobRead = 2"
| "evl_togo EPoll = 3"
| "evl_togo (ERead revents) = 2"
| "evl_togo (EClear len) = 1"

text \<open>The places an in-band thread, or an out-of-band one, can be at.\<close>

fun evl_place :: "bool \<Rightarrow> evl_pc \<Rightarrow> bool" where
  "evl_place inband EOobRead = (\<not> inband)"
| "evl_place inband EPoll = inband"
| "evl_place inband (ERead revents) = inband"
| "evl_place inband _ = True"

lemma evl_notify_buffers:
  assumes "evl_buffers K cv unread pend"
  shows "evl_cv_notify K inband cv w = Some w' \<Longrightarrow>
      unread w' = unread w + (if inband then 0 else 1) \<and> pend w' = pend w + (if inband then 1 else 0)"
    and "evl_cv_notify K inband cv w = None \<longleftrightarrow> evl_queue unread pend (\<not> inband) w = XBUF_SIZE"
proof -
  note d = evl_buffersD [OF assms]
  show "evl_cv_notify K inband cv w = Some w' \<Longrightarrow>
      unread w' = unread w + (if inband then 0 else 1) \<and> pend w' = pend w + (if inband then 1 else 0)"
    using d(3) [of w w'] d(5) [of w w'] by (auto simp: evl_cv_notify_def split: if_splits)
  have "unread w \<noteq> XBUF_SIZE" if "oob_write K (xbuf_to_nonrt cv) 1 w = Some v" for v
    using d(3) [OF that] d(1) [of v] by linarith
  moreover have "pend w \<noteq> XBUF_SIZE" if "xbuf_write K (xbuf_to_rt cv) 1 w = Some v" for v
    using d(5) [OF that] d(2) [of v] by linarith
  ultimately show "evl_cv_notify K inband cv w = None \<longleftrightarrow> evl_queue unread pend (\<not> inband) w = XBUF_SIZE"
    using d(4) [of w] d(6) [of w] by (cases inband; cases "oob_write K (xbuf_to_nonrt cv) 1 w"; cases "xbuf_write K (xbuf_to_rt cv) 1 w")
      (auto simp: evl_cv_notify_def)
qed

lemma evl_wait_ok:
  assumes q: "evl_buffers K cv unread pend" and a: "evl_polls answers unread" "answers (fst v) ans"
    and ok: "evl_ok unread pc v \<and> evl_place inband pc" and st: "evl_wait_step K inband cv ans pc v = Some (r, v')"
  shows "evl_queue unread pend (\<not> inband) (fst v') = evl_queue unread pend (\<not> inband) (fst v) \<and>
    (case r of
      Inl pc' \<Rightarrow> (evl_ok unread pc' v' \<and> evl_place inband pc') \<and> evl_togo pc' < evl_togo pc \<and>
        evl_queue unread pend inband (fst v) + evl_got pc = evl_queue unread pend inband (fst v') + evl_got pc'
    | Inr b \<Rightarrow> evl_queue unread pend inband (fst v) + evl_got pc = evl_queue unread pend inband (fst v') + (if b then 1 else 0))"
proof -
  obtain w b where v: "v = (w, b)" by fastforce
  obtain res revents where ans: "ans = (res, revents)" by fastforce
  have p: "res > 0 \<longrightarrow> revents \<noteq> 0" "revents AND POLLIN \<noteq> 0 \<longrightarrow> 0 < unread w"
    using a v ans by (auto simp: evl_polls_def)
  show ?thesis
  proof (cases pc)
    case EStore
    then show ?thesis using st v by auto
  next
    case EPoll
    then show ?thesis using st ok p or_nonzero [of revents] by (auto simp: v ans POLLIN_def POLL_FAULTS_def split: if_splits)
  next
    case EOobRead
    then obtain n w' where "oob_read K (xbuf_to_rt cv) 1 w = Some (n, w')" "r = Inl (EClear n)" "v' = (w', b)"
      using st v by (auto split: option.splits)
    then show ?thesis using EOobRead ok v evl_buffersD(9) [OF q, of w n w'] by (auto split: if_splits)
  next
    case (ERead e)
    then obtain n w' where "xbuf_read K (xbuf_to_nonrt cv) 1 w = Some (n, w')" "r = Inl (EClear n)" "v' = (w', b)"
      using st v by (auto split: option.splits)
    then show ?thesis using ERead ok v evl_buffersD(7) [OF q, of w n w'] by (auto split: if_splits)
  next
    case (EClear len)
    then have "r = Inr (len > 0)" "v' = (w, False)" "len \<le> 1" using st ok v by auto
    then show ?thesis using EClear v by auto
  qed
qed

lemma evl_counting:
  assumes q: "evl_buffers K cv unread pend" and a: "evl_polls answers unread"
  shows "cv_counting (\<lambda>rt v. map_option (\<lambda>w. (w, snd v)) (evl_cv_notify K (\<not> rt) cv (fst v))) EStore
    (\<lambda>pc v r v'. \<exists>a. answers (fst v) a \<and> evl_wait_step K inband cv a pc v = Some (r, v')) inband (\<lambda>rt. rt = inband)
    (\<lambda>v. evl_queue unread pend inband (fst v)) (\<lambda>v. evl_queue unread pend inband (fst v))
    evl_got evl_got (\<lambda>pc v. evl_ok unread pc v \<and> evl_place inband pc) (\<lambda>pc v. evl_stuck unread pend pc v) evl_togo"
proof
  note n = evl_notify_buffers(1) [OF q]
  show "evl_ok unread EStore v \<and> evl_place inband EStore" "evl_got EStore = 0" for v by (cases v; simp)+
  show "evl_ok unread pc v' \<and> evl_place inband pc"
    if "map_option (\<lambda>w. (w, snd v)) (evl_cv_notify K (\<not> rt) cv (fst v)) = Some v'" "evl_ok unread pc v \<and> evl_place inband pc" for pc v rt v'
  proof -
    obtain w b where v: "v = (w, b)" by fastforce
    have "\<exists>w'. evl_cv_notify K (\<not> rt) cv w = Some w' \<and> v' = (w', b)" using that(1) v by auto
    then obtain w' where w': "evl_cv_notify K (\<not> rt) cv w = Some w'" "v' = (w', b)" by blast
    have "unread w \<le> unread w'" using n [OF w'(1)] by simp
    then show ?thesis using that(2) v w'(2) by (cases pc) auto
  qed
  show "evl_queue unread pend inband (fst v') = evl_queue unread pend inband (fst v) + (if rt = inband then 1 else 0)"
    "evl_queue unread pend inband (fst v') \<le> evl_queue unread pend inband (fst v) + (if rt = inband then 1 else 0)"
    if "map_option (\<lambda>w. (w, snd v)) (evl_cv_notify K (\<not> rt) cv (fst v)) = Some v'" for v rt v'
    using that n by (auto dest!: n)
  show "(evl_ok unread pc' v' \<and> evl_place inband pc') \<and>
      evl_queue unread pend inband (fst v) + evl_got pc \<le> evl_queue unread pend inband (fst v') + evl_got pc' \<and>
      evl_got pc' + evl_queue unread pend inband (fst v') \<le> evl_got pc + evl_queue unread pend inband (fst v) \<and>
      evl_togo pc' < evl_togo pc"
    if "evl_ok unread pc v \<and> evl_place inband pc"
      "\<exists>a. answers (fst v) a \<and> evl_wait_step K inband cv a pc v = Some (Inl pc', v')" for pc v pc' v'
  proof -
    from that(2) obtain ans where s: "answers (fst v) ans" "evl_wait_step K inband cv ans pc v = Some (Inl pc', v')" by blast
    from evl_wait_ok [OF q a s(1) that(1) s(2)]
    have "(evl_ok unread pc' v' \<and> evl_place inband pc') \<and> evl_togo pc' < evl_togo pc \<and>
        evl_queue unread pend inband (fst v) + evl_got pc = evl_queue unread pend inband (fst v') + evl_got pc'" by simp
    then show ?thesis by linarith
  qed
  show "evl_queue unread pend inband (fst v) + evl_got pc \<le> evl_queue unread pend inband (fst v') + (if b then 1 else 0) \<and>
      (if b then 1 else 0) + evl_queue unread pend inband (fst v') \<le> evl_got pc + evl_queue unread pend inband (fst v)"
    if "evl_ok unread pc v \<and> evl_place inband pc"
      "\<exists>a. answers (fst v) a \<and> evl_wait_step K inband cv a pc v = Some (Inr b, v')" for pc v b v'
  proof -
    from that(2) obtain ans where s: "answers (fst v) ans" "evl_wait_step K inband cv ans pc v = Some (Inr b, v')" by blast
    from evl_wait_ok [OF q a s(1) that(1) s(2)]
    have "evl_queue unread pend inband (fst v) + evl_got pc = evl_queue unread pend inband (fst v') + (if b then 1 else 0)" by simp
    then show ?thesis by linarith
  qed
  show "\<exists>r v'. \<exists>a. answers (fst v) a \<and> evl_wait_step K inband cv a pc v = Some (r, v')"
    if ok: "evl_ok unread pc v \<and> evl_place inband pc" and go: "\<not> evl_stuck unread pend pc v" for pc v
  proof -
    obtain w b where v: "v = (w, b)" by fastforce
    obtain x where x: "answers (fst v) x" using a unfolding evl_polls_def by blast
    obtain res revents where xe: "x = (res, revents)" by fastforce
    have "\<exists>r v'. evl_wait_step K inband cv x pc v = Some (r, v')"
    proof (cases pc)
      case EOobRead
      then show ?thesis using go v evl_buffersD(10) [OF q, of w] by (cases "oob_read K (xbuf_to_rt cv) 1 w") auto
    next
      case (ERead e)
      then show ?thesis using go v evl_buffersD(8) [OF q, of w] by (cases "xbuf_read K (xbuf_to_nonrt cv) 1 w") auto
    qed (auto simp: v xe)
    then show ?thesis using x by blast
  qed
qed

text \<open>
  Notifications from the waiter's own side go into the other buffer, which no \<open>wait\<close> reads.
\<close>

lemma evl_own_side:
  assumes q: "evl_buffers K cv unread pend" and a: "evl_polls answers unread"
    and r: "reach (evl_step K inband cv answers) (None, (w0, False), no_history) c" and z: "unread w0 = 0" "pend w0 = 0"
  shows "case c of (p, v, h) \<Rightarrow>
    (\<forall>pc. p = Some pc \<longrightarrow> evl_ok unread pc v \<and> evl_place inband pc) \<and>
    evl_queue unread pend (\<not> inband) (fst v) = (if inband then h_nonrt h else h_rt h)"
  using r
proof (induction rule: reach.induct)
  case reach_init
  show ?case using z by (simp add: no_history_def)
next
  case (reach_step c l d)
  note C = evl_counting [OF q a, where inband = inband]
  note n = evl_notify_buffers(1) [OF q]
  from reach_step(2) show ?case
  proof (cases rule: cv_step.cases)
    case (cv_notify_rt v v' p h)
    then show ?thesis using reach_step.IH cv_counting.notify_ok [OF C, where rt = True and w = v and w' = v'] by (auto dest!: n)
  next
    case (cv_notify_nonrt v v' p h)
    then show ?thesis using reach_step.IH cv_counting.notify_ok [OF C, where rt = False and w = v and w' = v'] by (auto dest!: n)
  next
    case (cv_enter v h)
    then show ?thesis using reach_step.IH by (cases v) auto
  next
    case (cv_work pc v pc' v' h)
    then obtain x where s: "answers (fst v) x" "evl_wait_step K inband cv x pc v = Some (Inl pc', v')" by blast
    have ok: "evl_ok unread pc v \<and> evl_place inband pc" using reach_step.IH cv_work by simp
    show ?thesis using reach_step.IH cv_work evl_wait_ok [OF q a s(1) ok s(2)] by simp
  next
    case (cv_return pc v b v' h)
    then obtain x where s: "answers (fst v) x" "evl_wait_step K inband cv x pc v = Some (Inr b, v')" by blast
    have ok: "evl_ok unread pc v \<and> evl_place inband pc" using reach_step.IH cv_return by simp
    show ?thesis using reach_step.IH cv_return evl_wait_ok [OF q a s(1) ok s(2)] by simp
  qed
qed

text \<open>Alone, the steps are the function, where it does not block.\<close>

lemma evl_wait_steps:
  assumes a: "\<And>v. \<exists>x. answers v x" "answers w (res, revents)"
    and wt: "evl_cv_wait K True ((res, revents) # polls) cv w = Some (b, w')"
  shows "\<exists>ls f'. run (evl_step K True cv answers) (Some EStore, (w, f), h) ls (None, (w', f'), h\<lparr>h_rets := h_rets h @ [b]\<rparr>)
    \<and> set ls = {WaitWork} \<and> length ls \<le> 4"
proof -
  let ?s = "evl_step K True cv answers"
  have any: "\<exists>p q. answers v (p, q)" for v using a(1) [of v] by (simp add: split_paired_Ex)
  have s1: "?s (Some EStore, (w, f), h) WaitWork (Some EPoll, (w, True), h)" by (rule cv_work) (simp add: any)
  have s4: "?s (Some (EClear n), (v, True), h) WaitWork (None, (v, False), h\<lparr>h_rets := h_rets h @ [n > 0]\<rparr>)" for n v
    by (rule cv_return) (simp add: any)
  have p: "revents OR POLLIN \<noteq> 0" "revents OR POLL_FAULTS \<noteq> 0"
    using or_nonzero [of revents] by (simp_all add: POLLIN_def POLL_FAULTS_def)
  show ?thesis
  proof (cases "res > 0")
    case True
    then obtain n where n: "xbuf_read K (xbuf_to_nonrt cv) 1 w = Some (n, w')" "b = (n > 0)"
      using wt by (auto simp: evl_cv_wait_def evl_poll_once simp del: evl_poll_loop.simps split: option.splits)
    have s2: "?s (Some EPoll, (w, True), h) WaitWork (Some (ERead revents), (w, True), h)"
      by (rule cv_work) (use a(2) True p in \<open>auto intro!: exI [of _ "(res, revents)"]\<close>)
    have s3: "?s (Some (ERead revents), (w, True), h) WaitWork (Some (EClear n), (w', True), h)"
      by (rule cv_work) (use n in \<open>simp add: any\<close>)
    have "run ?s (Some EStore, (w, f), h) [WaitWork, WaitWork, WaitWork, WaitWork] (None, (w', False), h\<lparr>h_rets := h_rets h @ [b]\<rparr>)"
      unfolding n(2) by (rule run.run_cons, rule s1, rule run.run_cons, rule s2, rule run.run_cons, rule s3, rule run.run_cons, rule s4, rule run.run_nil)
    then show ?thesis by (intro exI [of _ "[WaitWork, WaitWork, WaitWork, WaitWork]"] exI [of _ False]) simp
  next
    case False
    then have b: "b = False" "w' = w"
      using wt by (auto simp: evl_cv_wait_def evl_poll_once simp del: evl_poll_loop.simps)
    have s2: "?s (Some EPoll, (w, True), h) WaitWork (Some (EClear 0), (w, True), h)"
      by (rule cv_work) (use a(2) False p in \<open>auto intro!: exI [of _ "(res, revents)"]\<close>)
    have "run ?s (Some EStore, (w, f), h) [WaitWork, WaitWork, WaitWork] (None, (w, False), h\<lparr>h_rets := h_rets h @ [(0::int) > 0]\<rparr>)"
      by (rule run.run_cons, rule s1, rule run.run_cons, rule s2, rule run.run_cons, rule s4, rule run.run_nil)
    then show ?thesis using b by (intro exI [of _ "[WaitWork, WaitWork, WaitWork]"] exI [of _ False]) simp
  qed
qed

lemma evl_oob_wait_steps:
  assumes "evl_cv_wait K False polls cv w = Some (b, w')"
  shows "\<exists>v1 v2 pc1 pc2. evl_wait_step K False cv a EStore (w, f) = Some (Inl pc1, v1) \<and> evl_wait_step K False cv a pc1 v1 = Some (Inl pc2, v2)
    \<and> evl_wait_step K False cv a pc2 v2 = Some (Inr b, w', False)"
  using assms by (auto simp: evl_cv_wait_def split: option.splits prod.splits)

text \<open>
  C35. The EVL condition variable with one waiter, in-band or out-of-band, in every interleaving with notifications
  from any threads and for every answer of \<open>poll\<close>, errors included. Notifications from threads of the other kind
  are neither lost nor invented: each is in the buffer, or a \<open>wait\<close> of its own has returned true for it (or is
  about to). Those from threads of the waiter's own kind go into the other buffer, which no \<open>wait\<close> ever reads, so that
  once \<open>XBUF_SIZE\<close> of them have been made the next such \<open>notify\<close> blocks. \<open>_is_waiting\<close>, on
  which the destructor relies, is set from the first access to the end. \<open>wait\<close> returns within four steps of its own,
  and can always take the next one, except at a blocking read without data: that of an out-of-band \<open>wait\<close>, as meant,
  and that of an in-band one after \<open>poll\<close> reported an error, with no \<open>POLLIN\<close>, since the test of \<open>POLLIN\<close> is always true.
\<close>

theorem evl_answers_all:
  assumes "evl_buffers K cv unread pend" and "evl_polls answers unread" and "unread w0 = 0" and "pend w0 = 0"
    and "reach (evl_step K inband cv answers) (None, (w0, False), no_history) (p, (w, is_waiting), h)"
  shows "(if inband then h_rt h else h_nonrt h) = evl_queue unread pend inband w + trues h + at_place evl_got p
    \<and> (if inband then h_nonrt h else h_rt h) = evl_queue unread pend (\<not> inband) w
    \<and> (evl_cv_notify K inband cv w = None \<longleftrightarrow> (if inband then h_nonrt h else h_rt h) = XBUF_SIZE)
    \<and> (p \<noteq> None \<and> p \<noteq> Some EStore \<longrightarrow> is_waiting)
    \<and> (\<forall>revents. p = Some (ERead revents) \<and> unread w = 0 \<longrightarrow> revents \<noteq> 0 \<and> revents AND POLLIN = 0)
    \<and> (p \<noteq> None \<and> \<not> (\<exists>d. evl_step K inband cv answers (p, (w, is_waiting), h) WaitWork d) \<longrightarrow>
        p = Some EOobRead \<and> \<not> inband \<and> pend w = 0 \<or> (\<exists>revents. p = Some (ERead revents) \<and> inband \<and> unread w = 0))
    \<and> (\<forall>ls pc v h'. p \<noteq> None \<and> run (evl_step K inband cv answers) (p, (w, is_waiting), h) ls (Some pc, v, h') \<and> h_rets h' = h_rets h \<longrightarrow>
         cnt (\<lambda>l. l = WaitWork) ls < 4)"
proof -
  note C = evl_counting [OF assms(1,2), where inband = inband]
  have inv: "cv_counting.waiting_inv inband (\<lambda>rt. rt = inband) (\<lambda>v. evl_queue unread pend inband (fst v))
      (\<lambda>v. evl_queue unread pend inband (fst v)) evl_got evl_got (\<lambda>pc v. evl_ok unread pc v \<and> evl_place inband pc) (p, (w, is_waiting), h)"
    by (rule cv_counting.waiting_reach [OF C assms(5)]) (use assms(3,4) in simp_all)
  note I = inv [unfolded cv_counting.waiting_inv_def [OF C]]
  note own = evl_own_side [OF assms(1,2,5,3,4)]
  have ok: "evl_ok unread pc (w, is_waiting)" "evl_place inband pc" if "p = Some pc" for pc using own that by simp_all
  have eq: "(if inband then h_rt h else h_nonrt h) = evl_queue unread pend inband w + trues h + at_place evl_got p"
    using I by (cases inband) (simp_all add: sent_def)
  have other: "(if inband then h_nonrt h else h_rt h) = evl_queue unread pend (\<not> inband) w" using own by simp
  have t: "0 < evl_togo pc" "evl_togo pc \<le> 4" for pc by (cases pc; simp)+
  have bounded: "cnt (\<lambda>l. l = WaitWork) ls < 4"
    if ne: "p \<noteq> None" and r: "run (evl_step K inband cv answers) (p, (w, is_waiting), h) ls (Some pc, v, h')"
      and same: "h_rets h' = h_rets h" for ls pc v h'
  proof -
    obtain q where q: "p = Some q" using ne by blast
    show ?thesis using cv_counting.waiting_bounded [OF C r [unfolded q] _ same] ok [OF q] t(2) [of q] t(1) [of pc] by fastforce
  qed
  have flag: "is_waiting" if ne: "p \<noteq> None" "p \<noteq> Some EStore"
  proof -
    obtain q where q: "p = Some q" using ne by blast
    show ?thesis using ok(1) [OF q] ne q by (cases q) auto
  qed
  have goes: "p = Some EOobRead \<and> \<not> inband \<and> pend w = 0 \<or> (\<exists>revents. p = Some (ERead revents) \<and> inband \<and> unread w = 0)"
    if ne: "p \<noteq> None" and no: "\<not> (\<exists>d. evl_step K inband cv answers (p, (w, is_waiting), h) WaitWork d)"
  proof -
    obtain q where q: "p = Some q" using ne by blast
    have "evl_stuck unread pend q (w, is_waiting)"
      using cv_counting.waiting_goes_on [OF C inv [unfolded q]] no unfolding q by blast
    then show ?thesis using ok(2) [OF q] q by (cases q) auto
  qed
  have reads: "revents \<noteq> 0 \<and> revents AND POLLIN = 0" if "p = Some (ERead revents)" "unread w = 0" for revents
    using ok(1) [OF that(1)] that(2) by auto
  show ?thesis
  proof (intro conjI allI impI)
    show "evl_cv_notify K inband cv w = None \<longleftrightarrow> (if inband then h_nonrt h else h_rt h) = XBUF_SIZE"
      unfolding other by (rule evl_notify_buffers(2) [OF assms(1)])
    show "is_waiting" if "p \<noteq> None \<and> p \<noteq> Some EStore" using flag that by blast
    show "revents \<noteq> 0" "revents AND POLLIN = 0" if "p = Some (ERead revents) \<and> unread w = 0" for revents using reads that by blast+
    show "p = Some EOobRead \<and> \<not> inband \<and> pend w = 0 \<or> (\<exists>revents. p = Some (ERead revents) \<and> inband \<and> unread w = 0)"
      if "p \<noteq> None \<and> \<not> (\<exists>d. evl_step K inband cv answers (p, (w, is_waiting), h) WaitWork d)" using goes that by blast
    show "cnt (\<lambda>l. l = WaitWork) ls < 4"
      if "p \<noteq> None \<and> run (evl_step K inband cv answers) (p, (w, is_waiting), h) ls (Some pc, v, h') \<and> h_rets h' = h_rets h" for ls pc v h'
      using bounded that by blast
  qed (rule eq other)+
qed

definition ex_evl_cv :: evl_cv where
  "ex_evl_cv = \<lparr>xbuf_to_rt = 3, xbuf_to_nonrt = 4, evl_id = 0\<rparr>"

definition ex_unread :: "example_world \<Rightarrow> nat" where
  "ex_unread w = min XBUF_SIZE (ex_bytes w)"

definition ex_pend :: "example_world \<Rightarrow> nat" where
  "ex_pend w = min XBUF_SIZE (ex_events w)"

text \<open>Of these answers \<open>poll\<close> gives the first whenever there is data; it may report \<open>POLLERR\<close> instead.\<close>

definition ex_answer :: "example_world \<Rightarrow> int \<times> int" where
  "ex_answer w = (if ex_unread w > 0 then (1, POLLIN) else (0, 0))"

definition ex_answers :: "example_world \<Rightarrow> int \<times> int \<Rightarrow> bool" where
  "ex_answers w a \<longleftrightarrow> a = ex_answer w \<or> a = (1, 8)"

lemma ex_evl: "evl_buffers ex_kernel ex_evl_cv ex_unread ex_pend" "evl_polls ex_answers ex_unread"
proof -
  show "evl_buffers ex_kernel ex_evl_cv ex_unread ex_pend"
    using ex_buffers [of ex_evl_cv] by (simp add: ex_unread_def [abs_def] ex_pend_def [abs_def])
  have "(8::int) AND POLLIN = 0" by code_simp
  then show "evl_polls ex_answers ex_unread"
    by (auto simp: evl_polls_def ex_answers_def ex_answer_def POLLIN_def split: if_splits)
qed

interpretation ex_xenomai_waiter: cv_counting "\<lambda>rt w. Some (xenomai_cv_notify ex_kernel rt ex_cv w)" XPoll
    "\<lambda>pc w r w'. xenomai_wait_step ex_kernel ex_cv pc w = Some (r, w')" False "\<lambda>_. True" ex_events
    "\<lambda>w. min NUM_ELEMENTS (ex_bytes w) + ex_events w" xenomai_held xenomai_got
    "xenomai_ok ex_cv (\<lambda>w. min NUM_ELEMENTS (ex_bytes w)) ex_events"
    "\<lambda>pc w. pc = XPoll \<and> min NUM_ELEMENTS (ex_bytes w) + ex_events w = 0" xenomai_togo
  by (rule xenomai_counting [OF ex_queues])

interpretation ex_evl_waiter: cv_counting "\<lambda>rt v. map_option (\<lambda>w. (w, snd v)) (evl_cv_notify ex_kernel (\<not> rt) ex_evl_cv (fst v))" EStore
    "\<lambda>pc v r v'. \<exists>a. ex_answers (fst v) a \<and> evl_wait_step ex_kernel inband ex_evl_cv a pc v = Some (r, v')" inband "\<lambda>rt. rt = inband"
    "\<lambda>v. evl_queue ex_unread ex_pend inband (fst v)" "\<lambda>v. evl_queue ex_unread ex_pend inband (fst v)" evl_got evl_got
    "\<lambda>pc v. evl_ok ex_unread pc v \<and> evl_place inband pc" "\<lambda>pc v. evl_stuck ex_unread ex_pend pc v" evl_togo
  for inband
  by (rule evl_counting [OF ex_evl])

text \<open>
  Two notifications while the waiter is in \<open>wait\<close>, and one from an in-band thread; then \<open>poll\<close> answers with an error.
\<close>

definition two_and_one :: "cv_label list" where
  "two_and_one = [EnterWait, NotifyRt, WaitWork, WaitWork, NotifyRt, NotifyNonRt, WaitWork, WaitWork]"

definition after_two_and_one :: "(evl_pc, example_world \<times> bool) waiting option" where
  "after_two_and_one = exec_cv (\<lambda>rt v. map_option (\<lambda>w. (w, snd v)) (evl_cv_notify ex_kernel (\<not> rt) ex_evl_cv (fst v))) EStore
     (\<lambda>pc v. evl_wait_step ex_kernel True ex_evl_cv (ex_answer (fst v)) pc v) two_and_one (None, (ex_world [], False), no_history)"

theorem evl_answers_all_witness:
  "\<exists>w b h. after_two_and_one = Some (None, (w, b), h) \<and> h_rets h = [True] \<and> ex_unread w = 1 \<and> ex_pend w = 1"
proof -
  have f: "map_option fst after_two_and_one = Some None"
    "map_option (\<lambda>c. (h_rets (snd (snd c)), h_rt (snd (snd c)), h_nonrt (snd (snd c)))) after_two_and_one = Some ([True], 2, 1)"
    by code_simp+
  obtain p w b h where c: "after_two_and_one = Some (p, (w, b), h)"
    using f(1) by (cases after_two_and_one) auto
  have h: "p = None" "h_rets h = [True]" "h_rt h = 2" "h_nonrt h = 1" using f unfolding c by simp_all
  have "run (evl_step ex_kernel True ex_evl_cv ex_answers) (None, (ex_world [], False), no_history) two_and_one (p, (w, b), h)"
  proof (rule exec_cv_run [OF c [unfolded after_two_and_one_def]])
    show "\<exists>a. ex_answers (fst v) a \<and> evl_wait_step ex_kernel True ex_evl_cv a pc v = Some (r, v')"
      if "evl_wait_step ex_kernel True ex_evl_cv (ex_answer (fst v)) pc v = Some (r, v')" for pc v r v'
      using that unfolding ex_answers_def by blast
  qed
  from reach_run [OF this reach.reach_init]
  have r: "reach (evl_step ex_kernel True ex_evl_cv ex_answers) (None, (ex_world [], False), no_history) (p, (w, b), h)" .
  have z: "ex_unread (ex_world []) = 0" "ex_pend (ex_world []) = 0" by code_simp+
  note e = evl_answers_all [OF ex_evl z r]
  have "h_rt h = ex_unread w + trues h + at_place evl_got p" "h_nonrt h = ex_pend w"
    using conjunct1 [OF e] conjunct1 [OF conjunct2 [OF e]] by simp_all
  then show ?thesis using c h by (intro exI [of _ w] exI [of _ b] exI [of _ h]) simp
qed

end
