(* ===== verification/Cond_Factory.thy ===== *)
theory Cond_Factory
  imports Twine_Api
begin

text \<open>
  The ids of the realtime condition variables over whole histories of the factory and of the destructors of
  what it returns (\<open>src/src/twine.cpp\<close>, \<open>src/src/condition_variable_implementation.h\<close>), constructors that throw included.
\<close>

subsection \<open>Histories\<close>

text \<open>
  A creation with the realtime flag of the process at that time, and a destruction of the \<open>j\<close>-th object
  alive, each with the state that the semaphores and the kernel are in by then, whatever others have done to them
  meanwhile. Creations are one after another: \<open>get_next_id\<close> is not safe for two threads
  (\<open>concurrent_ids_collide\<close>).
\<close>

datatype 'k factory_op =
    CreateCV bool "nat \<Rightarrow> nat" int sem_world 'k
  | DestroyCV nat "bool list" sem_world 'k

fun cv_ids :: "cond_var \<Rightarrow> nat list" where
  "cv_ids (XenomaiCV cv) = [xenomai_id cv]"
| "cv_ids (EvlCV cv) = [evl_id cv]"
| "cv_ids _ = []"

text \<open>The ids that are marked by a call.\<close>

definition marked :: "bool list \<Rightarrow> bool list \<Rightarrow> nat list" where
  "marked ids ids' = filter (\<lambda>i. ids' ! i \<and> \<not> ids ! i) [0..<length ids]"

text \<open>
  The state: the objects alive, the ids that a call has marked that threw, the ids that stayed marked when
  their object was destroyed, and the array.
\<close>

type_synonym cv_world = "cond_var list \<times> nat list \<times> nat list \<times> bool list"

fun factory_step :: "build \<Rightarrow> 'k rt_kernel \<Rightarrow> (int \<Rightarrow> string) \<Rightarrow> 'k factory_op \<Rightarrow> cv_world \<Rightarrow> cv_world" where
  "factory_step b K strerror (CreateCV flag rands err w k) (living, thrown, kept, ids) =
     (case create_rt_condition_variable b flag K rands strerror err ids w k of
        (Inr v, ids', _) \<Rightarrow> (living @ [v], thrown, kept, ids')
      | (Inl f, ids', _) \<Rightarrow> (living, thrown @ marked ids ids', kept, ids'))"
| "factory_step b K strerror (DestroyCV j is_waiting w k) (living, thrown, kept, ids) =
     (if j < length living
      then (case destroy_rt_condition_variable K is_waiting (living ! j) ids w k of
              (ids', _) \<Rightarrow> (take j living @ drop (Suc j) living, thrown, kept @ filter (\<lambda>i. ids' ! i) (cv_ids (living ! j)), ids'))
      else (living, thrown, kept, ids))"

definition factory_history :: "build \<Rightarrow> 'k rt_kernel \<Rightarrow> (int \<Rightarrow> string) \<Rightarrow> nat \<Rightarrow> 'k factory_op list \<Rightarrow> cv_world" where
  "factory_history b K strerror max_cond_vars ops =
     fold (factory_step b K strerror) ops ([], [], [], initial_ids max_cond_vars)"

text \<open>The ids held by the objects alive.\<close>

definition held_ids :: "cond_var list \<Rightarrow> nat list" where
  "held_ids living = concat (map cv_ids living)"

text \<open>The creations that ask for an id.\<close>

fun asks_id :: "build \<Rightarrow> 'k factory_op \<Rightarrow> bool" where
  "asks_id b (CreateCV flag rands err w k) =
     (cond_var_type b flag = XenomaiConditionVariable \<or> cond_var_type b flag = EvlConditionVariable)"
| "asks_id b (DestroyCV j is_waiting w k) = False"

subsection \<open>One call\<close>

lemma marked_same [simp]: "marked ids ids = []"
  by (simp add: marked_def)

lemma marked_one:
  assumes "i < length ids" and "\<not> ids ! i"
  shows "marked ids (ids[i := True]) = [i]"
proof -
  have "marked ids (ids[i := True]) = filter (\<lambda>j. j = i) [0..<length ids]"
    unfolding marked_def by (rule filter_cong) (use assms in \<open>auto simp: nth_list_update\<close>)
  also have "[0..<length ids] = [0..<i] @ i # [Suc i..<length ids]"
    using assms(1) upt_add_eq_append [of 0 i "length ids - i"] upt_conv_Cons by simp
  also have "filter (\<lambda>j. j = i) \<dots> = [i]" by (simp add: filter_empty_conv)
  finally show ?thesis .
qed

lemma create_ids:
  assumes "create_rt_condition_variable b flag K rands strerror err ids w k = (res, ids', w', k')"
  shows "if asks_id b (CreateCV flag rands err w k)
    then (\<forall>j < length ids. ids ! j) \<and> ids' = ids \<and> (\<exists>f. res = Inl f)
         \<or> (\<exists>i < length ids. \<not> ids ! i \<and> ids' = ids[i := True] \<and>
              (\<forall>v. res = Inr v \<longrightarrow> cv_ids v = [i] \<and> ((\<exists>cv. v = EvlCV cv) \<longleftrightarrow> b = Evl_Build)))
    else ids' = ids \<and> (\<forall>v. res = Inr v \<longrightarrow> cv_ids v = [])"
  using assms get_next_id_cases [of ids]
  by (auto simp: create_rt_condition_variable_def cond_var_type_def dest!: ctor_ids
      split: prod.splits sum.splits if_splits)

lemma destroy_ids:
  assumes "destroy_rt_condition_variable K is_waiting v ids w k = (ids', w', k')" and "set (cv_ids v) \<subseteq> taken_ids ids"
  shows "length ids' = length ids"
    and "if \<exists>cv. v = EvlCV cv then ids' = ids else taken_ids ids' = taken_ids ids - set (cv_ids v)"
proof -
  have "length ids' = length ids \<and> (if \<exists>cv. v = EvlCV cv then ids' = ids else taken_ids ids' = taken_ids ids - set (cv_ids v))"
    using assms
    by (cases v) (auto simp: destroy_rt_condition_variable_def xenomai_cv_dtor_def drop_id_def deregister_id_def
        taken_update taken_ids_def nth_list_update split: if_splits)
  then show "length ids' = length ids"
    and "if \<exists>cv. v = EvlCV cv then ids' = ids else taken_ids ids' = taken_ids ids - set (cv_ids v)" by simp_all
qed

subsection \<open>The invariant\<close>

definition factory_inv :: "build \<Rightarrow> nat \<Rightarrow> nat \<Rightarrow> cv_world \<Rightarrow> bool" where
  "factory_inv b n m st \<longleftrightarrow>
     (case st of (living, thrown, kept, ids) \<Rightarrow>
        length ids = n \<and> distinct (held_ids living @ thrown @ kept) \<and>
        set (held_ids living @ thrown @ kept) = taken_ids ids \<and>
        (\<forall>v \<in> set living. cv_ids v \<noteq> [] \<longrightarrow> ((\<exists>cv. v = EvlCV cv) \<longleftrightarrow> b = Evl_Build)) \<and>
        (b \<noteq> Evl_Build \<longrightarrow> kept = []) \<and>
        (b = Evl_Build \<longrightarrow> length (held_ids living @ thrown @ kept) = min n m))"

lemma held_ids_simps [simp]:
  "held_ids [] = []" "held_ids (v # vs) = cv_ids v @ held_ids vs" "held_ids (vs @ ws) = held_ids vs @ held_ids ws"
  by (simp_all add: held_ids_def)

lemma all_taken: "(\<forall>j < length ids. ids ! j) \<longleftrightarrow> taken_ids ids = {..< length ids}"
  by (auto simp: taken_ids_def)

lemma factory_create:
  assumes inv: "factory_inv b n m (living, thrown, kept, ids)"
  shows "factory_inv b n (m + (if asks_id b (CreateCV flag rands err w k) then 1 else 0))
    (factory_step b K strerror (CreateCV flag rands err w k) (living, thrown, kept, ids))"
proof -
  let ?all = "held_ids living @ thrown @ kept"
  obtain res ids' w' k' where c: "create_rt_condition_variable b flag K rands strerror err ids w k = (res, ids', w', k')"
    by (rule prod_cases4)
  note d = create_ids [OF c]
  have I: "length ids = n" "distinct ?all" "set ?all = taken_ids ids" using inv by (simp_all add: factory_inv_def)
  have len: "length ?all = card (taken_ids ids)" using distinct_card [OF I(2)] I(3) by simp
  show ?thesis
  proof (cases "asks_id b (CreateCV flag rands err w k)")
    case False
    then have "ids' = ids" "\<And>v. res = Inr v \<Longrightarrow> cv_ids v = []" using d by auto
    then show ?thesis using inv c False by (cases res) (auto simp: factory_inv_def)
  next
    case asks: True
    show ?thesis
    proof (cases "\<forall>j < length ids. ids ! j")
      case True
      then have e: "ids' = ids" "\<exists>f. res = Inl f" using d asks by auto
      have "taken_ids ids = {..< n}" using True I(1) all_taken by blast
      then have "length ?all = n" using len by simp
      then show ?thesis using inv c e asks by (auto simp: factory_inv_def)
    next
      case False
      then obtain i where i: "i < length ids" "\<not> ids ! i" "ids' = ids[i := True]"
        and v: "\<And>v. res = Inr v \<Longrightarrow> cv_ids v = [i] \<and> ((\<exists>cv. v = EvlCV cv) \<longleftrightarrow> b = Evl_Build)"
        using d asks by auto
      have ni: "i \<notin> set ?all" using I(3) i(2) by (auto simp: taken_ids_def)
      have t: "taken_ids ids' = insert i (set ?all)" using I(3) i by (simp add: taken_update)
      have "set ?all \<subset> {..< n}" using I(1,3) i(1) ni by (auto simp: taken_ids_def)
      then have "length ?all < n" using distinct_card [OF I(2)] psubset_card_mono [of "{..< n}" "set ?all"] by simp
      then show ?thesis
        using inv c v i t ni asks marked_one [OF i(1,2)] by (cases res) (auto simp: factory_inv_def)
    qed
  qed
qed

lemma factory_destroy:
  assumes inv: "factory_inv b n m (living, thrown, kept, ids)"
  shows "factory_inv b n m (factory_step b K strerror (DestroyCV j is_waiting w k) (living, thrown, kept, ids))"
proof (cases "j < length living")
  case False
  then show ?thesis using inv by simp
next
  case True
  define xs v ys where l: "xs = take j living" "v = living ! j" "ys = drop (Suc j) living"
  have living: "living = xs @ v # ys" using True id_take_nth_drop unfolding l by blast
  obtain ids' w' k' where c: "destroy_rt_condition_variable K is_waiting v ids w k = (ids', w', k')"
    by (rule prod_cases3)
  have sub: "set (cv_ids v) \<subseteq> taken_ids ids" using inv living by (auto simp: factory_inv_def)
  note d = destroy_ids [OF c sub]
  have s: "factory_step b K strerror (DestroyCV j is_waiting w k) (living, thrown, kept, ids)
      = (xs @ ys, thrown, kept @ filter (\<lambda>i. ids' ! i) (cv_ids v), ids')"
    using True c by (simp add: l)
  show ?thesis
  proof (cases "\<exists>cv. v = EvlCV cv")
    case evl: True
    then have "b = Evl_Build" using inv living by (auto simp: factory_inv_def)
    moreover have "filter (\<lambda>i. ids' ! i) (cv_ids v) = cv_ids v"
      using d(2) evl sub by (auto simp: taken_ids_def filter_id_conv)
    ultimately show ?thesis unfolding s using inv living d evl by (auto simp: factory_inv_def)
  next
    case False
    then have t: "taken_ids ids' = taken_ids ids - set (cv_ids v)" using d(2) by simp
    then have "filter (\<lambda>i. ids' ! i) (cv_ids v) = []" using sub d(1) by (auto simp: taken_ids_def filter_empty_conv)
    moreover have "b = Evl_Build \<Longrightarrow> cv_ids v = []" using inv living False by (auto simp: factory_inv_def)
    ultimately show ?thesis unfolding s using inv living d(1) t by (auto simp: factory_inv_def)
  qed
qed

lemma factory_fold: "factory_inv b n m st \<Longrightarrow> factory_inv b n (m + cnt (asks_id b) ops) (fold (factory_step b K strerror) ops st)"
proof (induction ops arbitrary: m st)
  case (Cons op ops)
  obtain living thrown kept ids where st: "st = (living, thrown, kept, ids)" by (rule prod_cases4)
  note inv = Cons.prems [unfolded st]
  have "factory_inv b n (m + (if asks_id b op then 1 else 0)) (factory_step b K strerror op st)"
  proof (cases op)
    case (CreateCV flag rands err w k)
    show ?thesis unfolding st CreateCV by (rule factory_create [OF inv])
  next
    case (DestroyCV j is_waiting w k)
    show ?thesis unfolding st DestroyCV using factory_destroy [OF inv] by (simp only: asks_id.simps if_False add_0_right)
  qed
  from Cons.IH [OF this] show ?case by (cases "asks_id b op") simp_all
qed simp

subsection \<open>Properties\<close>

text \<open>
  C31. Condition variables that are alive at the same time have different ids, in every history of creations, one
  after another, and of destructions, with any kernel behind them and in any build, also when constructors
  throw. The ids taken are those of the objects alive, one for every constructor that has thrown after
  its id was taken, and one for every EVL object that was destroyed; only Xenomai's destructor
  gives the id back. \<open>get_next_id\<close> throws exactly when these are all the ids; so an EVL build can
  create no more condition variables than there are ids in the life of the process.
\<close>

theorem living_ids_distinct:
  assumes "factory_history b K strerror n ops = (living, thrown, kept, ids)"
  shows "distinct (held_ids living @ thrown @ kept) \<and> length ids = n
    \<and> (\<forall>i < n. ids ! i \<longleftrightarrow> i \<in> set (held_ids living @ thrown @ kept))
    \<and> ((\<exists>f. fst (get_next_id ids) = Inl f) \<longleftrightarrow> length (held_ids living) + length thrown + length kept = n)
    \<and> (b \<noteq> Evl_Build \<longrightarrow> kept = [])
    \<and> (b = Evl_Build \<longrightarrow> length (held_ids living) + length thrown + length kept = min n (cnt (asks_id b) ops))"
proof -
  let ?all = "held_ids living @ thrown @ kept"
  have "factory_inv b n 0 ([], [], [], initial_ids n)"
    using initial_taken [of n] initial_length [of n] by (simp add: factory_inv_def)
  from factory_fold [OF this, of ops K strerror] have "factory_inv b n (cnt (asks_id b) ops) (living, thrown, kept, ids)"
    using assms by (simp add: factory_history_def)
  then have I: "length ids = n" "distinct ?all" "set ?all = taken_ids ids" "b \<noteq> Evl_Build \<longrightarrow> kept = []"
      "b = Evl_Build \<longrightarrow> length ?all = min n (cnt (asks_id b) ops)"
    by (simp_all add: factory_inv_def)
  have "(\<exists>f. fst (get_next_id ids) = Inl f) \<longleftrightarrow> (\<forall>j < length ids. ids ! j)"
    using get_next_id_cases [of ids] by (cases "\<forall>j < length ids. ids ! j") (simp, auto)
  also have "\<dots> \<longleftrightarrow> set ?all = {..< n}" using all_taken I(1,3) by auto
  also have "\<dots> \<longleftrightarrow> length ?all = n"
  proof
    assume "length ?all = n"
    moreover have "set ?all \<subseteq> {..< n}" using I(1,3) by (auto simp: taken_ids_def)
    ultimately show "set ?all = {..< n}" using distinct_card [OF I(2)] by (intro card_subset_eq) simp_all
  next
    assume "set ?all = {..< n}"
    then show "length ?all = n" using distinct_card [OF I(2)] by simp
  qed
  finally have "(\<exists>f. fst (get_next_id ids) = Inl f) \<longleftrightarrow> length ?all = n" .
  moreover have "ids ! i \<longleftrightarrow> i \<in> set ?all" if "i < n" for i using I(1,3) that by (simp add: taken_ids_def)
  ultimately show ?thesis using I(1,2,4,5) unfolding length_append add.assoc by blast
qed

text \<open>
  Xenomai, with three ids: the second of two constructors fails at its socket and its id is lost; the first object
  is destroyed and its id used again; then two more creations, of which the last one finds no id.
\<close>

definition xenomai_ops :: "example_world factory_op list" where
  "xenomai_ops =
     (let create = (\<lambda>refuse. CreateCV True (\<lambda>_. 0) 0 empty_world (ex_world refuse))
      in [create [], create [True], DestroyCV 0 [] empty_world (ex_world []), create [], create [], create []])"

theorem living_ids_distinct_witness:
  "factory_history Xenomai_Build ex_kernel (\<lambda>_. []) 3 xenomai_ops
     = (fst (factory_history Xenomai_Build ex_kernel (\<lambda>_. []) 3 xenomai_ops), [1], [], [True, True, True])
   \<and> distinct (held_ids (fst (factory_history Xenomai_Build ex_kernel (\<lambda>_. []) 3 xenomai_ops)) @ [1])
   \<and> (\<exists>f. fst (get_next_id [True, True, True]) = Inl f)"
proof -
  let ?h = "factory_history Xenomai_Build ex_kernel (\<lambda>_. []) 3 xenomai_ops"
  have s: "snd ?h = ([1], [], [True, True, True])" and l: "length (held_ids (fst ?h)) = 2" by code_simp+
  then have h: "?h = (fst ?h, [1], [], [True, True, True])" by (metis prod.collapse)
  have "distinct (held_ids (fst ?h) @ [1] @ [])"
    "(\<exists>f. fst (get_next_id [True, True, True]) = Inl f) \<longleftrightarrow> length (held_ids (fst ?h)) + length [1 :: nat] + length ([] :: nat list) = 3"
    using living_ids_distinct [OF h] by blast+
  then show ?thesis using h l by simp
qed

end
