(* ===== verification/Thread_Locals.thy ===== *)
theory Thread_Locals
  imports Worker_Trial Pool_Cores Rt_State
begin

text \<open>
  A pool whose workers' threads have a state of their own, of any type \<open>'e\<close>: what the
  constructor of the worker prepares (\<open>create\<close>), what the thread function does before its loop
  (\<open>pro\<close>) and after it (\<open>epi\<close>), in \<open>_internal_worker_function\<close> of
  \<open>src/src/worker_pool_implementation.h\<close>. \<open>Worker_Env\<close> and \<open>Apple_Env\<close> give it the states that
  the code sets up.
\<close>

subsection \<open>Steps\<close>

definition left_loop :: "pool \<Rightarrow> pool \<Rightarrow> nat \<Rightarrow> bool" where
  "left_loop s t i \<longleftrightarrow> wpc (workers s ! i) \<noteq> WExited \<and> wpc (workers t ! i) = WExited"

text \<open>
  \<open>step\<close> are the steps of a system that contains a pool, \<open>pool_of\<close>: the pool alone, or the pool on threads
  of a library (\<open>Lifetime_Env\<close>).
\<close>

inductive env_step ::
    "('c \<Rightarrow> label \<Rightarrow> 'c \<Rightarrow> bool) \<Rightarrow> ('c \<Rightarrow> pool) \<Rightarrow> (worker \<Rightarrow> 'e \<Rightarrow> bool) \<Rightarrow> ('e \<Rightarrow> failure + 'e) \<Rightarrow> ('e \<Rightarrow> failure + 'e) \<Rightarrow>
     'c \<times> (nat \<Rightarrow> 'e) \<Rightarrow> label \<Rightarrow> 'c \<times> (nat \<Rightarrow> 'e) \<Rightarrow> bool"
  for step :: "'c \<Rightarrow> label \<Rightarrow> 'c \<Rightarrow> bool" and pool_of :: "'c \<Rightarrow> pool"
    and create :: "worker \<Rightarrow> 'e \<Rightarrow> bool" and pro :: "'e \<Rightarrow> failure + 'e" and epi :: "'e \<Rightarrow> failure + 'e" where
  env_start: "step s (LWorker i) t \<Longrightarrow> wpc (workers (pool_of s) ! i) = WInit \<Longrightarrow> pro (e i) = Inr x \<Longrightarrow>
     env_step step pool_of create pro epi (s, e) (LWorker i) (t, e(i := x))"
| env_end: "step s (LWorker i) t \<Longrightarrow> left_loop (pool_of s) (pool_of t) i \<Longrightarrow> epi (e i) = Inr x \<Longrightarrow>
     env_step step pool_of create pro epi (s, e) (LWorker i) (t, e(i := x))"
| env_worker: "step s (LWorker i) t \<Longrightarrow> wpc (workers (pool_of s) ! i) \<noteq> WInit \<Longrightarrow> \<not> left_loop (pool_of s) (pool_of t) i \<Longrightarrow>
     env_step step pool_of create pro epi (s, e) (LWorker i) (t, e)"
| env_create: "step s LCaller t \<Longrightarrow> num (pool_of t) = num (pool_of s) + 1 \<Longrightarrow> create (last_worker (pool_of t)) x \<Longrightarrow>
     env_step step pool_of create pro epi (s, e) LCaller (t, e(num (pool_of s) := x))"
| env_other: "step s l t \<Longrightarrow> \<not> (\<exists>i. l = LWorker i) \<Longrightarrow> num (pool_of t) \<noteq> num (pool_of s) + 1 \<Longrightarrow>
     env_step step pool_of create pro epi (s, e) l (t, e)"

lemma env_base: "env_step step pool_of create pro epi (s, e) l (t, e') \<Longrightarrow> step s l t"
  by (erule env_step.cases) simp_all

lemma env_reach_base: "reach (env_step step pool_of create pro epi) (s0, e0) c \<Longrightarrow> reach step s0 (fst c)"
proof (induction rule: reach.induct)
  case (reach_step c l d)
  then have "step (fst c) l (fst d)" using env_base by (metis prod.collapse)
  with reach_step.IH show ?case by (rule reach.reach_step)
qed (simp add: reach.reach_init)

subsection \<open>What a step does to the workers\<close>

text \<open>The initialisation's result is fixed when a worker is made.\<close>

definition verdict :: "worker \<Rightarrow> apple_status option \<times> apple_status" where
  "verdict w = (init_write w, resolved w)"

abbreviation same_worker :: "pool \<Rightarrow> pool \<Rightarrow> nat \<Rightarrow> bool" where
  "same_worker s t i \<equiv> wpc (workers t ! i) = wpc (workers s ! i) \<and> verdict (workers t ! i) = verdict (workers s ! i)"

lemma verdict_stop [simp]: "verdict (w\<lparr>thread_running := b\<rparr>) = verdict w"
  by (simp add: verdict_def resolved_def split: option.split)

lemma caller_workers:
  assumes "caller_step s = Some t"
  shows "num t = num s + 1 \<and> wpc (last_worker t) = WInit \<and> (\<forall>i < num s. workers t ! i = workers s ! i)
    \<or> num t \<le> num s \<and> (\<forall>i < num t. same_worker s t i)"
proof (cases "ctl s")
  case (InBar pc k)
  then show ?thesis using assms
    by (cases "pc = CRet"; cases k) (auto simp: caller_step_def split: option.splits)
next
  case (AddExec a c)
  then show ?thesis using assms
    by (cases "run_worker a = 0") (auto simp: caller_step_def add_exec_def new_worker_def nth_append last_worker_def)
next
  case (AddStop c st)
  have "wpc ((workers s)[num s - Suc 0 := (last_worker s)\<lparr>thread_running := False\<rparr>] ! i) = wpc (workers s ! i)
      \<and> verdict ((workers s)[num s - Suc 0 := (last_worker s)\<lparr>thread_running := False\<rparr>] ! i) = verdict (workers s ! i)"
    if "i < num s" for i
    using that by (cases "i = num s - Suc 0") (auto simp: last_worker_def)
  then show ?thesis using assms AddStop by (auto simp: caller_step_def)
next
  case (AddPop st)
  then show ?thesis using assms by (auto simp: caller_step_def nth_butlast split: if_splits)
qed (use assms in \<open>auto simp: caller_step_def split: if_splits\<close>)

lemma other_workers: "pool_step s l t \<Longrightarrow> l = LSpurious \<or> is_call l \<Longrightarrow> workers t = workers s"
  by (erule pool_step.cases) (auto simp: host_call_def split: call.splits option.splits)

lemma worker_workers:
  assumes "pool_step s (LWorker i) t"
  shows "i < num s" and "num t = num s" and "j < num s \<Longrightarrow> j \<noteq> i \<Longrightarrow> workers t ! j = workers s ! j"
    and "wpc (workers t ! i) \<noteq> WInit" and "wpc (workers s ! i) \<noteq> WExited"
    and "wpc (workers s ! i) = WInit \<Longrightarrow> wpc (workers t ! i) \<noteq> WExited"
    and "verdict (workers t ! i) = verdict (workers s ! i)"
proof -
  obtain w b where i: "i < num s" and t: "t = s\<lparr>bar := b, workers := (workers s)[i := w]\<rparr>"
    and st: "worker_step i (pool_running s) (workers s ! i) (bar s) = Some (w, b)"
    using assms by (auto elim!: worker_stepE)
  show "i < num s" and "num t = num s" and "j < num s \<Longrightarrow> j \<noteq> i \<Longrightarrow> workers t ! j = workers s ! j"
    using i t by simp_all
  have "verdict w = verdict (workers s ! i)"
    using resolved_worker [OF st] worker_thread_running [OF st] by (simp add: verdict_def)
  then show "verdict (workers t ! i) = verdict (workers s ! i)" using i t by simp
  show "wpc (workers t ! i) \<noteq> WInit" and "wpc (workers s ! i) \<noteq> WExited"
    and "wpc (workers s ! i) = WInit \<Longrightarrow> wpc (workers t ! i) \<noteq> WExited"
    using st i t by (auto elim!: worker_step_cases split: if_splits)
qed

text \<open>The arguments with which a worker is about to be made, and where they come from.\<close>

fun pending :: "ctl \<Rightarrow> add_args option" where
  "pending (InBar pc (KAddRun a c)) = Some a"
| "pending (AddCount a c) = Some a"
| "pending (AddExec a c) = Some a"
| "pending _ = None"

lemma pending_step:
  assumes "pool_step s l t" and "pending (ctl t) = Some a"
  shows "pending (ctl s) = Some a \<or> l = LCall (AddWorker a)"
  using assms(1)
proof cases
  case step_caller
  show ?thesis
  proof (cases "ctl s")
    case (InBar pc k)
    then show ?thesis using step_caller assms(2)
      by (cases k) (auto simp: caller_step_def split: if_splits option.splits)
  qed (use step_caller assms(2) in \<open>auto simp: caller_step_def add_exec_def Let_def split: if_splits\<close>)
next
  case (step_call c)
  then show ?thesis using assms(2) by (cases c) (auto simp: host_call_def split: option.splits if_splits)
qed (use assms(2) in auto)

lemma added_worker:
  assumes "pool_step s l t" and "num t = num s + 1"
  obtains a cpu ep where "pending (ctl s) = Some a" "last_worker t = new_worker a cpu ep"
proof -
  have "l = LCaller" using assms other_workers [OF assms(1)] worker_workers(2) [of s _ t] by (cases l) fastforce+
  then have st: "caller_step s = Some t" using assms(1) by (auto elim: caller_stepE)
  show thesis
  proof (cases "ctl s")
    case (InBar pc k)
    then show ?thesis using st assms(2) by (cases "pc = CRet"; cases k) (auto simp: caller_step_def split: option.splits)
  next
    case (AddExec a c)
    then show ?thesis using st assms(2) that
      by (cases "run_worker a = 0") (auto simp: caller_step_def add_exec_def last_worker_def)
  qed (use st assms(2) in \<open>auto simp: caller_step_def split: if_splits\<close>)
qed

text \<open>What a step of a system does to the workers of its pool: a worker's own step, and the others.\<close>

definition worker_moves :: "pool \<Rightarrow> nat \<Rightarrow> pool \<Rightarrow> bool" where
  "worker_moves s i t \<longleftrightarrow> i < num s \<and> num t = num s \<and> (\<forall>j < num s. j \<noteq> i \<longrightarrow> workers t ! j = workers s ! j)
     \<and> wpc (workers t ! i) \<noteq> WInit \<and> wpc (workers s ! i) \<noteq> WExited
     \<and> (wpc (workers s ! i) = WInit \<longrightarrow> wpc (workers t ! i) \<noteq> WExited) \<and> verdict (workers t ! i) = verdict (workers s ! i)"

lemma worker_movesD:
  assumes "worker_moves s i t"
  shows "i < num s" and "num t = num s" and "j < num s \<Longrightarrow> j \<noteq> i \<Longrightarrow> workers t ! j = workers s ! j"
    and "wpc (workers t ! i) \<noteq> WInit" and "wpc (workers s ! i) \<noteq> WExited"
    and "wpc (workers s ! i) = WInit \<Longrightarrow> wpc (workers t ! i) \<noteq> WExited"
    and "verdict (workers t ! i) = verdict (workers s ! i)"
  using assms by (simp_all add: worker_moves_def)

definition workers_kept :: "pool \<Rightarrow> pool \<Rightarrow> bool" where
  "workers_kept s t \<longleftrightarrow> num t \<le> num s \<and> (\<forall>i < num t. same_worker s t i)"

definition worker_added :: "pool \<Rightarrow> pool \<Rightarrow> bool" where
  "worker_added s t \<longleftrightarrow> num t = num s + 1 \<and> (\<forall>i < num s. workers t ! i = workers s ! i)
     \<and> (\<exists>a cpu ep. pending (ctl s) = Some a \<and> last_worker t = new_worker a cpu ep)"

lemma workers_keptI: "workers t = workers s \<Longrightarrow> workers_kept s t"
  by (simp add: workers_kept_def)

locale worker_system =
  fixes step :: "'c \<Rightarrow> label \<Rightarrow> 'c \<Rightarrow> bool"
    and pool_of :: "'c \<Rightarrow> pool"
  assumes worker_law: "step c (LWorker i) d \<Longrightarrow> worker_moves (pool_of c) i (pool_of d)"
    and other_law: "step c l d \<Longrightarrow> \<not> (\<exists>i. l = LWorker i) \<Longrightarrow>
      l = LCaller \<and> worker_added (pool_of c) (pool_of d) \<or> workers_kept (pool_of c) (pool_of d)"
    and pending_law: "step c l d \<Longrightarrow> pending (ctl (pool_of d)) = Some a \<Longrightarrow>
      pending (ctl (pool_of c)) = Some a \<or> l = LCall (AddWorker a)"
begin

lemma adds:
  assumes "step c l d" and "num (pool_of d) = num (pool_of c) + 1"
  shows "l = LCaller \<and> worker_added (pool_of c) (pool_of d)"
  using other_law [OF assms(1)] worker_law [of c _ d] assms by (cases l) (fastforce simp: workers_kept_def worker_moves_def)+

end

lemma caller_changes:
  assumes "caller_step s = Some t"
  shows "worker_added s t \<or> workers_kept s t"
proof -
  have p: "pool_step s LCaller t" by (rule pool_step.step_caller [OF assms])
  show ?thesis using caller_workers [OF assms] added_worker [OF p]
    unfolding worker_added_def workers_kept_def by metis
qed

lemma pool_changes:
  assumes "pool_step s l t" and "\<not> (\<exists>i. l = LWorker i)"
  shows "l = LCaller \<and> worker_added s t \<or> workers_kept s t"
proof (cases l)
  case LCaller
  then have "caller_step s = Some t" using assms(1) by (auto elim: caller_stepE)
  then show ?thesis using caller_changes LCaller by blast
qed (use assms other_workers [OF assms(1)] workers_keptI in auto)

interpretation pool_workers: worker_system pool_step "\<lambda>s. s"
proof unfold_locales
  show "worker_moves s i t" if "pool_step s (LWorker i) t" for s i t
    using worker_workers [OF that] by (simp add: worker_moves_def)
qed (use pool_changes pending_step in blast)+

subsection \<open>The contract of such a state\<close>

text \<open>
  Three stages of a thread: before its function has run, inside the loop, and after it; what
  holds in them may depend on the worker's result.
\<close>

fun staged :: "('v \<Rightarrow> 'e \<Rightarrow> bool) \<Rightarrow> ('v \<Rightarrow> 'e \<Rightarrow> bool) \<Rightarrow> ('v \<Rightarrow> 'e \<Rightarrow> bool) \<Rightarrow> worker_pc \<Rightarrow> 'v \<Rightarrow> 'e \<Rightarrow> bool" where
  "staged fresh ready over WInit v x = fresh v x"
| "staged fresh ready over WExited v x = over v x"
| "staged fresh ready over p v x = ready v x"

lemma staged_ready: "p \<noteq> WInit \<Longrightarrow> p \<noteq> WExited \<Longrightarrow> staged fresh ready over p v x = ready v x"
  by (cases p) simp_all

definition env_inv ::
  "('c \<Rightarrow> pool) \<Rightarrow> (apple_status option \<times> apple_status \<Rightarrow> 'e \<Rightarrow> bool) \<Rightarrow> (apple_status option \<times> apple_status \<Rightarrow> 'e \<Rightarrow> bool) \<Rightarrow>
   (apple_status option \<times> apple_status \<Rightarrow> 'e \<Rightarrow> bool) \<Rightarrow> 'c \<times> (nat \<Rightarrow> 'e) \<Rightarrow> bool" where
  "env_inv pool_of fresh ready over c \<longleftrightarrow>
     (\<forall>i < num (pool_of (fst c)). staged fresh ready over (wpc (workers (pool_of (fst c)) ! i))
        (verdict (workers (pool_of (fst c)) ! i)) (snd c i))"

locale thread_locals =
  fixes create :: "worker \<Rightarrow> 'e \<Rightarrow> bool"
    and pro :: "'e \<Rightarrow> failure + 'e"
    and epi :: "'e \<Rightarrow> failure + 'e"
    and fresh :: "apple_status option \<times> apple_status \<Rightarrow> 'e \<Rightarrow> bool"
    and ready :: "apple_status option \<times> apple_status \<Rightarrow> 'e \<Rightarrow> bool"
    and over :: "apple_status option \<times> apple_status \<Rightarrow> 'e \<Rightarrow> bool"
  assumes created: "create w x \<Longrightarrow> fresh (verdict w) x"
    and started: "fresh v x \<Longrightarrow> \<exists>y. pro x = Inr y \<and> ready v y"
    and ended: "ready v x \<Longrightarrow> \<exists>y. epi x = Inr y \<and> over v y"
begin

lemma stages:
  assumes "staged fresh ready over p v x"
  shows "p = WInit \<Longrightarrow> pro x = Inr y \<Longrightarrow> ready v y" and "p \<noteq> WInit \<Longrightarrow> p \<noteq> WExited \<Longrightarrow> epi x = Inr y \<Longrightarrow> over v y"
    and "p = WInit \<Longrightarrow> \<exists>y. pro x = Inr y" and "p \<noteq> WInit \<Longrightarrow> p \<noteq> WExited \<Longrightarrow> \<exists>y. epi x = Inr y"
  using assms started [of v x] ended [of v x] by (auto simp: staged_ready)

end

locale located_threads = worker_system + thread_locals
begin

abbreviation env_ok :: "'a \<times> (nat \<Rightarrow> 'b) \<Rightarrow> bool" where
  "env_ok \<equiv> env_inv pool_of fresh ready over"

abbreviation with_env :: "'a \<times> (nat \<Rightarrow> 'b) \<Rightarrow> label \<Rightarrow> 'a \<times> (nat \<Rightarrow> 'b) \<Rightarrow> bool" where
  "with_env \<equiv> env_step step pool_of create pro epi"

lemma env_okD:
  "env_ok (s, e) \<Longrightarrow> i < num (pool_of s) \<Longrightarrow>
     staged fresh ready over (wpc (workers (pool_of s) ! i)) (verdict (workers (pool_of s) ! i)) (e i)"
  by (simp add: env_inv_def)

lemma env_inv_step:
  assumes st: "with_env c l d" and inv: "env_ok c"
  shows "env_ok d"
  using st
proof cases
  case (env_start s i t e x)
  note w = worker_movesD [OF worker_law [OF env_start(4)]]
  have "ready (verdict (workers (pool_of s) ! i)) x"
    using stages(1) [OF env_okD [OF inv [unfolded env_start(1)] w(1)] env_start(5,6)] .
  then show ?thesis
    using inv env_start(1-3) w(2,3,4,7) w(6) [OF env_start(5)] by (auto simp: env_inv_def staged_ready)
next
  case (env_end s i t e x)
  note w = worker_movesD [OF worker_law [OF env_end(4)]]
  have p: "wpc (workers (pool_of t) ! i) = WExited" "wpc (workers (pool_of s) ! i) \<noteq> WInit"
    using env_end(5) w(6) by (auto simp: left_loop_def)
  have "over (verdict (workers (pool_of s) ! i)) x"
    using stages(2) [OF env_okD [OF inv [unfolded env_end(1)] w(1)] p(2) w(5) env_end(6)] .
  then show ?thesis using inv env_end(1-3) w(2,3,7) p(1) by (auto simp: env_inv_def)
next
  case (env_worker s i t e)
  note w = worker_movesD [OF worker_law [OF env_worker(4)]]
  have p: "wpc (workers (pool_of t) ! i) \<noteq> WExited" using env_worker(6) w(5) by (simp add: left_loop_def)
  have "ready (verdict (workers (pool_of s) ! i)) (e i)"
    using env_okD [OF inv [unfolded env_worker(1)] w(1)] w(5) env_worker(5) by (simp add: staged_ready)
  then have i: "staged fresh ready over (wpc (workers (pool_of t) ! i)) (verdict (workers (pool_of t) ! i)) (e i)"
    by (simp add: staged_ready [OF w(4) p] w(7))
  have "staged fresh ready over (wpc (workers (pool_of t) ! j)) (verdict (workers (pool_of t) ! j)) (e j)"
    if "j < num (pool_of s)" for j
    using i inv that w(3) [OF that] env_worker(1) by (cases "j = i") (auto simp: env_inv_def)
  then show ?thesis using env_worker(3) w(2) by (simp add: env_inv_def)
next
  case (env_create s t x e)
  have "worker_added (pool_of s) (pool_of t)" using adds [OF env_create(4,5)] by blast
  then show ?thesis
    using inv env_create(1,3) created [OF env_create(6)]
    by (auto simp: env_inv_def less_Suc_eq last_worker_def worker_added_def new_worker_def)
next
  case (env_other s t e)
  have "workers_kept (pool_of s) (pool_of t)"
    using other_law [OF env_other(3,4)] env_other(5) by (auto simp: worker_added_def)
  then show ?thesis using inv env_other(1,2) by (auto simp: env_inv_def workers_kept_def)
qed

lemma env_inv_reach:
  assumes "reach with_env (s0, e0) c" and "num (pool_of s0) = 0"
  shows "env_ok c"
  using assms(1)
proof (induction rule: reach.induct)
  case reach_init
  show ?case using assms(2) by (simp add: env_inv_def)
qed (rule env_inv_step)

text \<open>Setting up and ending take no step from the system.\<close>

lemma env_possible:
  assumes inv: "env_ok (s, e)" and st: "step s l t"
    and c: "num (pool_of t) = num (pool_of s) + 1 \<Longrightarrow> \<exists>x. create (last_worker (pool_of t)) x"
  shows "\<exists>e'. with_env (s, e) l (t, e')"
proof -
  consider (worker) i where "l = LWorker i" | (create) "l = LCaller" "num (pool_of t) = num (pool_of s) + 1"
    | (other) "\<not> (\<exists>i. l = LWorker i)" "num (pool_of t) \<noteq> num (pool_of s) + 1"
    using adds [OF st] by blast
  then show ?thesis
  proof cases
    case worker
    note st' = st [unfolded worker]
    note w = worker_movesD [OF worker_law [OF st']]
    note g = stages(3,4) [OF env_okD [OF inv w(1)]]
    consider (start) "wpc (workers (pool_of s) ! i) = WInit"
      | (leave) "wpc (workers (pool_of s) ! i) \<noteq> WInit" "left_loop (pool_of s) (pool_of t) i"
      | (stay) "wpc (workers (pool_of s) ! i) \<noteq> WInit" "\<not> left_loop (pool_of s) (pool_of t) i" by blast
    then show ?thesis
    proof cases
      case start
      then obtain x where "pro (e i) = Inr x" using g(1) by blast
      then have "with_env (s, e) (LWorker i) (t, e(i := x))" using start st' by (intro env_start)
      then show ?thesis unfolding worker by blast
    next
      case leave
      then obtain x where "epi (e i) = Inr x" using g(2) w(5) by blast
      then have "with_env (s, e) (LWorker i) (t, e(i := x))" using leave(2) st' by (intro env_end)
      then show ?thesis unfolding worker by blast
    next
      case stay
      then have "with_env (s, e) (LWorker i) (t, e)" using st' by (intro env_worker)
      then show ?thesis unfolding worker by blast
    qed
  next
    case create
    obtain x where "create (last_worker (pool_of t)) x" using c create(2) by blast
    then have "with_env (s, e) LCaller (t, e(num (pool_of s) := x))"
      using create st by (intro env_create) simp_all
    then show ?thesis unfolding create(1) by blast
  next
    case other
    then have "with_env (s, e) l (t, e)" using st by (intro env_other)
    then show ?thesis by blast
  qed
qed

text \<open>So a run of the system in which only workers are added that can be created is a run with the state.\<close>

lemma env_run_possible:
  assumes "run step s ls t" and "env_ok (s, e)" and "calls_ok P ls"
    and "\<And>a. pending (ctl (pool_of s)) = Some a \<Longrightarrow> P a"
    and c: "\<And>a cpu ep. P a \<Longrightarrow> \<exists>x. create (new_worker a cpu ep) x"
  shows "\<exists>e'. run with_env (s, e) ls (t, e')"
  using assms(1-4)
proof (induction arbitrary: e rule: run.induct)
  case (run_nil s)
  then show ?case by (auto intro: run.run_nil)
next
  case (run_cons s l t ls u)
  have "\<exists>x. create (last_worker (pool_of t)) x" if "num (pool_of t) = num (pool_of s) + 1"
    using adds [OF run_cons.hyps(1) that] run_cons.prems(3) c unfolding worker_added_def by metis
  then obtain e' where e': "with_env (s, e) l (t, e')"
    using env_possible [OF run_cons.prems(1) run_cons.hyps(1)] by blast
  have "calls_ok P ls" using run_cons.prems(2) by (cases "(P, l # ls)" rule: calls_ok.cases) auto
  moreover have "P a" if "pending (ctl (pool_of t)) = Some a" for a
    using pending_law [OF run_cons.hyps(1) that] run_cons.prems(2,3) by auto
  ultimately obtain e2 where "run with_env (t, e') ls (u, e2)"
    using run_cons.IH [OF env_inv_step [OF e' run_cons.prems(1)]] by blast
  with e' show ?case by (blast intro: run.run_cons)
qed

end

lemma new_pool_empty [simp]: "workers (new_pool cs) = []"
  by (simp add: new_pool_def)

text \<open>The run of the example \<open>midway\<close>.\<close>

lemma midway_history:
  assumes "P good_args"
  obtains ls where "run pool_step (new_pool two_cores) ls (midway n)" "calls_ok P ls"
proof -
  obtain l1 where l1: "run pool_step (new_pool two_cores) l1 pool2" "calls_ok P l1" by (rule pool2_history [of P, OF assms])
  obtain l2 where l2: "run pool_step (host_call WakeupAndWait pool2) l2 (midway n)" "\<forall>l \<in> set l2. \<not> is_call l"
    unfolding midway_def by (rule call_and_run_run)
  have "run pool_step pool2 (LCall WakeupAndWait # l2) (midway n)"
    by (rule run.run_cons [OF _ l2(1)], rule step_call) (simp add: pool2_host)
  with l1(1) have "run pool_step (new_pool two_cores) (l1 @ LCall WakeupAndWait # l2) (midway n)" by (rule run_append)
  moreover have "calls_ok P (l1 @ LCall WakeupAndWait # l2)"
    using l1(2) calls_ok_work [OF l2(2), of P "[]"]
    by (induction P l1 rule: calls_ok.induct) auto
  ultimately show thesis by (rule that)
qed

end
