(* ===== verification/Worker_Env.thy ===== *)
theory Worker_Env
  imports Thread_Locals "HOL-Library.Word"
begin

unbundle bit_operations_syntax

text \<open>
  What a worker's thread sets up before its loop (\<open>_internal_worker_function\<close> in
  \<open>src/src/worker_pool_implementation.h\<close>): its \<open>ThreadRtFlag\<close>, the denormals flags of the
  floating-point unit (\<open>set_flush_denormals_to_zero\<close> of \<open>src/src/twine.cpp\<close>), the warnings about mode
  switches, and its attachment to EVL; and the state in which the callbacks then run.
\<close>

subsection \<open>The state of a thread\<close>

record thread_env =
  instance_counter :: int           \<comment> \<open>\<open>ThreadRtFlag::_instance_counter\<close>, thread-local\<close>
  mxcsr :: "32 word"                \<comment> \<open>the control register that \<open>_mm_setcsr\<close> sets\<close>
  warns_mode_switch :: bool         \<comment> \<open>\<open>PTHREAD_WARNSW\<close> of Cobalt, \<open>T_WOSS\<close> of EVL\<close>
  evl_element :: "string option"    \<comment> \<open>the name under which the thread is attached to EVL\<close>

text \<open>The bits of the control register: denormals are zero, and results that are denormal are flushed.\<close>

definition denormals_are_zero :: "32 word \<Rightarrow> bool" where
  "denormals_are_zero r \<longleftrightarrow> bit r 6"

definition flush_to_zero :: "32 word \<Rightarrow> bool" where
  "flush_to_zero r \<longleftrightarrow> bit r 15"

text \<open>\<open>sse\<close>: the compiler defines \<open>__SSE__\<close>; without it the macro is empty.\<close>

definition denormals_intrinsic :: "bool \<Rightarrow> 'a thread_env_scheme \<Rightarrow> 'a thread_env_scheme" where
  "denormals_intrinsic sse e = (if sse then e\<lparr>mxcsr := 0x9FC0\<rparr> else e)"

definition set_flush_denormals_to_zero :: "bool \<Rightarrow> 'a thread_env_scheme \<Rightarrow> 'a thread_env_scheme" where
  "set_flush_denormals_to_zero sse e = denormals_intrinsic sse e"

text \<open>
  The options of the build and of the pool. \<open>attach\<close> is the descriptor that \<open>evl_attach_self\<close> gives, negative if
  it fails; setting the mode of a thread by a negative descriptor has no effect.
\<close>

record worker_config =
  cfg_build :: build
  cfg_sse :: bool
  cfg_type :: thread_type
  disable_denormals :: bool
  break_on_mode_sw :: bool
  attach :: int
  gettid_text :: string

definition worker_prologue :: "worker_config \<Rightarrow> 'a thread_env_scheme \<Rightarrow> failure + 'a thread_env_scheme" where
  "worker_prologue cfg e =
     (case rt_flag_ctor (instance_counter e) of
        Inl f \<Rightarrow> Inl f
      | Inr n \<Rightarrow>
          (let e1 = e\<lparr>instance_counter := n\<rparr>;
               e2 = (if disable_denormals cfg then set_flush_denormals_to_zero (cfg_sse cfg) e1 else e1);
               e3 = (if cfg_type cfg = COBALT \<and> break_on_mode_sw cfg
                     then (if cfg_build cfg = Xenomai_Build then e2\<lparr>warns_mode_switch := True\<rparr> else e2)
                     else e2)
           in Inr (if cfg_build cfg = Evl_Build \<and> cfg_type cfg = EVL
                   then (if attach cfg \<ge> 0
                         then (let e4 = e3\<lparr>evl_element := Some (''/twine-worker-'' @ gettid_text cfg)\<rparr>
                               in if break_on_mode_sw cfg then e4\<lparr>warns_mode_switch := True\<rparr> else e4)
                         else e3)
                   else e3)))"

text \<open>At the end of the function the flag is destroyed.\<close>

definition worker_epilogue :: "'a thread_env_scheme \<Rightarrow> failure + 'a thread_env_scheme" where
  "worker_epilogue e =
     (case rt_flag_dtor (instance_counter e) of Inl f \<Rightarrow> Inl f | Inr n \<Rightarrow> Inr (e\<lparr>instance_counter := n\<rparr>))"

subsection \<open>Before and after the loop\<close>

definition set_up :: "worker_config \<Rightarrow> 'a thread_env_scheme \<Rightarrow> 'a thread_env_scheme" where
  "set_up cfg x = projr (worker_prologue cfg x)"

lemma prologue_fresh: "instance_counter x = 0 \<Longrightarrow> worker_prologue cfg x = Inr (set_up cfg x)"
  by (simp add: worker_prologue_def set_up_def rt_flag_ctor_def Let_def)

lemma set_up_fields:
  assumes "instance_counter x = 0"
  shows "instance_counter (set_up cfg x) = 1"
    and "mxcsr (set_up cfg x) = (if disable_denormals cfg \<and> cfg_sse cfg then 0x9FC0 else mxcsr x)"
    and "warns_mode_switch (set_up cfg x) \<longleftrightarrow> warns_mode_switch x \<or> break_on_mode_sw cfg \<and>
      (cfg_type cfg = COBALT \<and> cfg_build cfg = Xenomai_Build
       \<or> cfg_type cfg = EVL \<and> cfg_build cfg = Evl_Build \<and> attach cfg \<ge> 0)"
    and "evl_element (set_up cfg x) = (if cfg_type cfg = EVL \<and> cfg_build cfg = Evl_Build \<and> attach cfg \<ge> 0
      then Some (''/twine-worker-'' @ gettid_text cfg) else evl_element x)"
    and "thread_env.more (set_up cfg x) = thread_env.more x"
  using assms
  by (auto simp: set_up_def worker_prologue_def rt_flag_ctor_def set_flush_denormals_to_zero_def
      denormals_intrinsic_def Let_def)

lemma epilogue_flag: "instance_counter x = 1 \<Longrightarrow> worker_epilogue x = Inr (x\<lparr>instance_counter := 0\<rparr>)"
  by (simp add: worker_epilogue_def rt_flag_dtor_def)

subsection \<open>The environment of the callbacks\<close>

text \<open>A new thread has its own counter and no warnings; it finds \<open>csr\<close> in the control register.\<close>

definition thread_start :: "32 word \<Rightarrow> thread_env" where
  "thread_start csr = \<lparr>instance_counter = 0, mxcsr = csr, warns_mode_switch = False, evl_element = None\<rparr>"

lemma thread_start_fields [simp]:
  "instance_counter (thread_start csr) = 0" "mxcsr (thread_start csr) = csr"
  "\<not> warns_mode_switch (thread_start csr)"
  by (simp_all add: thread_start_def)

text \<open>The three stages of the thread of a worker.\<close>

definition starts_as :: "32 word \<Rightarrow> worker \<Rightarrow> thread_env \<Rightarrow> bool" where
  "starts_as csr w x \<longleftrightarrow> x = thread_start csr"

definition env_is :: "thread_env \<Rightarrow> apple_status option \<times> apple_status \<Rightarrow> thread_env \<Rightarrow> bool" where
  "env_is y v x \<longleftrightarrow> x = y"

interpretation worker_env: thread_locals "starts_as csr" "worker_prologue cfg" worker_epilogue
    "env_is (thread_start csr)" "env_is (set_up cfg (thread_start csr))"
    "env_is ((set_up cfg (thread_start csr))\<lparr>instance_counter := 0\<rparr>)" for cfg csr
  by unfold_locales (simp_all add: starts_as_def env_is_def prologue_fresh epilogue_flag set_up_fields(1))

interpretation worker_pool_env: located_threads pool_step "\<lambda>s. s" "starts_as csr" "worker_prologue cfg" worker_epilogue
    "env_is (thread_start csr)" "env_is (set_up cfg (thread_start csr))"
    "env_is ((set_up cfg (thread_start csr))\<lparr>instance_counter := 0\<rparr>)" for cfg csr
  by unfold_locales

lemma setcsr_bits: "denormals_are_zero 0x9FC0" "flush_to_zero 0x9FC0"
  by code_simp+

text \<open>What the stages say of a thread.\<close>

abbreviation worker_stage :: "worker_config \<Rightarrow> 32 word \<Rightarrow> worker \<Rightarrow> thread_env \<Rightarrow> bool" where
  "worker_stage cfg csr w \<equiv> staged (env_is (thread_start csr)) (env_is (set_up cfg (thread_start csr)))
     (env_is ((set_up cfg (thread_start csr))\<lparr>instance_counter := 0\<rparr>)) (wpc w) (verdict w)"

lemma worker_stageD:
  assumes "worker_stage cfg csr w x"
  shows "wpc w \<noteq> WInit \<and> wpc w \<noteq> WExited \<longleftrightarrow> is_realtime (instance_counter x)"
    and "wpc w = WCallback \<Longrightarrow>
      (if disable_denormals cfg \<and> cfg_sse cfg then denormals_are_zero (mxcsr x) \<and> flush_to_zero (mxcsr x) else mxcsr x = csr)
      \<and> (warns_mode_switch x \<longleftrightarrow> break_on_mode_sw cfg \<and> (cfg_type cfg = COBALT \<and> cfg_build cfg = Xenomai_Build
           \<or> cfg_type cfg = EVL \<and> cfg_build cfg = Evl_Build \<and> attach cfg \<ge> 0))"
proof -
  note f = set_up_fields [of "thread_start csr" cfg, simplified]
  show "wpc w \<noteq> WInit \<and> wpc w \<noteq> WExited \<longleftrightarrow> is_realtime (instance_counter x)"
    using assms f(1) by (cases "wpc w") (simp_all add: is_realtime_def env_is_def)
  show "(if disable_denormals cfg \<and> cfg_sse cfg then denormals_are_zero (mxcsr x) \<and> flush_to_zero (mxcsr x) else mxcsr x = csr)
      \<and> (warns_mode_switch x \<longleftrightarrow> break_on_mode_sw cfg \<and> (cfg_type cfg = COBALT \<and> cfg_build cfg = Xenomai_Build
           \<or> cfg_type cfg = EVL \<and> cfg_build cfg = Evl_Build \<and> attach cfg \<ge> 0))" if "wpc w = WCallback"
    using assms that f(2,3) setcsr_bits by (simp add: env_is_def)
qed

text \<open>
  The thread in which a worker calls back, in every interleaving and at every point of its loop: it counts
  as realtime (\<open>is_current_thread_realtime\<close>); on a processor with SSE denormal operands and results are zero
  if the pool was created with that option, and otherwise the control register is as the
  thread found it; it warns of mode switches exactly if the pool was asked to and the thread
  library of the build can do it; and it counts as realtime neither before nor after
  its thread function. The setting up holds up no thread: every step of the pool is possible.
\<close>

theorem callback_environment:
  assumes "reach (env_step pool_step (\<lambda>s. s) (starts_as csr) (worker_prologue cfg) worker_epilogue) (new_pool cs, e0) (s, e)" and "i < num s"
  shows "(wpc (workers s ! i) \<noteq> WInit \<and> wpc (workers s ! i) \<noteq> WExited \<longleftrightarrow> is_realtime (instance_counter (e i)))
    \<and> (wpc (workers s ! i) = WCallback \<longrightarrow>
        (if disable_denormals cfg \<and> cfg_sse cfg then denormals_are_zero (mxcsr (e i)) \<and> flush_to_zero (mxcsr (e i))
         else mxcsr (e i) = csr)
        \<and> (warns_mode_switch (e i) \<longleftrightarrow> break_on_mode_sw cfg \<and> (cfg_type cfg = COBALT \<and> cfg_build cfg = Xenomai_Build
             \<or> cfg_type cfg = EVL \<and> cfg_build cfg = Evl_Build \<and> attach cfg \<ge> 0)))
    \<and> (\<forall>l t. pool_step s l t \<longrightarrow> (\<exists>e'. env_step pool_step (\<lambda>s. s) (starts_as csr) (worker_prologue cfg) worker_epilogue (s, e) l (t, e')))"
proof -
  note inv = worker_pool_env.env_inv_reach [OF assms(1)]
  have "worker_stage cfg csr (workers s ! i) (e i)" using inv assms(2) by (simp add: env_inv_def)
  note d = worker_stageD [OF this]
  have "\<exists>e'. env_step pool_step (\<lambda>s. s) (starts_as csr) (worker_prologue cfg) worker_epilogue (s, e) l (t, e')"
    if "pool_step s l t" for l t
    using worker_pool_env.env_possible [OF inv that] by (simp add: starts_as_def)
  then show ?thesis by (intro conjI allI impI d(1)) (use d(2) in blast)+
qed

text \<open>A pool on EVL that was asked for both; the second thread calls back.\<close>

definition evl_config :: worker_config where
  "evl_config = \<lparr>cfg_build = Evl_Build, cfg_sse = True, cfg_type = EVL, disable_denormals = True,
     break_on_mode_sw = True, attach = 5, gettid_text = ''77''\<rparr>"

theorem callback_environment_witness:
  "\<exists>e. reach (env_step pool_step (\<lambda>s. s) (starts_as 0x1F80) (worker_prologue evl_config) worker_epilogue)
         (new_pool two_cores, \<lambda>_. thread_start 0) (midway 22, e)
     \<and> is_realtime (instance_counter (e 1)) \<and> flush_to_zero (mxcsr (e 1)) \<and> warns_mode_switch (e 1)"
proof -
  obtain ls where ls: "run pool_step (new_pool two_cores) ls (midway 22)" "calls_ok (\<lambda>a. True) ls"
    by (rule midway_history [of "\<lambda>a. True"]) simp
  have "\<exists>e. run (env_step pool_step (\<lambda>s. s) (starts_as 0x1F80) (worker_prologue evl_config) worker_epilogue)
      (new_pool two_cores, \<lambda>_. thread_start 0) ls (midway 22, e)"
    by (rule worker_pool_env.env_run_possible [OF ls(1) _ ls(2)]) (simp_all add: env_inv_def new_pool_def starts_as_def)
  then obtain e where e: "reach (env_step pool_step (\<lambda>s. s) (starts_as 0x1F80) (worker_prologue evl_config) worker_epilogue)
      (new_pool two_cores, \<lambda>_. thread_start 0) (midway 22, e)"
    using reach_run reach.reach_init by metis
  have w: "wpc (workers (midway 22) ! 1) = WCallback" "1 < num (midway 22)" by code_simp+
  have c: "disable_denormals evl_config" "cfg_sse evl_config" "break_on_mode_sw evl_config" "cfg_type evl_config = EVL"
    "cfg_build evl_config = Evl_Build" "attach evl_config \<ge> 0" by (simp_all add: evl_config_def)
  from callback_environment [OF e w(2)] show ?thesis using e w(1) c by (intro exI [of _ e]) simp
qed

end
