(* ===== verification/Apple_Env.thy ===== *)
theory Apple_Env
  imports Worker_Env Apple_Threading Pool_Host
begin

text \<open>
  A worker's thread on macOS: \<open>_init_apple_thread\<close> of \<open>src/src/worker_pool_implementation.h\<close> with
  what it does to the thread (its time constraints, the workgroup it joins), the leaving at the end
  of the thread function, and the threads in which the callbacks then run.
\<close>

subsection \<open>The data of the pool and of the thread\<close>

record apple_multi_thread_data =
  device_name :: string
  current_sample_rate :: rat
  chunk_size :: int

text \<open>
  The build (with CoreAudio or not), the release of macOS, the data given to the pool, and the
  arithmetic of the machine: the rounding of floating-point operations and the time base.
\<close>

record apple_config =
  with_coreaudio :: bool
  on_macos_11 :: bool
  apple_data :: apple_multi_thread_data
  rounding :: "rat \<Rightarrow> rat"
  timebase :: "int \<times> int"           \<comment> \<open>\<open>numer\<close>, \<open>denom\<close>\<close>

text \<open>
  \<open>set_policy\<close>, \<open>is_cancelled\<close> and \<open>join_answer\<close> are what \<open>thread_policy_set\<close>,
  \<open>os_workgroup_testcancel\<close> and \<open>os_workgroup_join\<close> will answer to this thread. The join token is set
  exactly while \<open>joined_group\<close> is a workgroup.
\<close>

record apple_env = thread_env +
  p_workgroup :: "nat option"         \<comment> \<open>\<open>_p_workgroup\<close> of the worker\<close>
  set_policy :: "time_constraint_policy \<Rightarrow> int"
  is_cancelled :: bool
  join_answer :: int
  time_policy :: "time_constraint_policy option"  \<comment> \<open>the time constraints of the thread\<close>
  joined_group :: "nat option"        \<comment> \<open>the workgroup of which the thread is a member\<close>
  unset_leave :: bool                 \<comment> \<open>history: it left with a token that no join had set\<close>

subsection \<open>Before and after the loop\<close>

text \<open>\<open>_init_apple_thread\<close>: what it stores in \<open>_status\<close>, if anything, and the thread after it.\<close>

definition init_apple_worker :: "apple_config \<Rightarrow> apple_env \<Rightarrow> failure + (apple_status option \<times> apple_env)" where
  "init_apple_worker A e =
     (case worker_period_ms (rounding A) (chunk_size (apple_data A)) (current_sample_rate (apple_data A)) of
        Inl f \<Rightarrow> Inl f
      | Inr period_ms \<Rightarrow>
          (let ok = set_current_thread_to_realtime (rounding A) (fst (timebase A)) (snd (timebase A)) (set_policy e) period_ms;
               e1 = (if ok then e\<lparr>time_policy :=
                       Some (realtime_policy (rounding A) (fst (timebase A)) (snd (timebase A)) period_ms)\<rparr> else e)
           in if on_macos_11 A
              then (case join_workgroup (with_coreaudio A) True (p_workgroup e) (is_cancelled e) (join_answer e) of
                      Inl f \<Rightarrow> Inl f
                    | Inr st \<Rightarrow>
                        Inr (init_apple_thread ok True st,
                          if joined (with_coreaudio A) True (p_workgroup e) (is_cancelled e) (join_answer e)
                          then e1\<lparr>joined_group := p_workgroup e\<rparr> else e1))
              else Inr (init_apple_thread ok False EMPTY, e1)))"

definition apple_prologue :: "apple_config \<Rightarrow> worker_config \<Rightarrow> apple_env \<Rightarrow> failure + apple_env" where
  "apple_prologue A cfg e =
     (case worker_prologue cfg e of
        Inl f \<Rightarrow> Inl f
      | Inr e1 \<Rightarrow> (case init_apple_worker A e1 of Inl f \<Rightarrow> Inl f | Inr (st, e2) \<Rightarrow> Inr e2))"

definition apple_epilogue :: "apple_config \<Rightarrow> apple_env \<Rightarrow> failure + apple_env" where
  "apple_epilogue A e =
     worker_epilogue
       (if with_coreaudio A
        then (case leave_workgroup_if_needed (on_macos_11 A) (p_workgroup e) of
                None \<Rightarrow> e
              | Some g \<Rightarrow> (if joined_group e = Some g then e\<lparr>joined_group := None\<rparr> else e\<lparr>unset_leave := True\<rparr>))
        else e)"

text \<open>
  A worker is made: the constructor has asked CoreAudio for the workgroup, in any state of the audio
  system, and what the thread will store is what \<open>_init_apple_thread\<close> computes from the answers. (If
  an assertion of it fails the program ends.)
\<close>

definition apple_create :: "apple_config \<Rightarrow> 32 word \<Rightarrow> worker \<Rightarrow> apple_env \<Rightarrow> bool" where
  "apple_create A csr w x \<longleftrightarrow>
     (\<exists>sys. macos_11 sys = on_macos_11 A \<and>
        apple_worker_ctor (with_coreaudio A) sys (device_name (apple_data A)) = (status w, p_workgroup x)) \<and>
     (\<exists>y. init_apple_worker A x = Inr (init_write w, y)) \<and>
     thread_env.truncate x = thread_start csr \<and>
     time_policy x = None \<and> joined_group x = None \<and> \<not> unset_leave x"

subsection \<open>The stages of the thread\<close>

text \<open>The time constraints that the data of the pool ask for.\<close>

definition buffer_policy :: "apple_config \<Rightarrow> time_constraint_policy" where
  "buffer_policy A =
     realtime_policy (rounding A) (fst (timebase A)) (snd (timebase A))
       (max (rounding A (rounding A (1000 * of_int (chunk_size (apple_data A))) / current_sample_rate (apple_data A))) 1)"

definition in_group :: "apple_config \<Rightarrow> apple_env \<Rightarrow> bool" where
  "in_group A x = joined (with_coreaudio A) (on_macos_11 A) (p_workgroup x) (is_cancelled x) (join_answer x)"

definition apple_fresh :: "apple_config \<Rightarrow> apple_status option \<times> apple_status \<Rightarrow> apple_env \<Rightarrow> bool" where
  "apple_fresh A v x \<longleftrightarrow>
     (\<exists>sys st. macos_11 sys = on_macos_11 A \<and> snd v = (case fst v of Some z \<Rightarrow> z | None \<Rightarrow> st) \<and>
        apple_worker_ctor (with_coreaudio A) sys (device_name (apple_data A)) = (st, p_workgroup x)) \<and>
     (\<exists>y. init_apple_worker A x = Inr (fst v, y)) \<and>
     instance_counter x = 0 \<and> time_policy x = None \<and> joined_group x = None \<and> \<not> unset_leave x"

definition apple_ready :: "apple_config \<Rightarrow> apple_status option \<times> apple_status \<Rightarrow> apple_env \<Rightarrow> bool" where
  "apple_ready A v x \<longleftrightarrow>
     instance_counter x = 1 \<and> \<not> unset_leave x \<and> joined_group x = (if in_group A x then p_workgroup x else None) \<and>
     (snd v = ATS_OK \<longrightarrow> time_policy x = Some (buffer_policy A) \<and>
        (with_coreaudio A \<and> on_macos_11 A \<longrightarrow> in_group A x \<and>
          (\<exists>sys. macos_11 sys \<and> get_device_workgroup sys (device_name (apple_data A)) = (p_workgroup x, ATS_OK))))"

definition apple_over :: "apple_config \<Rightarrow> apple_status option \<times> apple_status \<Rightarrow> apple_env \<Rightarrow> bool" where
  "apple_over A v x \<longleftrightarrow>
     instance_counter x = 0 \<and> joined_group x = None \<and>
     (unset_leave x \<longleftrightarrow> with_coreaudio A \<and> on_macos_11 A \<and> p_workgroup x \<noteq> None \<and> \<not> in_group A x) \<and>
     (snd v = ATS_OK \<and> with_coreaudio A \<and> on_macos_11 A \<longrightarrow> in_group A x)"

lemma set_up_apple:
  "p_workgroup (set_up cfg x) = p_workgroup x" "set_policy (set_up cfg x) = set_policy x"
  "is_cancelled (set_up cfg x) = is_cancelled x" "join_answer (set_up cfg x) = join_answer x"
  "time_policy (set_up cfg x) = time_policy x" "joined_group (set_up cfg x) = joined_group x"
  "unset_leave (set_up cfg x) = unset_leave x"
  if "instance_counter x = 0"
  using that by (auto simp: set_up_def worker_prologue_def rt_flag_ctor_def set_flush_denormals_to_zero_def
      denormals_intrinsic_def Let_def)

text \<open>What \<open>_init_apple_thread\<close> stores and does depends on the answers only.\<close>

lemma init_worker_result:
  assumes "init_apple_worker A x = Inr (st, y)" and "time_policy x = None" and "joined_group x = None"
  shows "instance_counter y = instance_counter x" "p_workgroup y = p_workgroup x" "unset_leave y = unset_leave x"
    "in_group A y = in_group A x" "joined_group y = (if in_group A y then p_workgroup y else None)"
    and "st = None \<Longrightarrow> time_policy y = Some (buffer_policy A)"
    and "st = None \<Longrightarrow> with_coreaudio A \<Longrightarrow> on_macos_11 A \<Longrightarrow> in_group A y"
  using assms
  by (auto simp: init_apple_worker_def Let_def in_group_def joined_def buffer_policy_def worker_period_ms_def
      init_apple_thread_def join_workgroup_def split: sum.splits if_splits)

lemma init_worker_not_ok: "init_apple_worker A x = Inr (Some st, y) \<Longrightarrow> st \<noteq> ATS_OK"
  by (auto simp: init_apple_worker_def Let_def init_apple_thread_def split: sum.splits if_splits)

lemma init_worker_cong:
  assumes "init_apple_worker A x = Inr (st, y)" and "p_workgroup x' = p_workgroup x" and "set_policy x' = set_policy x"
    and "is_cancelled x' = is_cancelled x" and "join_answer x' = join_answer x"
  shows "\<exists>y'. init_apple_worker A x' = Inr (st, y')"
  using assms by (auto simp: init_apple_worker_def Let_def split: sum.splits if_splits)

lemma apple_started:
  assumes "apple_fresh A v x"
  shows "\<exists>y. apple_prologue A cfg x = Inr y \<and> apple_ready A v y"
proof -
  obtain sys st y0 where sys: "macos_11 sys = on_macos_11 A" "snd v = (case fst v of Some z \<Rightarrow> z | None \<Rightarrow> st)"
      "apple_worker_ctor (with_coreaudio A) sys (device_name (apple_data A)) = (st, p_workgroup x)"
    and i: "init_apple_worker A x = Inr (fst v, y0)" and c: "instance_counter x = 0"
    and n: "time_policy x = None" "joined_group x = None" "\<not> unset_leave x"
    using assms by (auto simp: apple_fresh_def)
  let ?x = "set_up cfg x"
  note u = set_up_apple [OF c, of cfg]
  obtain y where y: "init_apple_worker A ?x = Inr (fst v, y)"
    using init_worker_cong [OF i u(1-4)] by blast
  note r = init_worker_result [OF y]
  have "apple_prologue A cfg x = Inr y" using prologue_fresh [OF c, of cfg] y by (simp add: apple_prologue_def)
  moreover have "apple_ready A v y"
  proof (cases "snd v = ATS_OK")
    case True
    then have f: "fst v = None" "st = ATS_OK"
      using sys(2) init_worker_not_ok [of A x _ y0] i by (auto split: option.splits)
    then have "\<exists>sys. macos_11 sys \<and> get_device_workgroup sys (device_name (apple_data A)) = (p_workgroup x, ATS_OK)"
      if "with_coreaudio A" "on_macos_11 A"
      using sys(1,3) that by (auto simp: apple_worker_ctor_def split: prod.splits if_splits)
    then show ?thesis using r u n c f set_up_fields(1) [OF c, of cfg] by (simp add: apple_ready_def)
  next
    case False
    then show ?thesis using r u n c set_up_fields(1) [OF c, of cfg] by (simp add: apple_ready_def)
  qed
  ultimately show ?thesis by blast
qed

lemma apple_ended:
  assumes "apple_ready A v x"
  shows "\<exists>y. apple_epilogue A x = Inr y \<and> apple_over A v y"
proof -
  let ?l = "if with_coreaudio A
        then (case leave_workgroup_if_needed (on_macos_11 A) (p_workgroup x) of
                None \<Rightarrow> x
              | Some g \<Rightarrow> (if joined_group x = Some g then x\<lparr>joined_group := None\<rparr> else x\<lparr>unset_leave := True\<rparr>))
        else x"
  have "instance_counter ?l = 1" using assms by (auto simp: apple_ready_def split: option.split)
  then have "apple_epilogue A x = Inr (?l\<lparr>instance_counter := 0\<rparr>)"
    unfolding apple_epilogue_def by (rule epilogue_flag)
  moreover have "apple_over A v (?l\<lparr>instance_counter := 0\<rparr>)"
    using assms by (auto simp: apple_ready_def apple_over_def in_group_def joined_def leave_workgroup_if_needed_def
        split: if_splits)
  ultimately show ?thesis by blast
qed

interpretation apple_env: thread_locals "apple_create A csr" "apple_prologue A cfg" "apple_epilogue A"
    "apple_fresh A" "apple_ready A" "apple_over A" for A csr cfg
proof (unfold_locales, goal_cases)
  case (1 w x)
  have "instance_counter x = 0"
    using 1 by (cases x) (auto simp: apple_create_def thread_start_def thread_env.truncate_def)
  then show ?case using 1 by (fastforce simp: apple_create_def apple_fresh_def verdict_def resolved_def split: option.splits)
next
  case (2 v x)
  then show ?case by (rule apple_started)
next
  case (3 v x)
  then show ?case by (rule apple_ended)
qed

interpretation apple_pool_env: located_threads pool_step "\<lambda>s. s" "apple_create A csr" "apple_prologue A cfg" "apple_epilogue A"
    "apple_fresh A" "apple_ready A" "apple_over A" for A csr cfg
  by unfold_locales

subsection \<open>The threads of the callbacks\<close>

abbreviation apple_stage :: "apple_config \<Rightarrow> worker \<Rightarrow> apple_env \<Rightarrow> bool" where
  "apple_stage A w \<equiv> staged (apple_fresh A) (apple_ready A) (apple_over A) (wpc w) (verdict w)"

lemma apple_stageD:
  assumes "apple_stage A w x"
  shows "wpc w \<noteq> WInit \<Longrightarrow> wpc w \<noteq> WExited \<Longrightarrow> resolved w = ATS_OK \<Longrightarrow>
      is_realtime (instance_counter x) \<and> time_policy x = Some (buffer_policy A)
      \<and> (with_coreaudio A \<and> on_macos_11 A \<longrightarrow> joined_group x \<noteq> None
           \<and> (\<exists>sys. macos_11 sys \<and> get_device_workgroup sys (device_name (apple_data A)) = (joined_group x, ATS_OK)))"
    and "wpc w = WExited \<Longrightarrow> joined_group x = None
      \<and> (unset_leave x \<longleftrightarrow> with_coreaudio A \<and> on_macos_11 A \<and> p_workgroup x \<noteq> None \<and> \<not> in_group A x)
      \<and> (resolved w = ATS_OK \<longrightarrow> \<not> unset_leave x)"
  using assms by (auto simp: staged_ready apple_ready_def apple_over_def verdict_def is_realtime_def in_group_def joined_def)

text \<open>
  Callbacks on macOS, in every interleaving and for any answers of the system: a callback runs in a
  thread with the time constraints of the pool's audio buffer that, with CoreAudio on macOS 11, is a member
  of the workgroup that \<open>get_device_workgroup\<close> found for the pool's device; and so are, between two
  calls, the threads of all workers that have started. A thread that has ended is a member of no
  workgroup; and \<open>os_workgroup_leave\<close> has been called with a token that was never set exactly if
  there was a workgroup that the thread could not join, which is never the case for a worker
  that \<open>add_worker\<close> accepted.
\<close>

theorem callbacks_in_workgroup:
  assumes "reach (env_step pool_step (\<lambda>s. s) (apple_create A csr) (apple_prologue A cfg) (apple_epilogue A)) (new_pool cs, e0) (s, e)"
    and "i < num s"
  shows "(wpc (workers s ! i) = WCallback \<or> ctl s = Host \<and> wpc (workers s ! i) \<noteq> WInit \<longrightarrow>
        is_realtime (instance_counter (e i)) \<and> time_policy (e i) = Some (buffer_policy A)
        \<and> (with_coreaudio A \<and> on_macos_11 A \<longrightarrow> joined_group (e i) \<noteq> None
             \<and> (\<exists>sys. macos_11 sys \<and> get_device_workgroup sys (device_name (apple_data A)) = (joined_group (e i), ATS_OK))))
    \<and> (wpc (workers s ! i) = WExited \<longrightarrow> joined_group (e i) = None
        \<and> (unset_leave (e i) \<longleftrightarrow> with_coreaudio A \<and> on_macos_11 A \<and> p_workgroup (e i) \<noteq> None \<and> \<not> in_group A (e i))
        \<and> (resolved (workers s ! i) = ATS_OK \<longrightarrow> \<not> unset_leave (e i)))"
proof -
  have p: "pool_inv s" "trial_inv s" using trial_sys.inv_reach env_reach_base [OF assms(1)] by simp_all
  let ?w = "workers s ! i"
  have st: "staged (apple_fresh A) (apple_ready A) (apple_over A) (wpc ?w) (verdict ?w) (e i)"
    using apple_pool_env.env_inv_reach [OF assms(1)] assms(2) by (simp add: env_inv_def)
  have ok: "resolved ?w = ATS_OK \<and> wpc ?w \<noteq> WInit \<and> wpc ?w \<noteq> WExited"
    if "wpc ?w = WCallback \<or> ctl s = Host \<and> wpc ?w \<noteq> WInit"
    using that unreleased_no_call(2) [OF p assms(2)] host_worker_alive(1) [OF p(1) _ assms(2)] p(2) assms(2)
    by (auto simp: trial_inv_def)
  show ?thesis using apple_stageD [OF st] ok by blast
qed

text \<open>A pool for the device \<open>out\<close> of the example system, with buffers of 64 frames at 48 kHz.\<close>

definition mac :: apple_config where
  "mac = \<lparr>with_coreaudio = True, on_macos_11 = True,
     apple_data = \<lparr>device_name = ''out'', current_sample_rate = 48000, chunk_size = 64\<rparr>,
     rounding = id, timebase = (125, 3)\<rparr>"

definition mac_worker :: worker_config where
  "mac_worker = \<lparr>cfg_build = Posix_Build, cfg_sse = True, cfg_type = PTHREAD, disable_denormals = True,
     break_on_mode_sw = False, attach = 0, gettid_text = ''''\<rparr>"

definition mac_thread :: apple_env where
  "mac_thread = \<lparr>instance_counter = 0, mxcsr = 0x1F80, warns_mode_switch = False, evl_element = None,
     p_workgroup = Some 2, set_policy = (\<lambda>_. KERN_SUCCESS), is_cancelled = False, join_answer = 0,
     time_policy = None, joined_group = None, unset_leave = False\<rparr>"

lemma mac_create: "apple_create mac 0x1F80 (new_worker good_args cpu ep) mac_thread"
proof -
  have "apple_worker_ctor True example_system ''out'' = (ATS_OK, Some 2)" "macos_11 example_system" by code_simp+
  moreover have "\<exists>y. init_apple_worker mac mac_thread = Inr (None, y)"
    by (simp add: init_apple_worker_def mac_def mac_thread_def worker_period_ms_def set_current_thread_to_realtime_def
        join_workgroup_def init_apple_thread_def joined_def)
  ultimately show ?thesis
    by (auto simp: apple_create_def new_worker_def good_args_def mac_def mac_thread_def thread_start_def
        thread_env.truncate_def)
qed

theorem callbacks_in_workgroup_witness:
  "\<exists>e. reach (env_step pool_step (\<lambda>s. s) (apple_create mac 0x1F80) (apple_prologue mac mac_worker) (apple_epilogue mac))
         (new_pool two_cores, \<lambda>_. mac_thread) (midway 14, e)
     \<and> time_policy (e 0) = Some (buffer_policy mac) \<and> joined_group (e 0) \<noteq> None"
proof -
  obtain ls where ls: "run pool_step (new_pool two_cores) ls (midway 14)" "calls_ok (\<lambda>a. a = good_args) ls"
    by (rule midway_history [of "\<lambda>a. a = good_args"]) simp
  have "\<exists>e. run (env_step pool_step (\<lambda>s. s) (apple_create mac 0x1F80) (apple_prologue mac mac_worker) (apple_epilogue mac))
      (new_pool two_cores, \<lambda>_. mac_thread) ls (midway 14, e)"
    by (rule apple_pool_env.env_run_possible [OF ls(1) _ ls(2)]) (use mac_create in \<open>auto simp: env_inv_def new_pool_def\<close>)
  then obtain e where e: "reach (env_step pool_step (\<lambda>s. s) (apple_create mac 0x1F80) (apple_prologue mac mac_worker) (apple_epilogue mac))
      (new_pool two_cores, \<lambda>_. mac_thread) (midway 14, e)"
    using reach_run reach.reach_init by metis
  have w: "wpc (workers (midway 14) ! 0) = WCallback" "0 < num (midway 14)" by code_simp+
  have "with_coreaudio mac" "on_macos_11 mac" by (simp_all add: mac_def)
  then show ?thesis using callbacks_in_workgroup [OF e w(2)] e w(1) by (intro exI [of _ e]) simp
qed

end
