(* ===== verification/Lifetime_Env.thy ===== *)
theory Lifetime_Env
  imports Lifetime_Properties Apple_Env
begin

text \<open>
  The state of the threads of a pool on the threads of a library: what \<open>Worker_Env\<close> and
  \<open>Apple_Env\<close> show of the callbacks of a pool, for \<open>life_step\<close>, the pool from its constructor to
  the end of its destructor with the barrier's code, the threads that \<open>add_worker\<close> makes and the joins.
\<close>

subsection \<open>The workers in a step of the code\<close>

lemma running_moves:
  assumes "running_step H wake (s, B, w) (LWorker i) (t, B', w')"
  shows "worker_moves s i t"
  using assms
proof cases
  case (worker_in p p')
  then show ?thesis by (auto simp: worker_moves_def verdict_def resolved_def split: option.split)
next
  case step_outside
  from step_outside(4) show ?thesis using pool_workers.worker_law by blast
qed

lemma running_changes:
  assumes "running_step H wake (s, B, w) l (t, B', w')" and "\<not> (\<exists>i. l = LWorker i)"
  shows "l = LCaller \<and> worker_added s t \<or> workers_kept s t"
  using assms(1)
proof cases
  case step_outside
  then show ?thesis using pool_changes assms(2) by blast
qed (use assms(2) workers_keptI in auto)

lemma running_pending:
  assumes "running_step H wake (s, B, w) l (t, B', w')" and "pending (ctl t) = Some a"
  shows "pending (ctl s) = Some a \<or> l = LCall (AddWorker a)"
  using assms(1)
proof cases
  case (caller_in pc k pc')
  then show ?thesis using assms(2) by (cases k) auto
next
  case step_outside
  then show ?thesis using pending_step assms(2) by blast
qed (use assms(2) in auto)

lemma life_changes:
  assumes "life_step H wake finish fixed_core c l d" and "\<not> (\<exists>i. l = LWorker i)"
  shows "l = LCaller \<and> worker_added (fst c) (fst d) \<or> workers_kept (fst c) (fst d)"
  using assms(1)
proof cases
  case (life_other s B w t B' w' hs h)
  then show ?thesis using running_changes [OF life_other(4) assms(2)] by simp
next
  case (life_run s a k w res h' w' B hs h)
  have "new_worker (answered res a) x y = new_worker a x y" for x y by (simp add: new_worker_def answered_def)
  then have "worker_added s (add_exec (answered res a) k s) \<or> workers_kept s (add_exec (answered res a) k s)"
    using life_run(4) by (auto simp: add_exec_def Let_def worker_added_def workers_kept_def last_worker_def nth_append)
  then show ?thesis using life_run(1-3) by auto
next
  case life_pop
  then show ?thesis by (simp add: workers_kept_def nth_butlast)
qed (use assms(2) workers_keptI in auto)

lemma life_pending:
  assumes "life_step H wake finish fixed_core c l d" and "pending (ctl (fst d)) = Some a"
  shows "pending (ctl (fst c)) = Some a \<or> l = LCall (AddWorker a)"
  using assms(1)
proof cases
  case (life_other s B w t B' w' hs h)
  then show ?thesis using running_pending [OF life_other(4)] assms(2) by simp
next
  case (life_exit s i B w t B' w' hs h)
  then show ?thesis using running_pending [OF life_exit(5)] assms(2) by auto
qed (use assms(2) in \<open>auto simp: add_exec_def Let_def split: if_splits\<close>)

interpretation life_workers: worker_system "life_step H wake finish fixed_core" fst for H wake finish fixed_core
proof unfold_locales
  show "worker_moves (fst c) i (fst d)" if "life_step H wake finish fixed_core c (LWorker i) d" for c i d
    using that by cases (use running_moves in auto)
qed (use life_changes life_pending in blast)+

interpretation life_worker_env: located_threads "life_step H wake finish fixed_core" fst "starts_as csr" "worker_prologue cfg"
    worker_epilogue "env_is (thread_start csr)" "env_is (set_up cfg (thread_start csr))"
    "env_is ((set_up cfg (thread_start csr))\<lparr>instance_counter := 0\<rparr>)" for H wake finish fixed_core cfg csr
  by unfold_locales

interpretation life_apple_env: located_threads "life_step H wake finish fixed_core" fst "apple_create A csr" "apple_prologue A cfg"
    "apple_epilogue A" "apple_fresh A" "apple_ready A" "apple_over A" for H wake finish fixed_core A csr cfg
  by unfold_locales

subsection \<open>Workers on trial\<close>

lemma trial_answer [simp]: "trial_inv (with_answer a s) = trial_inv s" "pool_inv (with_answer a s) = pool_inv s"
proof -
  have "unreleased (reanswer a x) = unreleased x" for x by (cases x) auto
  then show "trial_inv (with_answer a s) = trial_inv s" by (simp add: trial_inv_def last_worker_def)
  show "pool_inv (with_answer a s) = pool_inv s"
    by (simp add: pool_inv_def size_inv_def full_inv_def stop_inv_def hist_inv_def status_inv_def)
qed

definition life_trial :: "('w \<Rightarrow> sync) \<Rightarrow> 'w life \<Rightarrow> bool" where
  "life_trial view c \<longleftrightarrow> ctl (fst c) = Gone \<or> ctl (fst c) = Undefined InvalidHandle
     \<or> pool_inv (life_pool view c) \<and> trial_inv (life_pool view c)"

context thread_contract begin

lemma life_trial_step:
  assumes st: "life_step H wake finish fixed_core c l d" and inv: "life_inv view tstate w0 c" and tr: "life_trial view c"
  shows "life_trial view d"
proof -
  have t: "pool_inv (life_pool view c)" "trial_inv (life_pool view c)"
    using tr life_dead [OF inv] st unfolding life_trial_def by blast+
  consider "life_pool view d = life_pool view c" | "ctl (fst d) = Gone \<or> ctl (fst d) = Undefined InvalidHandle"
    | a where "pool_step (with_answer a (life_pool view c)) l (life_pool view d)"
    using life_simulates [OF st inv] by blast
  then show ?thesis
    by cases (use t trial_step pool_step_inv in \<open>auto simp: life_trial_def\<close>)
qed

lemma life_trial_reach:
  assumes "barrier_ctor H w0 = (Inr B0, w1)" and "unread_results H w0 = (0, 0)"
    and "reach (life_step H wake finish fixed_core) (new_pool cs, B0, w1, [], 0) c"
  shows "life_trial view c"
  using assms(3)
proof (induction rule: reach.induct)
  case reach_init
  have "seen view (new_pool cs, B0, w1) = new_pool cs"
    by (rule seen_new) (rule fresh_barrier_ok(2) [OF barrier_ctor_fresh_objects [OF assms(1,2)]])
  then show ?case using trial_sys.inv_start by (simp add: life_trial_def)
next
  case (reach_step c l d)
  show ?case by (rule life_trial_step [OF reach_step.hyps(2) life_reach_inv [OF assms(1,2) reach_step.hyps(1)] reach_step.IH])
qed

lemma life_thread_of:
  assumes "life_inv view tstate w0 (s, B, w, hs, h)" and "i < num s"
  shows "tstate w (hs ! i) = Running \<longleftrightarrow> wpc (workers s ! i) \<noteq> WExited"
proof -
  have h: "handles_ok (tstate w0) (tstate w) s hs" using assms(1) by (simp add: life_inv_def)
  show ?thesis using handles_okD(6,7) [OF h assms(2)] by (auto split: if_splits)
qed

end

subsection \<open>An example\<close>

text \<open>A pool with one worker on threads of the example system, in which the worker calls back.\<close>

definition calling_back :: "sys life" where
  "calling_back = snd (life_call PTHREAD 13 WakeupAndWait one_worker)"

lemma life_call_history:
  assumes "run (sys_life_step type) c0 ls c" and "calls_ok P ls" and "ctl (fst c) = Host" and "calls_ok P [LCall k]"
  obtains ms where "run (sys_life_step type) c0 ms (snd (life_call type n k c))" and "calls_ok P ms"
proof -
  obtain l2 where l2: "run (sys_life_step type) (host_call k (fst c), snd c) l2 (snd (life_call type n k c))"
      "\<forall>l \<in> set l2. \<not> is_call l" by (rule life_call_run)
  have "sys_life_step type c (LCall k) (host_call k (fst c), snd c)"
    using host_call_life [of "fst c"] assms(3) by (cases c) simp
  from run_append [OF assms(1) run.run_cons [OF this l2(1)]]
  have r: "run (sys_life_step type) c0 (ls @ LCall k # l2) (snd (life_call type n k c))" .
  have "calls_ok P (l2 @ [])" using calls_ok_work [OF l2(2), of P "[]"] by simp
  then have k: "calls_ok P (LCall k # l2)" using assms(4) by (cases k) simp_all
  have "calls_ok P (ls @ ms)" if "calls_ok P ms" for ms
    using assms(2) that by (induction P ls rule: calls_ok.induct) auto
  from that [OF r this [OF k]] show thesis .
qed

lemma calling_back_history:
  assumes "P good_args"
  obtains ls where "run (sys_life_step PTHREAD) (life_start PTHREAD) ls calling_back" and "calls_ok P ls"
proof -
  have h: "ctl (fst (life_start PTHREAD)) = Host" "ctl (fst one_worker) = Host" by code_simp+
  obtain l1 where l1: "run (sys_life_step PTHREAD) (life_start PTHREAD) l1 one_worker" "calls_ok P l1"
    unfolding one_worker_def
    by (rule life_call_history [OF run.run_nil _ h(1), where type = PTHREAD and P = P and k = "AddWorker good_args" and n = 30]) (use assms in auto)
  show thesis
    by (rule life_call_history [OF l1 h(2), where k = WakeupAndWait and n = 13]) (use that in \<open>auto simp: calling_back_def\<close>)
qed

lemma calling_back_state:
  obtains s B w hs h where "calling_back = (s, B, w, hs, h)" and "wpc (workers s ! 0) = WCallback" and "num s = 1"
    and "ctl s \<noteq> Undefined InvalidHandle"
proof -
  obtain s B w hs h where c: "calling_back = (s, B, w, hs, h)" by (rule prod_cases5)
  have "wpc (workers (fst calling_back) ! 0) = WCallback" "num (fst calling_back) = 1"
    "ctl (fst calling_back) \<noteq> Undefined InvalidHandle" by code_simp+
  then show thesis unfolding c fst_conv using that [OF c] by blast
qed

subsection \<open>Properties\<close>

text \<open>
  C16. The threads in which the workers of a pool call back, on threads of any library that meets the
  contract, in every interleaving and at any time of the pool's life: a worker's thread counts as realtime
  (\<open>is_current_thread_realtime\<close>) exactly from the start of its loop to its end, and then the thread is running; in a
  callback, on a processor with SSE, denormal operands and results are zero if the pool was created with that option, and otherwise
  the control register is as the thread found it; the thread warns of mode switches exactly if the
  pool was asked to and the thread library of the build can do it. The setting up holds up nothing:
  every step of the pool on its threads is possible.
\<close>

theorem callbacks_on_threads:
  assumes "thread_contract H view wake tstate finish"
    and "barrier_ctor H w0 = (Inr B0, w1)" and "unread_results H w0 = (0, 0)"
    and "reach (env_step (life_step H wake finish fixed_core) fst (starts_as csr) (worker_prologue cfg) worker_epilogue)
      ((new_pool cs, B0, w1, [], 0), e0) ((s, B, w, hs, h), e)" and "i < num s"
  shows "(is_realtime (instance_counter (e i)) \<longleftrightarrow> tstate w (hs ! i) = Running \<and> wpc (workers s ! i) \<noteq> WInit)
    \<and> (wpc (workers s ! i) = WCallback \<longrightarrow> tstate w (hs ! i) = Running \<and>
        (if disable_denormals cfg \<and> cfg_sse cfg then denormals_are_zero (mxcsr (e i)) \<and> flush_to_zero (mxcsr (e i))
         else mxcsr (e i) = csr)
        \<and> (warns_mode_switch (e i) \<longleftrightarrow> break_on_mode_sw cfg \<and> (cfg_type cfg = COBALT \<and> cfg_build cfg = Xenomai_Build
             \<or> cfg_type cfg = EVL \<and> cfg_build cfg = Evl_Build \<and> attach cfg \<ge> 0)))
    \<and> (\<forall>l d. life_step H wake finish fixed_core (s, B, w, hs, h) l d \<longrightarrow>
        (\<exists>e'. env_step (life_step H wake finish fixed_core) fst (starts_as csr) (worker_prologue cfg) worker_epilogue
          ((s, B, w, hs, h), e) l (d, e')))"
proof -
  note inv = life_worker_env.env_inv_reach [OF assms(4), simplified]
  have st: "worker_stage cfg csr (workers s ! i) (e i)" using inv assms(5) by (simp add: env_inv_def)
  note d = worker_stageD [OF st]
  have li: "life_inv view tstate w0 (s, B, w, hs, h)"
    using thread_contract.life_reach_inv [OF assms(1-3)] env_reach_base [OF assms(4)] by simp
  have "\<exists>e'. env_step (life_step H wake finish fixed_core) fst (starts_as csr) (worker_prologue cfg) worker_epilogue
      ((s, B, w, hs, h), e) l (c, e')" if "life_step H wake finish fixed_core (s, B, w, hs, h) l c" for l c
    using life_worker_env.env_possible [OF inv that] by (simp add: starts_as_def)
  moreover note run = thread_contract.life_thread_of [OF assms(1) li assms(5)]
  have "is_realtime (instance_counter (e i)) \<longleftrightarrow> tstate w (hs ! i) = Running \<and> wpc (workers s ! i) \<noteq> WInit"
    using d(1) run by blast
  moreover have "tstate w (hs ! i) = Running" if "wpc (workers s ! i) = WCallback" using run that by simp
  ultimately show ?thesis using d(2) by blast
qed

theorem callbacks_on_threads_witness:
  "\<exists>s B w hs h e. calling_back = (s, B, w, hs, h)
     \<and> reach (env_step (sys_life_step PTHREAD) fst (starts_as 0x1F80) (worker_prologue evl_config) worker_epilogue)
         (life_start PTHREAD, \<lambda>_. thread_start 0) (calling_back, e)
     \<and> is_realtime (instance_counter (e 0)) \<and> thread_at w (hs ! 0) = Running \<and> flush_to_zero (mxcsr (e 0))"
proof -
  let ?env = "env_step (sys_life_step PTHREAD) fst (starts_as 0x1F80) (worker_prologue evl_config) worker_epilogue"
  obtain ls where ls: "run (sys_life_step PTHREAD) (life_start PTHREAD) ls calling_back" "calls_ok (\<lambda>_. True) ls"
    by (rule calling_back_history [of "\<lambda>_. True"]) simp
  have "\<exists>e. run ?env (life_start PTHREAD, \<lambda>_. thread_start 0) ls (calling_back, e)"
    by (rule life_worker_env.env_run_possible [OF ls(1) _ ls(2)]) (simp_all add: env_inv_def life_start_def starts_as_def)
  then obtain e where e: "reach ?env (life_start PTHREAD, \<lambda>_. thread_start 0) (calling_back, e)"
    using reach_run reach.reach_init by metis
  obtain s B w hs h where c: "calling_back = (s, B, w, hs, h)" "wpc (workers s ! 0) = WCallback" "num s = 1"
    by (rule calling_back_state)
  have f: "disable_denormals evl_config" "cfg_sse evl_config" by (simp_all add: evl_config_def)
  have "0 < num s" "wpc (workers s ! 0) \<noteq> WInit" using c by simp_all
  then show ?thesis
    using f c callbacks_on_threads [OF sys_helper_threads.thread_contract_axioms sys_barrier_ctor sys_unread
        e [unfolded life_start_def c(1)]] e
    by (intro exI [of _ s] exI [of _ B] exI [of _ w] exI [of _ hs] exI [of _ h] exI [of _ e]) auto
qed

text \<open>
  C17. Callbacks on macOS, on threads of any library that meets the contract, in every
  interleaving and for any answers of the system: a callback runs in a thread with the time constraints of the pool's audio
  buffer that, with CoreAudio on macOS 11, is a member of the workgroup that \<open>get_device_workgroup\<close> found
  for the pool's device; and so are, between two calls, the threads of all workers that have started. A thread that
  has ended, in particular one that has been joined, is a member of no workgroup; and \<open>os_workgroup_leave\<close> has been called with a
  token that was never set exactly if there was a workgroup that the thread could not join, which
  is never the case for a worker that \<open>add_worker\<close> accepted.
\<close>

theorem workgroup_on_threads:
  assumes "thread_contract H view wake tstate finish"
    and "barrier_ctor H w0 = (Inr B0, w1)" and "unread_results H w0 = (0, 0)"
    and "reach (env_step (life_step H wake finish fixed_core) fst (apple_create A csr) (apple_prologue A cfg) (apple_epilogue A))
      ((new_pool cs, B0, w1, [], 0), e0) ((s, B, w, hs, h), e)" and "i < num s" and "ctl s \<noteq> Undefined InvalidHandle"
  shows "(wpc (workers s ! i) = WCallback \<or> ctl s = Host \<and> wpc (workers s ! i) \<noteq> WInit \<longrightarrow>
        tstate w (hs ! i) = Running \<and> is_realtime (instance_counter (e i)) \<and> time_policy (e i) = Some (buffer_policy A)
        \<and> (with_coreaudio A \<and> on_macos_11 A \<longrightarrow> joined_group (e i) \<noteq> None
             \<and> (\<exists>sys. macos_11 sys \<and> get_device_workgroup sys (device_name (apple_data A)) = (joined_group (e i), ATS_OK))))
    \<and> (tstate w (hs ! i) \<noteq> Running \<longrightarrow> joined_group (e i) = None
        \<and> (unset_leave (e i) \<longleftrightarrow> with_coreaudio A \<and> on_macos_11 A \<and> p_workgroup (e i) \<noteq> None \<and> \<not> in_group A (e i))
        \<and> (resolved (workers s ! i) = ATS_OK \<longrightarrow> \<not> unset_leave (e i)))"
proof -
  let ?w = "workers s ! i"
  have r: "reach (life_step H wake finish fixed_core) (new_pool cs, B0, w1, [], 0) (s, B, w, hs, h)"
    using env_reach_base [OF assms(4)] by simp
  note li = thread_contract.life_reach_inv [OF assms(1-3) r]
  note run = thread_contract.life_thread_of [OF assms(1) li assms(5)]
  have st: "apple_stage A ?w (e i)"
    using life_apple_env.env_inv_reach [OF assms(4)] assms(5) by (simp add: env_inv_def)
  have ok: "wpc ?w \<noteq> WInit \<and> wpc ?w \<noteq> WExited \<and> resolved ?w = ATS_OK"
    if c: "wpc ?w = WCallback \<or> ctl s = Host \<and> wpc ?w \<noteq> WInit"
  proof -
    have "ctl s \<noteq> Gone"
      using c li handles_okD(6) [of "tstate w0" "tstate w" s hs i] assms(5) by (auto simp: life_inv_def)
    then have p: "pool_inv (seen view (s, B, w))" "trial_inv (seen view (s, B, w))"
      using thread_contract.life_trial_reach [OF assms(1-3) r] assms(6) by (auto simp: life_trial_def)
    let ?s = "seen view (s, B, w)"
    have i: "i < num ?s" using assms(5) by simp
    show ?thesis
      using c unreleased_no_call(2) [OF p i] host_worker_alive(1) [OF p(1) _ i] p(2) i by (auto simp: trial_inv_def)
  qed
  show ?thesis using apple_stageD [OF st] ok run by blast
qed

theorem workgroup_on_threads_witness:
  "\<exists>s B w hs h e. calling_back = (s, B, w, hs, h)
     \<and> reach (env_step (sys_life_step PTHREAD) fst (apple_create mac 0x1F80) (apple_prologue mac mac_worker) (apple_epilogue mac))
         (life_start PTHREAD, \<lambda>_. mac_thread) (calling_back, e)
     \<and> time_policy (e 0) = Some (buffer_policy mac) \<and> joined_group (e 0) \<noteq> None \<and> thread_at w (hs ! 0) = Running"
proof -
  let ?env = "env_step (sys_life_step PTHREAD) fst (apple_create mac 0x1F80) (apple_prologue mac mac_worker) (apple_epilogue mac)"
  obtain ls where ls: "run (sys_life_step PTHREAD) (life_start PTHREAD) ls calling_back" "calls_ok (\<lambda>a. a = good_args) ls"
    by (rule calling_back_history [of "\<lambda>a. a = good_args"]) simp
  have "\<exists>e. run ?env (life_start PTHREAD, \<lambda>_. mac_thread) ls (calling_back, e)"
    by (rule life_apple_env.env_run_possible [OF ls(1) _ ls(2)]) (use mac_create in \<open>auto simp: env_inv_def life_start_def new_pool_def\<close>)
  then obtain e where e: "reach ?env (life_start PTHREAD, \<lambda>_. mac_thread) (calling_back, e)"
    using reach_run reach.reach_init by metis
  obtain s B w hs h where c: "calling_back = (s, B, w, hs, h)" "wpc (workers s ! 0) = WCallback" "num s = 1"
    "ctl s \<noteq> Undefined InvalidHandle" by (rule calling_back_state)
  have "with_coreaudio mac" "on_macos_11 mac" by (simp_all add: mac_def)
  moreover have "0 < num s" using c(3) by simp
  ultimately show ?thesis
    using workgroup_on_threads [OF sys_helper_threads.thread_contract_axioms sys_barrier_ctor sys_unread
        e [unfolded life_start_def c(1)] _ c(4)] e c
    by (intro exI [of _ s] exI [of _ B] exI [of _ w] exI [of _ hs] exI [of _ h] exI [of _ e]) auto
qed

end
