(* ===== verification/Spec2Isabelle.thy ===== *)
theory Spec2Isabelle
  imports Object_Lifetime Cond_Concurrent Cond_Factory Lifetime_Env
begin

text \<open>
  Verification library for twine, Elk Audio's C++ library of realtime threading
  primitives (\<open>src/include/twine/twine.h\<close>): a pool of worker threads that an audio host
  wakes once per period, condition variables from a realtime thread to a normal one, and the
  glue that selects the thread library (POSIX, Xenomai Cobalt, EVL, macOS).

  \<^bold>\<open>Parts of the program and theories.\<close> Each theory has the definitions of one part, in the
  order of the code, then its invariant or specification, then its properties.

  \<^item> \<open>Twine_Prelude\<close>: lists and counting; labelled transition systems (\<open>reach\<close>, \<open>run\<close>) and the
    three locales about them: \<open>invariant_system\<close>, \<open>terminating_system\<close>, \<open>simulation\<close>.
  \<^item> \<open>Twine_Types\<close>: the enumerations of \<open>twine.h\<close>, \<open>CpuInfo\<close>, \<open>errno_to_worker_status\<close>,
    \<open>to_error_string\<close>, and C++ undefined behaviour as a value.
  \<^item> \<open>Isolated_Cpus\<close>: \<open>build_core_list\<close>, \<open>read_isolated_cores\<close>, \<open>get_isolated_cpus\<close> of
    \<open>src/src/worker_pool_implementation.h\<close> and the core list of a new pool, with \<open>std::stoi\<close>.
  \<^item> \<open>Barrier\<close>: \<open>BarrierWithTrigger\<close>. Every method is a program of single steps (one lock, wait,
    signal or shared access each): \<open>wait_step\<close> for \<open>wait()\<close>, run by the workers, \<open>call_step\<close>
    for \<open>wait_for_all\<close>, \<open>set_no_threads\<close>, \<open>release_all\<close>, \<open>release_and_wait\<close>, run by the owner
    of the pool. Its invariant \<open>barrier_inv\<close> (mutual exclusion, the two generations of
    threads on the two semaphores, no lost wake-up) is kept by every step.
  \<^item> \<open>Worker_Pool\<close>: \<open>WorkerThread\<close> (\<open>worker_step\<close>, \<open>run_worker\<close>) and \<open>WorkerPoolImpl\<close>
    (\<open>host_call\<close>, \<open>caller_step\<close>): the state \<open>pool\<close> and the relation \<open>pool_step\<close>, in which the
    owner, any worker, or a spurious wake-up moves. A call of a method is the label \<open>LCall\<close>; the
    place of the owner inside a method is \<open>ctl\<close>. \<open>host_step\<close> is the documented use: workers are
    woken only when the host knows that they are idle (field \<open>quiet\<close>).
  \<^item> \<open>Pool_Invariant\<close>, \<open>Pool_Liveness\<close>, \<open>Pool_Contract\<close>, \<open>Pool_Runs\<close>, \<open>Pool_Spec\<close>: the invariant
    \<open>pool_inv\<close>; the work budget and deadlock freedom; the documented use and the sequential
    specification \<open>add_worker_spec\<close>; whole calls and an executable scheduler for examples; the
    abstract barrier and the simulation.
  \<^item> \<open>Pool_Properties\<close>, \<open>Pool_Protocol\<close>, \<open>Pool_Cores\<close>: the properties of the
    pool; \<open>Pool_Host\<close>: the pool as its host sees it between calls and over many periods; \<open>Pool_Hazards\<close>: the
    error paths of \<open>add_worker\<close> and the use outside the contract.
  \<^item> \<open>Thread_Helpers\<close>: the interface \<open>BaseThreadHelper\<close> of \<open>src/src/thread_helpers.h\<close> as the record
    \<open>thread_helper\<close>, and its three classes (\<open>src/src/thread_helpers_posix.cpp\<close>, \<open>_cobalt.cpp\<close>,
    \<open>_evl.cpp\<close>) over the functions of the thread libraries, which are parameters.
  \<^item> \<open>Helper_Contract\<close>: what the users of a thread helper rely on (locales \<open>counting_semaphores\<close>,
    \<open>helper_contract\<close>, and \<open>thread_contract\<close> with the laws of threads), and the constructor and the
    destructor of \<open>BarrierWithTrigger\<close>.
  \<^item> \<open>Helper_Objects\<close>, \<open>Object_Lifetime\<close>: the C++ objects behind the pointers \<open>BaseMutex*\<close>,
    \<open>BaseCondVar*\<close>, \<open>BaseSemaphore*\<close> and \<open>BaseThreadHelper*\<close> on a heap, the casts of the helpers, and
    the constructors and destructors with \<open>new\<close> and \<open>delete\<close>; a wrong cast, a use after \<open>delete\<close> or
    before the creation is recorded as undefined behaviour.
  \<^item> \<open>Posix_Semaphores\<close>, \<open>System_World\<close>: a world in which the libraries behave as documented, and
    the proof that the three classes meet the contract there.
  \<^item> \<open>Helper_Barrier\<close>, \<open>Running_Pool\<close>: the methods of the barrier as they are written, with calls
    of a helper (\<open>wait_code\<close>, \<open>call_code\<close>), and a pool that runs on them (\<open>running_step\<close>, locale
    \<open>running_pool\<close>); \<open>Running_Host\<close>: whole calls on the code; \<open>Helper_Properties\<close>: the properties of the helpers, of the
    barrier's objects and of a worker's thread.
  \<^item> \<open>Pool_Lifetime\<close>, \<open>Lifetime_Progress\<close>, \<open>Lifetime_Host\<close>, \<open>Lifetime_Properties\<close>: a pool from its constructor to the end
    of its destructor with the threads that \<open>add_worker\<close> makes and the destructors join
    (\<open>life_step\<close>): the running pool of \<open>Running_Pool\<close>, in which \<open>thread_run\<close> and \<open>thread_dtor\<close> act on
    the same world as the barrier's code; its invariant \<open>life_inv\<close>, its progress, its documented
    use (\<open>life_host_step\<close>), its properties.
  \<^item> \<open>Worker_Trial\<close>: the new worker between its start and the look at its status.
  \<^item> \<open>Thread_Locals\<close>: a pool whose threads have a state of their own, set up before the loop and
    taken down after it (\<open>env_step\<close>; locales \<open>worker_system\<close> for the steps of the pool, \<open>thread_locals\<close> for the state,
    \<open>located_threads\<close> for both), for \<open>Worker_Env\<close> and \<open>Apple_Env\<close>.
  \<^item> \<open>Worker_Env\<close>: what \<open>_internal_worker_function\<close> sets up in its thread before the loop
    (\<open>worker_prologue\<close>), \<open>set_flush_denormals_to_zero\<close>, and the state in which callbacks run;
  \<^item> \<open>Apple_Env\<close>: on macOS also \<open>_init_apple_thread\<close> with the time constraints and the workgroup of
    the thread (\<open>apple_prologue\<close>), which the end of the thread function leaves (\<open>apple_epilogue\<close>).
  \<^item> \<open>Lifetime_Env\<close>: both states on the threads of a library, for \<open>life_step\<close>.
  \<^item> \<open>Rt_State\<close>: \<open>XenomaiRtFlag\<close>, \<open>ThreadRtFlag\<close>, \<open>current_rt_time\<close>, the selection of classes by
    the build, \<open>rt_printf\<close>, version strings (\<open>src/src/twine.cpp\<close>, \<open>src/src/twine_internal.h\<close>).
  \<^item> \<open>Cond_Ids\<close>, \<open>Cond_Vars\<close>, \<open>Cond_Realtime\<close>: \<open>src/src/condition_variable_implementation.h\<close>, the
    ids of the realtime classes (locale \<open>id_allocator\<close>), the two classes without a realtime kernel (locale
    \<open>rt_condition_variable\<close>, the contract of \<open>twine.h\<close>), and the Xenomai and EVL classes over
    the functions of their kernels, which are a parameter; \<open>Cond_Concurrent\<close>: the \<open>wait\<close> of the two
    realtime classes as single calls of the kernel (\<open>xenomai_wait_step\<close>, \<open>evl_wait_step\<close>), between which
    notifications arrive (\<open>cv_step\<close>, locale \<open>cv_counting\<close>).
  \<^item> \<open>Apple_Threading\<close>: \<open>src/src/apple_threading.cpp\<close> and the macOS parts of the worker thread.
  \<^item> \<open>Twine_Api\<close>: the two factories; \<open>Cond_Factory\<close>: histories of created and destroyed condition variables;
    this theory: properties that span the components.

  \<^bold>\<open>How the parts interact.\<close> \<open>create_worker_pool\<close> selects the thread type (\<open>Rt_State\<close>) and with it the
  thread helper, runs the constructor of the barrier on it (\<open>Helper_Contract\<close>), makes the core
  list (\<open>Isolated_Cpus\<close>) and starts with \<open>new_pool\<close>. The pool's owner calls the barrier; the
  workers wait at it. The fields \<open>owner\<close>, \<open>cv_blocked\<close> and \<open>sems\<close> of the model's \<open>barrier\<close> are the
  states of the mutex, the condition variable and the two semaphores that the constructor
  made: \<open>barrier_of\<close> reads them off the world through the view of a helper that meets
  \<open>helper_contract\<close>, and every single step of the code is a step of the model
  (\<open>code_refines_pool\<close>), so that the properties of the pool hold for the code over any such
  library. In \<open>life_step\<close> the results of \<open>run\<close> and the joins come from the library as well;
  seen through the same view its steps are steps of the pool, in which a join is possible only
  when the worker has left its loop. The functions of a helper on pointers (\<open>object_helper\<close>) meet the
  contract of helpers as well, so that \<open>life_step\<close> over them is the pool with its C++ objects. Elsewhere \<open>add_worker\<close> gets the answers of the system for one worker as
  \<open>add_args\<close>; \<open>thread_run\<close> computes that of the thread library, on macOS \<open>Apple_Threading\<close> the others.

  \<^bold>\<open>What the lemmas show.\<close> One call of \<open>wakeup_and_wait\<close> runs every callback exactly once and
  returns when all workers are parked again, and a host can go on for any number of periods; the
  documented use never aborts, and on threads only by the join of a handle that a failed creation has left; a worker that failed to initialise never calls back; no schedule makes a method hang or changes its result; \<open>add_worker\<close>
  equals a sequential function; the destructor joins every thread; the barrier's code refines
  the model, and the model an atomic barrier; \<open>core_info\<close> and the distribution of workers; what the
  parser of isolated cpus accepts; the state of the thread around a callback; the backends selected; the contracts of the condition
  variables, in every interleaving of a waiter with its notifiers, and where classes do not meet them; that
  no pointer of a pool is used wrongly; the two defects of the error paths of \<open>add_worker\<close>; the objects, descriptors and ids that
  constructors and destructors leave behind.

  \<^bold>\<open>Bounds.\<close> The owner's and the workers' steps after a call are at most 29 per worker and 60
  more (\<open>every_method_returns\<close>; a spurious wake-up adds at most five), on threads of a library 29 per
  worker, 60 more and four per spurious wake-up (\<open>methods_return_on_threads\<close>), and while the host does
  nothing the workers make at most 13 steps each (\<open>workers_become_idle\<close>). Example runs use an
  executable scheduler with 10 to 120 steps, which is enough for two workers by these bounds or
  by evaluation; they are only used in witnesses. The
  barrier's counters are unbounded integers; \<open>barrier_counters_bounded\<close> shows that they stay
  within the number of workers, so that \<open>int\<close> does not overflow.

  \<^bold>\<open>Parameters.\<close> The thread libraries (\<open>pthread_api\<close>, \<open>named_sem_api\<close>, \<open>cobalt_sem_api\<close>,
  \<open>evl_api\<close>), the kernels behind the realtime condition variables (\<open>rt_kernel\<close>), CoreAudio and the
  answers of the operating system. What is needed of them is stated where they are used: \<open>helper_contract\<close>,
  \<open>thread_contract\<close>, \<open>tracks\<close>; \<open>xenomai_queues\<close>: the socket keeps at most the 64 bytes asked for, drops what is
  sent beyond them, and one read takes all that it holds; \<open>evl_buffers\<close>: a write to a full buffer blocks, a
  read of an empty one blocks or fails; \<open>evl_polls\<close>: \<open>poll\<close> may answer with errors of any kind and time out at any time,
  but sets \<open>POLLIN\<close> only if there is data. What a thread library leaves in the handle of a thread that it
  could not create is not assumed (\<open>stale_handle\<close>). \<open>System_World\<close> and the example kernel are concrete
  ones; for Cobalt and EVL they are stand-ins with the documented behaviour of the same operations.

  \<^bold>\<open>Assumptions.\<close> Accesses of atomics and of fields under the mutex are sequentially
  consistent. POSIX: a mutex has one owner, waiting on a condition variable releases it in one
  step and may end spuriously, semaphores count, and no signal handler interrupts \<open>sem_wait\<close>. The
  constructor of the barrier does not look at the results of creating the mutex and the
  condition variable; where both must exist, \<open>unread_results\<close> is assumed to be 0. A callback
  terminates, and leaves the realtime flag and the control register of its thread as it found
  them. A join by a handle that is no thread is undefined (\<open>Undefined InvalidHandle\<close>). Assertions are enabled: a failed one ends the program (\<open>CAbort\<close>). The pool is used
  by one thread at a time, as its interface requires. Doubles are rational numbers with a
  rounding function.

  \<^bold>\<open>Not modelled.\<close> The effect of a thread's policy and priority (the attributes it is
  created with are), of the denormals flags on arithmetic and of the warnings of mode switches;
  running out of memory; the C++ objects of several pools
  at once (one pool is shown not to touch the others' objects);
  declarations without code; tests, mocks and the build files.
\<close>

subsection \<open>Properties\<close>

text \<open>
  C8. End to end: a pool that \<open>create_worker_pool\<close> returns, in any build and for any number of
  cores from 1 that fits an \<open>int\<close>, with any thread libraries whose helper meets its contract, running the
  barrier's code on threads of the library and used as documented, from the constructor to the end of the
  destructor: it never aborts in any interleaving, with one exception, the join of a handle that
  is not 0 and that the library has left when it could not create a thread; its barrier has a mutex, a condition
  variable and two semaphores that nobody else in the system has; all other objects and threads stay as they are; and at
  most \<open>cores\<close> cores are used.
\<close>

theorem created_pool_lives_safely:
  assumes "create_worker_pool b flag strerror L isolated_file n w = (Inr (type, B, s0), w')"
    and "new_thread_helper b L type = Inr H"
    and "thread_contract H view wake tstate finish" and "unread_results H w = (0, 0)"
    and "0 < n" and "n \<le> INT_MAX"
    and "reach (life_host_step H wake finish fixed_core) (s0, B, w', [], 0) (s, B', u, hs, h)"
  shows "(aborted s \<longrightarrow> ctl s = Undefined InvalidHandle \<and> stale_handle H h) \<and> fresh_barrier (view w) (view w') B
    \<and> keeps (view w) (view u) \<and> (\<forall>x. tstate w x = NoThread \<or> tstate u x = tstate w x)
    \<and> length (core_info s) > 0 \<and> int (length (core_info s)) \<le> n"
proof -
  note T = assms(3)
  note C = thread_contract.axioms(1) [OF T]
  obtain cs where s0: "s0 = new_pool cs" and cs: "initial_cores (b = Evl_Build) type isolated_file n = Inr cs"
    and br: "barrier_ctor H w = (Inr B, w')"
    using create_worker_pool_pool [OF assms(1,2)] by metis
  have ne: "cs \<noteq> []" using initial_cores_nonempty [OF cs assms(5)] .
  have le: "int (length cs) \<le> n" by (rule initial_cores_shape [OF _ assms(6) cs]) (use assms(5) in auto)
  have hosted: "life_hosted H view tstate (length cs) w (s, B', u, hs, h)"
    by (rule thread_contract.life_hosted_reach [OF T br assms(4) ne]) (use assms(7) s0 in auto)
  then have li: "life_inv view tstate w (s, B', u, hs, h)" and len: "length (cores s) = length cs" by (simp_all add: life_hosted_def)
  have "ctl s = Undefined InvalidHandle \<and> stale_handle H h" if "aborted s"
    by (rule thread_contract.life_hosted_abort [OF T hosted that])
  moreover have "tstate w x = NoThread \<or> tstate u x = tstate w x" for x
    using handles_okD(4,5) [of "tstate w" "tstate u" s hs x] li by (auto simp: life_inv_def)
  moreover have "fresh_barrier (view w) (view w') B"
    by (rule helper_contract.barrier_ctor_fresh_objects [OF C br assms(4)])
  ultimately show ?thesis using li ne le len by (simp add: life_inv_def core_info_def)
qed

theorem created_pool_lives_safely_witness:
  "\<exists>s B w hs h. one_worker = (s, B, w, hs, h) \<and> \<not> aborted s \<and> length (core_info s) > 0
     \<and> fresh_barrier (sys_view (new_sys [])) (sys_view (snd (sys_barrier PTHREAD))) (fst (sys_barrier PTHREAD))"
proof -
  have i: "initial_cores False PTHREAD None 2 = Inr two_cores" by code_simp
  have t: "pool_type Posix_Build False = Inr PTHREAD" "(Posix_Build = Evl_Build) = False" by code_simp+
  have h: "new_thread_helper Posix_Build sys_libs PTHREAD = Inr (helper_of PTHREAD)"
    by (simp add: new_thread_helper_def sys_libs_def helper_of_def)
  have c: "create_worker_pool Posix_Build False (\<lambda>_. []) sys_libs None 2 (new_sys []) =
      (Inr (PTHREAD, fst (sys_barrier PTHREAD), new_pool two_cores), snd (sys_barrier PTHREAD))"
    unfolding create_worker_pool_def t h sys_barrier_ctor i sum.case prod.case by (rule refl)
  have z: "\<not> stale_handle (helper_of PTHREAD) h" for h
    by (auto simp: stale_handle_def helper_threads new_thread_def split: prod.splits if_splits)
  obtain s B w hs k where o: "one_worker = (s, B, w, hs, k)" by (rule prod_cases5)
  have r: "reach (life_host_step (helper_of PTHREAD) cond_wake finish_thread True)
      (new_pool two_cores, fst (sys_barrier PTHREAD), snd (sys_barrier PTHREAD), [], 0) (s, B, w, hs, k)"
    using one_worker_hosted o by (simp add: life_start_def)
  from created_pool_lives_safely [OF c h sys_helper_threads.thread_contract_axioms sys_unread _ _ r] z
  have "\<not> aborted s \<and> fresh_barrier (sys_view (new_sys [])) (sys_view (snd (sys_barrier PTHREAD))) (fst (sys_barrier PTHREAD))
      \<and> length (core_info s) > 0" by simp
  then show ?thesis using o by (intro exI [of _ s] exI [of _ B] exI [of _ w] exI [of _ hs] exI [of _ k]) simp
qed

text \<open>
  End to end: a pool that \<open>create_worker_pool\<close> returns, in any build and for any number of
  cores from 1 that fits an \<open>int\<close>, with any thread libraries whose helper meets its contract, running the
  barrier's code and used as documented, never aborts in any interleaving; its barrier has a
  mutex, a condition variable and two semaphores that nobody else in the system has; and at
  most \<open>cores\<close> cores are used.
\<close>

theorem created_pool_is_safe:
  assumes "create_worker_pool b flag strerror L isolated_file n w = (Inr (type, B, s0), w')"
    and "new_thread_helper b L type = Inr H"
    and "helper_contract H view wake" and "unread_results H w = (0, 0)"
    and "0 < n" and "n \<le> INT_MAX"
    and "reach (running_host_step H wake) (s0, B, w') c"
  shows "\<not> aborted (fst c) \<and> fresh_barrier (view w) (view w') B
    \<and> length (core_info (fst c)) > 0 \<and> int (length (core_info (fst c))) \<le> n"
proof -
  obtain cs where s0: "s0 = new_pool cs" and cs: "initial_cores (b = Evl_Build) type isolated_file n = Inr cs"
    and br: "barrier_ctor H w = (Inr B, w')"
    using create_worker_pool_pool [OF assms(1,2)] by metis
  note rp = ctor_running_pool [OF assms(3,4) br]
  let ?s = "seen view c"
  have r: "reach host_step (new_pool cs) ?s"
    using running_pool.host_reach_seen [OF rp] assms(7) s0 by simp
  have ne: "cs \<noteq> []" using initial_cores_nonempty [OF cs assms(5)] .
  have le: "int (length cs) \<le> n"
    by (rule initial_cores_shape [OF _ assms(6) cs]) (use assms(5) in auto)
  have ci: "core_inv (length cs) ?s" using core_inv_reach [OF host_reach_pool [OF r] ne] .
  have "aborted (fst c) = aborted ?s" "core_info (fst c) = core_info ?s"
    by (cases c; simp add: seen_def core_info_def aborted_def)+
  moreover have "length (core_info ?s) = length cs" using ci by (simp add: core_inv_def core_info_def)
  moreover have "\<not> aborted ?s" using no_abort [OF host_reach_inv [OF r] ci] .
  moreover have "fresh_barrier (view w) (view w') B"
    by (rule helper_contract.barrier_ctor_fresh_objects [OF assms(3) br assms(4)])
  ultimately show ?thesis using ne le by simp
qed

theorem created_pool_is_safe_witness:
  "\<exists>c. reach (running_host_step (helper_of PTHREAD) cond_wake)
       (new_pool two_cores, fst (sys_barrier PTHREAD), snd (sys_barrier PTHREAD)) c
     \<and> seen sys_view c = pool2 \<and> \<not> aborted (fst c) \<and> length (core_info (fst c)) > 0"
proof -
  have i: "initial_cores False PTHREAD None 2 = Inr two_cores" by code_simp
  have t: "pool_type Posix_Build False = Inr PTHREAD" "(Posix_Build = Evl_Build) = False" by code_simp+
  have h: "new_thread_helper Posix_Build sys_libs PTHREAD = Inr (helper_of PTHREAD)"
    by (simp add: new_thread_helper_def sys_libs_def helper_of_def)
  have c: "create_worker_pool Posix_Build False (\<lambda>_. []) sys_libs None 2 (new_sys []) =
      (Inr (PTHREAD, fst (sys_barrier PTHREAD), new_pool two_cores), snd (sys_barrier PTHREAD))"
    unfolding create_worker_pool_def t h sys_barrier_ctor i sum.case prod.case by (rule refl)
  obtain c where r: "reach (running_host_step (helper_of PTHREAD) cond_wake)
       (new_pool two_cores, fst (sys_barrier PTHREAD), snd (sys_barrier PTHREAD)) c" "seen sys_view c = pool2"
    using sys_running.host_reach_possible [OF pool2_reach] by blast
  have "\<not> aborted (fst c) \<and> length (core_info (fst c)) > 0"
    using created_pool_is_safe [OF c h sys_helper.helper_contract_axioms sys_unread _ _ r(1)] by simp
  then show ?thesis using r by (intro exI [of _ c] conjI) simp_all
qed

text \<open>
  C32. The factory of condition variables takes an id only for the realtime classes; the
  object it returns has the smallest id that was free, and its destructor gives it back, but
  not that of an EVL variable; and if the constructor throws, the id stays taken for ever, because no
  object holds it and no destructor gives it back.
\<close>

theorem failed_ctor_keeps_id:
  assumes "create_rt_condition_variable b flag K rands strerror err ids w k = (res, ids', w', k')"
  shows "case res of
      Inr v \<Rightarrow> fst (destroy_rt_condition_variable K ws v ids' w' k') =
        (case v of EvlCV cv \<Rightarrow> ids[evl_id cv := True] | _ \<Rightarrow> ids)
        \<and> (case v of XenomaiCV cv \<Rightarrow> xenomai_id cv < length ids \<and> \<not> ids ! xenomai_id cv \<and> (\<forall>j < xenomai_id cv. ids ! j)
             \<and> ids' = ids[xenomai_id cv := True]
           | EvlCV cv \<Rightarrow> evl_id cv < length ids \<and> \<not> ids ! evl_id cv \<and> (\<forall>j < evl_id cv. ids ! j)
             \<and> ids' = ids[evl_id cv := True]
           | _ \<Rightarrow> ids' = ids)
    | Inl f \<Rightarrow> (if cond_var_type b flag = XenomaiConditionVariable \<or> cond_var_type b flag = EvlConditionVariable
        then (\<forall>j < length ids. ids ! j) \<and> ids' = ids
             \<or> (\<exists>i < length ids. \<not> ids ! i \<and> ids' = ids[i := True])
        else ids' = ids)"
proof -
  have id: "ids[i := False] = ids" if "i < length ids" "\<not> ids ! i" for i
    using that by (metis (full_types) list_update_id)
  show ?thesis
    using assms get_next_id_cases [of ids] id
    by (auto simp: create_rt_condition_variable_def destroy_rt_condition_variable_def xenomai_cv_dtor_def
        drop_xenomai_id dest!: ctor_ids split: cond_var_class.splits prod.splits sum.splits if_splits)
qed

theorem failed_ctor_keeps_id_witness:
  "fst (create_rt_condition_variable Evl_Build True ex_kernel (\<lambda>_. 0) (\<lambda>_. []) 0 [True, False] empty_world (ex_world [True]))
     = Inl (Runtime_Error [])
   \<and> (\<exists>i < length [True, False]. \<not> [True, False] ! i \<and> [True, True] = [True, False][i := True])"
proof -
  let ?c = "create_rt_condition_variable Evl_Build True ex_kernel (\<lambda>_. 0) (\<lambda>_. []) 0 [True, False] empty_world (ex_world [True])"
  have f: "fst ?c = Inl (Runtime_Error [])" "fst (snd ?c) = [True, True]" by code_simp+
  then have c: "?c = (Inl (Runtime_Error []), [True, True], fst (snd (snd ?c)), snd (snd (snd ?c)))" by (metis prod.collapse)
  have "cond_var_type Evl_Build True = EvlConditionVariable" by code_simp
  moreover have "\<not> (\<forall>j < length [True, False]. [True, False] ! j)" by (auto intro: exI [of _ 1])
  ultimately show ?thesis using failed_ctor_keeps_id [OF c] f(1)
    by (simp del: list_update.simps nth_Cons_0 nth_Cons_Suc length_Cons)
qed

subsection \<open>The pool on macOS\<close>

text \<open>
  C27. \<open>add_worker\<close> on macOS, from the answers of the system to the result, in every
  interleaving: if the thread becomes realtime and (with CoreAudio on macOS 11) joins the
  workgroup of the device, the pool has one worker more and the call returns OK; otherwise it
  returns POOL_ERROR with a reason, the pool has the workers it had, and no core counts the worker.
\<close>

theorem add_worker_on_macos:
  assumes "reach pool_step (new_pool cs) s" and "ctl s = Host" and "cs \<noteq> []"
    and "apple_worker_ctor coreaudio sys name = (st, wg)"
    and "join_workgroup coreaudio (macos_11 sys) wg cancelled res = Inr js"
    and "0 \<le> prio" and "prio \<le> 100"
    and "run pool_step (host_call (AddWorker (apple_add_args coreaudio sys name prio None 0 rt js)) s) ls t"
    and "\<forall>l \<in> set ls. \<not> is_call l" and "ctl t = Host"
  shows "if rt \<and> (coreaudio \<and> macos_11 sys \<longrightarrow> st = ATS_OK \<and> wg \<noteq> None \<and> \<not> cancelled \<and> res = 0)
    then ret t = Some (WPS_OK, ATS_OK) \<and> num t = num s + 1
    else (\<exists>r. r \<noteq> ATS_OK \<and> ret t = Some (POOL_ERROR, r)) \<and> num t = num s \<and> core_info t = core_info s"
proof -
  let ?a = "apple_add_args coreaudio sys name prio None 0 rt js"
  have p: "pool_inv (host_call (AddWorker ?a) s)"
    by (rule pool_step_inv [OF step_call [OF assms(2)] pool_reach_inv [OF assms(1)]])
  have "predict t = predict (host_call (AddWorker ?a) s)"
    using predict_run [OF assms(8) p assms(9)] assms(10) by simp
  then have o: "(ret t, cores t, profile t) = add_worker_spec ?a (cores s) (profile s)"
    using predict_call [OF assms(2)] host_outcome [OF assms(10)] by simp
  have "core_inv (length cs) s" using core_inv_reach [OF assms(1,3)] .
  then have "cores s \<noteq> []" using assms(3) by (auto simp: core_inv_def)
  then have undo: "add_core_workers (min_core (cores s)) (- 1) (add_core_workers (min_core (cores s)) 1 (cores s)) = cores s"
    using core_add_undo min_core_least(1) by blast
  have run: "errno_to_worker_status (run_worker ?a) = WPS_OK" and cpu: "arg_cpu ?a = None"
    using assms(6,7) by (simp_all add: apple_add_args_def run_worker_def)
  have l: "num x = length (profile x)" for x by (simp add: profile_def)
  show ?thesis
  proof (cases "final_status ?a = ATS_OK")
    case True
    then have "ret t = Some (WPS_OK, ATS_OK) \<and> num t = num s + 1"
      using o run cpu unfolding l by (simp add: add_worker_spec_def start_spec_def Let_def)
    then show ?thesis using True apple_final_ok [OF assms(4,5), of prio None 0 rt] by simp
  next
    case False
    then have "ret t = Some (POOL_ERROR, final_status ?a) \<and> num t = num s \<and> core_info t = core_info s"
      using o run cpu undo unfolding l by (simp add: add_worker_spec_def start_spec_def Let_def core_info_def)
    then show ?thesis using False apple_final_ok [OF assms(4,5), of prio None 0 rt] by simp
  qed
qed

theorem add_worker_on_macos_witness:
  "ret (call_and_run 120 (AddWorker (apple_add_args True example_system ''none'' 75 None 0 True NO_WORKGROUP_PASSED)) pool1)
     \<noteq> Some (WPS_OK, ATS_OK)
   \<and> num (call_and_run 120 (AddWorker (apple_add_args True example_system ''none'' 75 None 0 True NO_WORKGROUP_PASSED)) pool1) = 1"
proof -
  let ?a = "apple_add_args True example_system ''none'' 75 None 0 True NO_WORKGROUP_PASSED"
  obtain ls where r: "run pool_step (host_call (AddWorker ?a) pool1) ls (call_and_run 120 (AddWorker ?a) pool1)"
      "\<forall>l \<in> set ls. \<not> is_call l"
    by (rule call_and_run_run)
  have h: "ctl (call_and_run 120 (AddWorker ?a) pool1) = Host" by code_simp
  have c: "apple_worker_ctor True example_system ''none'' = (INVALID_DEVICE_NAME_PASSED, None)"
    "join_workgroup True (macos_11 example_system) None False 0 = Inr NO_WORKGROUP_PASSED" by code_simp+
  have "two_cores \<noteq> []" "macos_11 example_system" by code_simp+
  then show ?thesis
    using add_worker_on_macos [OF host_reach_pool [OF pool1_reach] _ _ c _ _ r h] pool1_host by auto
qed

end
